(* ===== verification/Prelude.thy ===== *)
theory Prelude
  imports Complex_Main "HOL-Library.Word" "HOL-Library.Signed_Division"
begin

text \<open>
  Shared vocabulary of the development: the machine types of the Go program (bytes,
  64-bit words, durations, instants), the collections its proofs use, and the generic
  lemmas on lists, maps and signed words that several components need.

  A Go \<open>byte\<close> is an \<open>8 word\<close>, a \<open>[]byte\<close> a list of them. A \<open>string\<close> is a Go string
  (a sequence of bytes, one \<open>char\<close> each). \<open>time.Duration\<close> is a signed 64-bit number of
  nanoseconds, a \<open>64 word\<close> read with \<open>sint\<close>, so its additions and multiplications wrap as
  Go's do. A \<open>time.Time\<close> is an \<open>int\<close>: nanoseconds since the Unix epoch.
\<close>

type_synonym byte = "8 word"
type_synonym bytes = "byte list"
type_synonym duration = "64 word"
type_synonym time = int
type_synonym key = string

named_theorems go_defs \<open>definitions of the Go runtime operations, unfolded together\<close>
named_theorems world_frame \<open>what an operation leaves alone in the world\<close>
named_theorems hook_defs \<open>definitions of the hook callbacks\<close>

section \<open>Signed 64-bit values\<close>

abbreviation pos64 :: "duration \<Rightarrow> bool" where
  "pos64 d \<equiv> 0 < sint d"

lemma sint64_bounds: "- (2 ^ 63) \<le> sint (d :: duration)" "sint (d :: duration) < 2 ^ 63"
  using sint_greater_eq [of d] sint_less [of d] by simp_all

lemma sint64_of_int:
  "- (2 ^ 63) \<le> i \<Longrightarrow> i < 2 ^ 63 \<Longrightarrow> sint (word_of_int i :: duration) = i"
  by (simp add: signed_take_bit_int_eq_self sint_sbintrunc')

lemma sint64_add:
  "- (2 ^ 63) \<le> sint a + sint b \<Longrightarrow> sint a + sint b < 2 ^ 63 \<Longrightarrow>
   sint ((a :: duration) + b) = sint a + sint b"
proof -
  assume b: "- (2 ^ 63) \<le> sint a + sint b" "sint a + sint b < 2 ^ 63"
  have eq: "word_of_int (sint a + sint b) = a + b" by simp
  from sint64_of_int [OF b] show ?thesis by (simp only: eq)
qed

section \<open>Lists and maps\<close>

text \<open>\<open>bytes.HasPrefix\<close>.\<close>

definition hasPrefix :: "'a list \<Rightarrow> 'a list \<Rightarrow> bool" where
  "hasPrefix s p \<longleftrightarrow> take (length p) s = p"

lemma hasPrefix_append [simp]: "hasPrefix (p @ s) p"
  by (simp add: hasPrefix_def)

lemma hasPrefix_length: "hasPrefix s p \<Longrightarrow> length p \<le> length s"
  by (metis hasPrefix_def length_take min.cobounded1)

lemma append_prefix_disjoint:
  "take (length q) p \<noteq> q \<Longrightarrow> take (length p) q \<noteq> p \<Longrightarrow> p @ a \<noteq> q @ b"
proof
  assume p: "take (length q) p \<noteq> q" and q: "take (length p) q \<noteq> p" and eq: "p @ a = q @ b"
  show False
  proof (cases "length q \<le> length p")
    case True
    then have "take (length q) (p @ a) = take (length q) p" by simp
    with eq have "take (length q) p = q" by simp
    with p show False by simp
  next
    case False
    then have "take (length p) (q @ b) = take (length p) q" by simp
    with eq have "take (length p) q = p" by (metis append_eq_conv_conj)
    with q show False by simp
  qed
qed

text \<open>The keys of an association list in order, each once: Go's \<open>seen\<close>-map loop.\<close>

fun dedupFrom :: "'a list \<Rightarrow> 'a list \<Rightarrow> 'a list" where
  "dedupFrom seen [] = []"
| "dedupFrom seen (k # ks) =
     (if k \<in> set seen then dedupFrom seen ks else k # dedupFrom (k # seen) ks)"

lemma set_dedupFrom: "set (dedupFrom seen ks) = set ks - set seen"
  by (induction seen ks rule: dedupFrom.induct) auto

lemma distinct_dedupFrom [simp]: "distinct (dedupFrom seen ks)"
  by (induction seen ks rule: dedupFrom.induct) (auto simp: set_dedupFrom)

end
