(* ===== verification/Float64.thy ===== *)
theory Float64
  imports Prelude "HOL-Library.Log_Nat"
begin

text \<open>
  Go's \<open>float64\<close> arithmetic, as far as TTL jitter (options.go) and probabilistic early
  refresh (envelope.go) use it: a finite \<open>float64\<close> is the rational it denotes, and every
  operation is the exact rational operation followed by \<open>fl\<close>, the IEEE 754 rounding to the
  nearest number with a 53-bit significand (ties to even). The exponent is not bounded:
  infinities, NaNs and subnormal numbers are outside the model.

  The locale \<open>rounding\<close> states what the clients use of the rounding (it is monotone and fixes
  the numbers with a short significand); \<open>fl\<close> interprets it.
\<close>

section \<open>The rounding function\<close>

text \<open>The exponent of a positive rational: \<open>2^e \<le> x < 2^(e+1)\<close>.\<close>

definition ilog2 :: "rat \<Rightarrow> int" where
  "ilog2 x = (case quotient_of x of (p, q) \<Rightarrow>
     let k = bitlen p - bitlen q in if 2 powi k \<le> x then k else k - 1)"

text \<open>Round half to even.\<close>

definition rne :: "rat \<Rightarrow> int" where
  "rne x = (let f = \<lfloor>x\<rfloor>; d = x - of_int f in
     if d < 1/2 then f else if 1/2 < d then f + 1 else if even f then f else f + 1)"

definition ulp :: "rat \<Rightarrow> rat" where
  "ulp x = 2 powi (ilog2 \<bar>x\<bar> - 52)"

definition fl :: "rat \<Rightarrow> rat" where
  "fl x = (if x = 0 then 0 else of_int (rne (x / ulp x)) * ulp x)"

text \<open>Conversion of a \<open>float64\<close> to an integer truncates towards zero.\<close>

definition ftrunc :: "rat \<Rightarrow> int" where
  "ftrunc x = (if 0 \<le> x then \<lfloor>x\<rfloor> else \<lceil>x\<rceil>)"

section \<open>Properties of the integer rounding\<close>

lemma rne_near: "\<bar>of_int (rne x) - x\<bar> \<le> 1/2"
  unfolding rne_def Let_def by (auto simp: abs_if) (linarith | smt (verit) floor_correct field_sum_of_halves)+

lemma rne_of_int [simp]: "rne (of_int i) = i"
  by (simp add: rne_def)

lemma rne_floor_or: "rne x = \<lfloor>x\<rfloor> \<or> rne x = \<lfloor>x\<rfloor> + 1"
  by (simp add: rne_def Let_def)

lemma rne_mono: "x \<le> y \<Longrightarrow> rne x \<le> rne y"
proof -
  assume le: "x \<le> y"
  show ?thesis
  proof (cases "\<lfloor>x\<rfloor> = \<lfloor>y\<rfloor>")
    case True
    with le show ?thesis by (auto simp: rne_def Let_def)
  next
    case False
    with floor_mono [OF le] have "\<lfloor>x\<rfloor> + 1 \<le> \<lfloor>y\<rfloor>" by linarith
    with rne_floor_or [of x] rne_floor_or [of y] show ?thesis by linarith
  qed
qed

lemma rne_le_of_int: "x \<le> of_int i \<Longrightarrow> rne x \<le> i"
  using rne_mono [of x "of_int i"] by simp

lemma rne_ge_of_int: "of_int i \<le> x \<Longrightarrow> i \<le> rne x"
  using rne_mono [of "of_int i" x] by simp

lemma rne_minus: "rne (- x) = - rne x"
proof (cases "x = of_int \<lfloor>x\<rfloor>")
  case True
  then show ?thesis by (metis of_int_minus rne_of_int)
next
  case False
  then have "\<lfloor>- x\<rfloor> = - \<lfloor>x\<rfloor> - 1"
    by (smt (verit, best) ceiling_altdef floor_minus of_int_eq_iff)
  then show ?thesis by (auto simp: rne_def Let_def)
qed


section \<open>The exponent\<close>

lemma ilog2_bounds:
  assumes "0 < x"
  shows "2 powi ilog2 x \<le> x" "x < 2 powi (ilog2 x + 1)"
proof -
  obtain p q where pq: "quotient_of x = (p, q)" by force
  have q: "0 < q" and x: "x = of_int p / of_int q"
    using quotient_of_denom_pos [OF pq] quotient_of_div [OF pq] by auto
  with assms have p: "0 < p" by (simp add: zero_less_divide_iff)
  let ?a = "bitlen p" and ?b = "bitlen q"
  have pow: "(2::rat) powi m = of_int (2 ^ nat m)" if "0 \<le> m" for m
    using that by (simp add: power_int_def)
  have pos: "0 < ?a" "0 < ?b"
    using p q by (metis bitlen_eq_zero_iff bitlen_nonneg linorder_not_le order_le_less)+
  have b: "(2::rat) powi (?a - 1) \<le> of_int p" "of_int p < (2::rat) powi ?a"
    "(2::rat) powi (?b - 1) \<le> of_int q" "of_int q < (2::rat) powi ?b"
    using bitlen_bounds [OF p] bitlen_bounds [OF q] pos
    by (simp_all add: pow del: of_int_power)
  have dist: "(2::rat) powi (m - n) = 2 powi m / 2 powi n" for m n
    by (simp add: power_int_diff)
  have lo: "2 powi (?a - ?b - 1) \<le> x"
  proof -
    have "(2::rat) powi (?a - 1 - ?b) = 2 powi (?a - 1) / 2 powi ?b" by (rule dist)
    also have "\<dots> \<le> of_int p / of_int q"
      using b p q by (intro frac_le) (auto simp: less_imp_le)
    finally show ?thesis by (simp add: x algebra_simps)
  qed
  have hi: "x < 2 powi (?a - ?b + 1)"
  proof -
    have "of_int p / of_int q < (2::rat) powi ?a / 2 powi (?b - 1)"
      using b p q by (intro frac_less) auto
    also have "\<dots> = 2 powi (?a - (?b - 1))" by (rule dist [symmetric])
    finally show ?thesis by (simp add: x algebra_simps)
  qed
  from lo hi show "2 powi ilog2 x \<le> x" "x < 2 powi (ilog2 x + 1)"
    by (auto simp: ilog2_def pq Let_def)
qed

lemma ilog2_mono: "0 < x \<Longrightarrow> x \<le> y \<Longrightarrow> ilog2 x \<le> ilog2 y"
proof (rule ccontr)
  assume "0 < x" "x \<le> y" "\<not> ilog2 x \<le> ilog2 y"
  then have "(2::rat) powi (ilog2 y + 1) \<le> 2 powi ilog2 x"
    by (intro power_int_increasing) auto
  with ilog2_bounds(1) [of x] ilog2_bounds(2) [of y] \<open>0 < x\<close> \<open>x \<le> y\<close> show False by simp
qed

lemma ulp_pos [simp]: "0 < ulp x"
  by (simp add: ulp_def)

text \<open>A positive number lies between \<open>2^52\<close> and \<open>2^53\<close> units in the last place.\<close>

lemma ulp_scale:
  assumes "0 < x"
  shows "2 ^ 52 \<le> x / ulp x" "x / ulp x < 2 ^ 53"
proof -
  have p: "2 powi ilog2 x = 2 ^ 52 * ulp x" "2 powi (ilog2 x + 1) = 2 ^ 53 * ulp x"
    using assms by (simp_all add: ulp_def power_int_diff power_int_add)
  show "2 ^ 52 \<le> x / ulp x" "x / ulp x < 2 ^ 53"
    using ilog2_bounds [OF assms] p by (simp_all add: pos_le_divide_eq pos_divide_less_eq)
qed

lemma rne_scale_bounds:
  assumes "0 < x"
  shows "2 ^ 52 \<le> rne (x / ulp x)" "rne (x / ulp x) \<le> 2 ^ 53"
  using ulp_scale [OF assms] by (auto intro!: rne_ge_of_int rne_le_of_int)

section \<open>Properties of the rounding\<close>

lemma fl_0 [simp]: "fl 0 = 0"
  by (simp add: fl_def)

lemma fl_minus: "fl (- x) = - fl x"
  by (simp add: fl_def ulp_def rne_minus)

lemma fl_pos: "0 < x \<Longrightarrow> 0 < fl x"
proof -
  assume x: "0 < x"
  have "(0::int) < 2 ^ 52" by simp
  also note rne_scale_bounds(1) [OF x]
  finally have "0 < rne (x / ulp x)" .
  with x show ?thesis by (simp add: fl_def)
qed

lemma fl_mono_pos:
  assumes "0 < x" "x \<le> y"
  shows "fl x \<le> fl y"
proof (cases "ilog2 x = ilog2 y")
  case True
  with assms have u: "ulp x = ulp y" by (simp add: ulp_def)
  from assms have "rne (x / ulp y) \<le> rne (y / ulp y)"
    by (intro rne_mono divide_right_mono) (auto simp: less_imp_le)
  with assms u show ?thesis by (simp add: fl_def mult_right_mono less_imp_le)
next
  case False
  with ilog2_mono [OF assms] have lt: "ilog2 x + 1 \<le> ilog2 y" by linarith
  have "fl x = of_int (rne (x / ulp x)) * ulp x" using assms by (simp add: fl_def)
  also have "\<dots> \<le> 2 ^ 53 * ulp x"
  proof -
    have "rat_of_int (rne (x / ulp x)) \<le> of_int (2 ^ 53)"
      using rne_scale_bounds(2) [OF assms(1)] by (simp only: of_int_le_iff)
    then show ?thesis by (intro mult_right_mono) (auto simp: less_imp_le)
  qed
  also have "\<dots> = 2 powi (ilog2 x + 1)"
    using assms by (simp add: ulp_def power_int_diff power_int_add)
  also have "\<dots> \<le> 2 powi ilog2 y" using lt by (intro power_int_increasing) auto
  also have "\<dots> = 2 ^ 52 * ulp y"
    using assms by (simp add: ulp_def power_int_diff)
  also have "\<dots> \<le> of_int (rne (y / ulp y)) * ulp y"
  proof -
    have "rat_of_int (2 ^ 52) \<le> of_int (rne (y / ulp y))"
      using rne_scale_bounds(1) [of y] assms by (simp only: of_int_le_iff)
    then show ?thesis by (intro mult_right_mono) (auto simp: less_imp_le)
  qed
  also have "\<dots> = fl y" using assms by (simp add: fl_def)
  finally show ?thesis .
qed

lemma fl_nonneg: "0 \<le> x \<Longrightarrow> 0 \<le> fl x"
  by (cases "x = 0") (auto simp: fl_pos less_imp_le)

lemma fl_mono: "x \<le> y \<Longrightarrow> fl x \<le> fl y"
proof -
  assume le: "x \<le> y"
  consider "0 < x" | "x \<le> 0" "0 \<le> y" | "y < 0" by linarith
  then show ?thesis
  proof cases
    case 1
    from this le show ?thesis by (rule fl_mono_pos)
  next
    case 2
    from fl_nonneg [of "- x"] 2 have "fl x \<le> 0" by (simp add: fl_minus)
    with fl_nonneg [OF 2(2)] show ?thesis by linarith
  next
    case 3
    with le fl_mono_pos [of "- y" "- x"] show ?thesis by (simp add: fl_minus)
  qed
qed


lemma fl_integral:
  assumes "x / ulp x = of_int i"
  shows "fl x = x"
proof (cases "x = 0")
  case False
  have "ulp x \<noteq> 0" using ulp_pos [of x] by linarith
  then have "x = of_int i * ulp x" by (rule nonzero_divide_eq_eq [THEN iffD1, OF _ assms])
  moreover from False have "fl x = of_int i * ulp x" by (simp only: fl_def assms rne_of_int if_False)
  ultimately show ?thesis by (rule trans [OF _ sym, rotated])
qed simp

text \<open>Numbers with a significand of at most 53 bits are left alone.\<close>

lemma fl_exact_pos:
  assumes m: "0 < m" "m \<le> 2 ^ 53"
  shows "fl (of_int m * 2 powi k) = of_int m * 2 powi k"
proof -
  let ?x = "rat_of_int m * 2 powi k"
  have x: "0 < ?x" using m by simp
  have "rat_of_int m \<le> of_int (2 ^ 53)" using m(2) by (simp only: of_int_le_iff)
  then have le: "?x \<le> 2 powi (53 + k)" by (simp add: power_int_add)
  from ilog2_bounds(1) [OF x] le have "(2::rat) powi ilog2 ?x \<le> 2 powi (53 + k)" by linarith
  then have e: "ilog2 ?x \<le> 53 + k" by (metis linorder_not_le one_less_numeral_iff power_int_strict_increasing semiring_norm(76))
  have "\<exists>i. ?x / ulp ?x = of_int i"
  proof (cases "ilog2 ?x = 53 + k")
    case True
    with ilog2_bounds(1) [OF x] le have eq: "2 powi ilog2 ?x = ?x" by simp
    have "ulp ?x = 2 powi ilog2 ?x / 2 ^ 52"
      using x by (simp add: ulp_def power_int_diff)
    also note eq
    finally have u: "ulp ?x = ?x / 2 ^ 52" .
    from m have "?x / (?x / 2 ^ 52) = of_int (2 ^ 52)" by simp
    with u have "?x / ulp ?x = of_int (2 ^ 52)" by (simp only:)
    then show ?thesis ..
  next
    case False
    with e have n: "0 \<le> 52 + k - ilog2 ?x" by linarith
    have "?x / ulp ?x = of_int m * 2 powi (52 + k - ilog2 ?x)"
      using x by (simp add: ulp_def power_int_diff power_int_add)
    also have "\<dots> = of_int (m * 2 ^ nat (52 + k - ilog2 ?x))"
      using n by (simp add: power_int_def)
    finally show ?thesis ..
  qed
  then obtain i where "?x / ulp ?x = of_int i" ..
  then show ?thesis by (rule fl_integral)
qed

lemma fl_exact: "\<bar>m\<bar> \<le> 2 ^ 53 \<Longrightarrow> fl (of_int m * 2 powi k) = of_int m * 2 powi k"
proof -
  assume m: "\<bar>m\<bar> \<le> 2 ^ 53"
  consider "0 < m" | "m = 0" | "m < 0" by linarith
  then show ?thesis
  proof cases
    case 3
    with m fl_exact_pos [of "- m" k] show ?thesis by (simp add: fl_minus)
  qed (use m in \<open>auto intro: fl_exact_pos\<close>)
qed

text \<open>Rounding twice is rounding once: every result has a short significand.\<close>

lemma fl_idem_pos: "0 < x \<Longrightarrow> fl (fl x) = fl x"
proof -
  assume x: "0 < x"
  have "(0::int) \<le> 2 ^ 52" by simp
  also note rne_scale_bounds(1) [OF x]
  finally have "\<bar>rne (x / ulp x)\<bar> \<le> 2 ^ 53" using rne_scale_bounds(2) [OF x] by simp
  from fl_exact [OF this, of "ilog2 \<bar>x\<bar> - 52"] x show ?thesis by (simp add: fl_def [of x] ulp_def [of x])
qed

lemma fl_idem [simp]: "fl (fl x) = fl x"
  using fl_idem_pos [of x] fl_idem_pos [of "- x"]
  by (cases x "0::rat" rule: linorder_cases) (auto simp: fl_minus)

section \<open>The interface used by the clients\<close>

locale rounding =
  fixes rnd :: "rat \<Rightarrow> rat"
  assumes rnd_mono: "x \<le> y \<Longrightarrow> rnd x \<le> rnd y"
    and rnd_exact: "\<bar>m\<bar> \<le> 2 ^ 53 \<Longrightarrow> rnd (of_int m * 2 powi k) = of_int m * 2 powi k"
begin

lemma rnd_of_int: "\<bar>m\<bar> \<le> 2 ^ 53 \<Longrightarrow> rnd (of_int m) = of_int m"
  using rnd_exact [of m 0] by simp

lemma rnd_pow2: "rnd (2 powi k) = 2 powi k"
  using rnd_exact [of 1 k] by simp

lemma rnd_0: "rnd 0 = 0"
  using rnd_of_int [of 0] by simp

lemma rnd_1: "rnd 1 = 1"
  using rnd_of_int [of 1] by simp

lemma rnd_2: "rnd 2 = 2"
  using rnd_of_int [of 2] by simp

lemma rnd_nonneg: "0 \<le> x \<Longrightarrow> 0 \<le> rnd x"
  using rnd_mono [of 0 x] by (simp add: rnd_0)

lemma rnd_le_fixed: "x \<le> y \<Longrightarrow> rnd y = y \<Longrightarrow> rnd x \<le> y"
  using rnd_mono [of x y] by simp

lemma rnd_ge_fixed: "y \<le> x \<Longrightarrow> rnd y = y \<Longrightarrow> y \<le> rnd x"
  using rnd_mono [of y x] by simp

end

interpretation f64: rounding fl
  by unfold_locales (auto intro: fl_mono fl_exact)

section \<open>Truncation\<close>

lemma ftrunc_of_int [simp]: "ftrunc (of_int i) = i"
  by (simp add: ftrunc_def)

lemma ftrunc_mono: "x \<le> y \<Longrightarrow> ftrunc x \<le> ftrunc y"
  unfolding ftrunc_def by (auto intro: floor_mono ceiling_mono order_trans [of "\<lceil>x\<rceil>" 0])

lemma ftrunc_nonneg: "0 \<le> x \<Longrightarrow> 0 \<le> ftrunc x"
  by (simp add: ftrunc_def)

lemma ftrunc_le: "x \<le> of_int i \<Longrightarrow> ftrunc x \<le> i"
  using ftrunc_mono [of x "of_int i"] by simp

lemma ftrunc_ge: "of_int i \<le> x \<Longrightarrow> i \<le> ftrunc x"
  using ftrunc_mono [of "of_int i" x] by simp

end
