(* ===== verification/GoRuntime.thy ===== *)
theory GoRuntime
  imports Float64 "HOL-Library.Multiset"
begin

text \<open>
  The part of Go's language and standard library the program uses: error values and
  \<open>errors.Is\<close>, \<open>time.Time\<close> and \<open>time.Duration\<close> arithmetic, contexts, and the world a piece of
  code runs in: the wall clock, the random source and the map iteration order (oracles read
  one value at a time), the observer state that hook callbacks update, and the backend store.

  Everything that has an effect is a function from a world to a result and a new world.
\<close>

section \<open>Errors\<close>

text \<open>
  \<open>errors.New\<close> makes a value with an identity of its own (the number); \<open>fmt.Errorf\<close> keeps its
  format and operands, and the wrapped error when the format has \<open>%w\<close>. The rendered text is
  not computed.
\<close>

datatype farg = Str string | Num nat

datatype gerror =
    New nat string
  | Errorf string "farg list"
  | Wrapf string "farg list" gerror

fun errorsIs :: "gerror \<Rightarrow> gerror \<Rightarrow> bool" where
  "errorsIs (Wrapf f as e) t \<longleftrightarrow> Wrapf f as e = t \<or> errorsIs e t"
| "errorsIs e t \<longleftrightarrow> e = t"

lemma errorsIs_refl [simp]: "errorsIs e e"
  by (cases e) simp_all

definition Canceled :: gerror where
  "Canceled = New 2 ''context canceled''"

definition DeadlineExceeded :: gerror where
  "DeadlineExceeded = New 3 ''context deadline exceeded''"

text \<open>What a call of a user function or a goroutine body can do.\<close>

datatype 'a outcome = Ret 'a | Err gerror | Panic string

section \<open>Time\<close>

text \<open>The zero \<open>time.Time\<close>: 1 January of year 1, in nanoseconds since the Unix epoch.\<close>

definition zeroTime :: time where
  "zeroTime = -62135596800000000000"

definition isZero :: "time \<Rightarrow> bool" where
  "isZero t \<longleftrightarrow> t = zeroTime"

definition tAdd :: "time \<Rightarrow> duration \<Rightarrow> time" where
  "tAdd t d = t + sint d"

text \<open>\<open>Time.Sub\<close> saturates at the ends of the \<open>Duration\<close> range.\<close>

definition tSub :: "time \<Rightarrow> time \<Rightarrow> duration" where
  "tSub t u = word_of_int (max (- (2 ^ 63)) (min (2 ^ 63 - 1) (t - u)))"

abbreviation nsPerMilli :: int where
  "nsPerMilli \<equiv> 1000000"

definition millisecond :: duration where
  "millisecond = 1000000"

definition minute :: duration where
  "minute = 60000000000"

definition unixMilli :: "time \<Rightarrow> 64 word" where
  "unixMilli t = word_of_int (t div nsPerMilli)"

definition ofUnixMilli :: "64 word \<Rightarrow> time" where
  "ofUnixMilli ms = sint ms * nsPerMilli"

text \<open>\<open>Duration.Milliseconds\<close>: Go's integer division truncates towards zero.\<close>

definition milliseconds :: "duration \<Rightarrow> 64 word" where
  "milliseconds d = word_of_int (sint d sdiv nsPerMilli)"

lemma sint_millisecond [simp]: "sint millisecond = 1000000"
  by (simp add: millisecond_def)

lemma sint_minute [simp]: "sint minute = 60000000000"
  by (simp add: minute_def)

lemma sint_tSub: "sint (tSub t u) = max (- (2 ^ 63)) (min (2 ^ 63 - 1) (t - u))"
  unfolding tSub_def by (rule sint64_of_int) (simp_all add: max_def min_def)

lemma tSub_nonneg: "u \<le> t \<Longrightarrow> 0 \<le> sint (tSub t u)"
  unfolding sint_tSub by (simp add: max_def min_def)

section \<open>Contexts\<close>

text \<open>
  A context carries an optional deadline, the instant at which its cancel function is called
  (if it ever is), and its values.
\<close>

record ctx =
  ctxDeadline :: "time option"
  ctxCancel :: "time option"
  ctxValues :: "string \<rightharpoonup> string"

definition Background :: ctx where
  "Background = \<lparr>ctxDeadline = None, ctxCancel = None, ctxValues = Map.empty\<rparr>"

definition reached :: "time option \<Rightarrow> time \<Rightarrow> bool" where
  "reached d t = (case d of None \<Rightarrow> False | Some u \<Rightarrow> u \<le> t)"

text \<open>\<open>ctx.Err()\<close> at an instant; the context is \<open>Done\<close> when it is not nil.\<close>

definition ctxErr :: "ctx \<Rightarrow> time \<Rightarrow> gerror option" where
  "ctxErr c t =
     (case ctxDeadline c of
        Some d \<Rightarrow>
          if d \<le> t \<and> \<not> (case ctxCancel c of None \<Rightarrow> False | Some u \<Rightarrow> u < d)
          then Some DeadlineExceeded
          else if reached (ctxCancel c) t then Some Canceled else None
      | None \<Rightarrow> if reached (ctxCancel c) t then Some Canceled else None)"

definition withoutCancel :: "ctx \<Rightarrow> ctx" where
  "withoutCancel c = c\<lparr>ctxDeadline := None, ctxCancel := None\<rparr>"

text \<open>A derived deadline never exceeds the parent's.\<close>

definition withDeadline :: "ctx \<Rightarrow> time \<Rightarrow> ctx" where
  "withDeadline c d = c\<lparr>ctxDeadline :=
     Some (case ctxDeadline c of None \<Rightarrow> d | Some d' \<Rightarrow> min d' d)\<rparr>"

section \<open>The world\<close>

text \<open>
  \<open>clock n\<close> is the instant the \<open>n\<close>-th \<open>time.Now()\<close> of the run returns, \<open>randf n\<close> the \<open>n\<close>-th
  \<open>rand.Float64()\<close>, \<open>mapOrder n\<close> the order in which the \<open>n\<close>-th \<open>range\<close> over a map visits its keys.
  \<open>mathLog\<close> is \<open>math.Log\<close>; \<open>f2iOob\<close> is what the platform returns for a float-to-integer
  conversion out of range, which the Go specification leaves to the implementation.
\<close>

record runtime =
  clock :: "nat \<Rightarrow> time"
  randf :: "nat \<Rightarrow> rat"
  mapOrder :: "nat \<Rightarrow> string list \<Rightarrow> string list"
  mathLog :: "rat \<Rightarrow> rat"
  f2iOob :: "rat \<Rightarrow> duration"

definition wfRuntime :: "runtime \<Rightarrow> bool" where
  "wfRuntime r \<longleftrightarrow> mono (clock r)
     \<and> (\<forall>n. \<exists>m. 0 \<le> m \<and> m < 2 ^ 53 \<and> randf r n = of_int m / 2 ^ 53)
     \<and> (\<forall>n ks. mset (mapOrder r n ks) = mset ks)
     \<and> mathLog r 1 = 0 \<and> (\<forall>x. 0 < x \<longrightarrow> x \<le> 1 \<longrightarrow> mathLog r x \<le> 0)"

record ('s, 'h) world =
  rt :: runtime
  reads :: nat
  draws :: nat
  ranges :: nat
  obs :: 'h
  store :: 's

definition now :: "('s, 'h) world \<Rightarrow> time" where
  "now w = clock (rt w) (reads w)"

definition timeNow :: "('s, 'h) world \<Rightarrow> time \<times> ('s, 'h) world" where
  "timeNow w = (now w, w\<lparr>reads := Suc (reads w)\<rparr>)"

definition randFloat64 :: "('s, 'h) world \<Rightarrow> rat \<times> ('s, 'h) world" where
  "randFloat64 w = (randf (rt w) (draws w), w\<lparr>draws := Suc (draws w)\<rparr>)"

definition rangeMap :: "string list \<Rightarrow> ('s, 'h) world \<Rightarrow> string list \<times> ('s, 'h) world" where
  "rangeMap ks w = (mapOrder (rt w) (ranges w) ks, w\<lparr>ranges := Suc (ranges w)\<rparr>)"

text \<open>
  A Go map that is ranged over is an association list with distinct keys; \<open>rangeItems\<close> visits
  its entries in the order the runtime chooses.
\<close>

definition rangeItems :: "(string \<times> 'a) list \<Rightarrow> ('s, 'h) world \<Rightarrow> (string \<times> 'a) list \<times> ('s, 'h) world" where
  "rangeItems items w = (case rangeMap (map fst items) w of (ks, w') \<Rightarrow>
     (List.map_filter (\<lambda>k. map_option (Pair k) (map_of items k)) ks, w'))"

definition durToFloat :: "duration \<Rightarrow> rat" where
  "durToFloat d = fl (of_int (sint d))"

definition durOfFloat :: "runtime \<Rightarrow> rat \<Rightarrow> duration" where
  "durOfFloat r x = (let i = ftrunc x in
     if - (2 ^ 63) \<le> i \<and> i < 2 ^ 63 then word_of_int i else f2iOob r x)"

text \<open>\<open>context.WithTimeout\<close> reads the clock.\<close>

definition withTimeout :: "ctx \<Rightarrow> duration \<Rightarrow> ('s, 'h) world \<Rightarrow> ctx \<times> ('s, 'h) world" where
  "withTimeout c d w = (case timeNow w of (t, w') \<Rightarrow> (withDeadline c (tAdd t d), w'))"

lemma durOfFloat_in_range:
  "- (2 ^ 63) \<le> ftrunc x \<Longrightarrow> ftrunc x < 2 ^ 63 \<Longrightarrow> sint (durOfFloat r x) = ftrunc x"
  unfolding durOfFloat_def Let_def by (simp only: simp_thms if_True sint64_of_int)

section \<open>How the world moves\<close>

text \<open>
  \<open>advances w w'\<close>: the runtime is the same and no oracle is rewound. Every operation of the
  program advances the world.
\<close>

definition advances :: "('s, 'h) world \<Rightarrow> ('s, 'h) world \<Rightarrow> bool" where
  "advances w w' \<longleftrightarrow> rt w' = rt w \<and> reads w \<le> reads w' \<and> draws w \<le> draws w' \<and> ranges w \<le> ranges w'"

lemma advances_refl [simp]: "advances w w"
  by (simp add: advances_def)

lemma advances_trans [trans]: "advances w w1 \<Longrightarrow> advances w1 w2 \<Longrightarrow> advances w w2"
  by (auto simp: advances_def)

lemma advances_rt: "advances w w' \<Longrightarrow> rt w' = rt w"
  by (simp add: advances_def)

lemma advances_obs [simp]: "advances w (w'\<lparr>obs := h\<rparr>) = advances w w'"
  by (simp add: advances_def)

lemma advances_store [simp]: "advances w (w'\<lparr>store := s\<rparr>) = advances w w'"
  by (simp add: advances_def)

lemma advances_reads_Suc [simp]: "advances w (w\<lparr>reads := Suc (reads w)\<rparr>)"
  by (simp add: advances_def)

lemma now_mono: "wfRuntime (rt w) \<Longrightarrow> advances w w' \<Longrightarrow> now w \<le> now w'"
  by (auto simp: now_def advances_def wfRuntime_def intro: monoD)

lemma now_update [simp]:
  "now (w\<lparr>obs := h\<rparr>) = now w" "now (w\<lparr>store := s\<rparr>) = now w" "now (w\<lparr>draws := n\<rparr>) = now w"
  by (simp_all add: now_def)

lemma timeNow_frame [world_frame]:
  "timeNow w = (t, w') \<Longrightarrow> t = now w \<and> advances w w' \<and> store w' = store w \<and> obs w' = obs w"
  by (auto simp: timeNow_def advances_def)

lemma randFloat64_frame [world_frame]:
  "randFloat64 w = (x, w') \<Longrightarrow> advances w w' \<and> store w' = store w \<and> obs w' = obs w \<and> reads w' = reads w"
  by (auto simp: randFloat64_def advances_def)

lemma rangeItems_frame [world_frame]:
  "rangeItems items w = (xs, w') \<Longrightarrow>
     advances w w' \<and> store w' = store w \<and> obs w' = obs w \<and> reads w' = reads w"
  by (auto simp: rangeItems_def rangeMap_def advances_def)

lemma map_filter_map_of_keys:
  "distinct (map fst items) \<Longrightarrow>
   List.map_filter (\<lambda>k. map_option (Pair k) (map_of items k)) (map fst items) = items"
proof -
  assume d: "distinct (map fst items)"
  have "set ys \<subseteq> set items \<Longrightarrow>
    List.map_filter (\<lambda>k. map_option (Pair k) (map_of items k)) (map fst ys) = ys" for ys
    using d by (induction ys) (auto simp: List.map_filter_def)
  then show ?thesis by simp
qed

lemma mset_map_filter_cong:
  "mset xs = mset ys \<Longrightarrow> mset (List.map_filter f xs) = mset (List.map_filter f ys)"
  by (metis List.map_filter_def mset_filter mset_map)

text \<open>Every entry is visited exactly once.\<close>

lemma mset_rangeItems:
  assumes "wfRuntime (rt w)" "distinct (map fst items)" "rangeItems items w = (xs, w')"
  shows "mset xs = mset items"
proof -
  have "mset (mapOrder (rt w) (ranges w) (map fst items)) = mset (map fst items)"
    using assms(1) by (simp add: wfRuntime_def)
  from mset_map_filter_cong [OF this, of "\<lambda>k. map_option (Pair k) (map_of items k)"] assms(2,3)
  show ?thesis
    by (auto simp: rangeItems_def rangeMap_def map_filter_map_of_keys)
qed

lemma withTimeout_frame [world_frame]:
  "withTimeout c d w = (c', w') \<Longrightarrow> advances w w' \<and> store w' = store w \<and> obs w' = obs w"
  by (auto simp: withTimeout_def timeNow_def advances_def)

lemma randf_bounds: "wfRuntime r \<Longrightarrow> 0 \<le> randf r n \<and> randf r n < 1"
proof -
  assume "wfRuntime r"
  then have "\<exists>m. 0 \<le> m \<and> m < 2 ^ 53 \<and> randf r n = of_int m / 2 ^ 53"
    unfolding wfRuntime_def by blast
  then obtain m where m: "0 \<le> m" "m < 2 ^ 53" "randf r n = of_int m / 2 ^ 53" by blast
  have "rat_of_int m < of_int (2 ^ 53)" using m(2) by (simp only: of_int_less_iff)
  with m(1,3) show ?thesis by simp
qed

section \<open>A concrete runtime\<close>

text \<open>
  A runtime for the worked instances of the development: the clock advances one microsecond
  at every reading, every draw is \<open>u\<close>, maps are visited in key-list order, and the logarithm is
  its tangent at 1. Float-to-integer overflow gives the least integer, as amd64 does.
\<close>

definition demoRuntime :: "rat \<Rightarrow> runtime" where
  "demoRuntime u = \<lparr>clock = (\<lambda>n. 1700000000000000000 + 1000 * int n), randf = (\<lambda>_. u),
     mapOrder = (\<lambda>_ ks. ks), mathLog = (\<lambda>x. x - 1), f2iOob = (\<lambda>_. 0x8000000000000000)\<rparr>"

lemma demoRuntime_fields [simp]:
  "clock (demoRuntime u) n = 1700000000000000000 + 1000 * int n" "randf (demoRuntime u) n = u"
  "mapOrder (demoRuntime u) n ks = ks" "mathLog (demoRuntime u) x = x - 1"
  by (simp_all add: demoRuntime_def)

lemma wfRuntime_demo:
  "0 \<le> m \<Longrightarrow> m < 2 ^ 53 \<Longrightarrow> wfRuntime (demoRuntime (of_int m / 2 ^ 53))"
  unfolding wfRuntime_def demoRuntime_def by (auto simp: mono_def)

lemma wfRuntime_demo_half [simp]: "wfRuntime (demoRuntime (1 / 2))"
  using wfRuntime_demo [of "2 ^ 52"] by simp

lemma wfRuntime_demo_zero [simp]: "wfRuntime (demoRuntime 0)"
  using wfRuntime_demo [of 0] by simp

definition demoWorld :: "rat \<Rightarrow> 's \<Rightarrow> 'h \<Rightarrow> ('s, 'h) world" where
  "demoWorld u s h = \<lparr>rt = demoRuntime u, reads = 0, draws = 0, ranges = 0, obs = h, store = s\<rparr>"

lemma rt_demoWorld [simp]: "rt (demoWorld u s h) = demoRuntime u"
  by (simp add: demoWorld_def)

lemma demoWorld_fields [simp]:
  "reads (demoWorld u s h) = 0" "draws (demoWorld u s h) = 0" "ranges (demoWorld u s h) = 0"
  "obs (demoWorld u s h) = h" "store (demoWorld u s h) = s"
  by (simp_all add: demoWorld_def)

end
