(* ===== verification/Envelope.thy ===== *)
theory Envelope
  imports GoRuntime
begin

text \<open>
  negative.go and envelope.go: the two byte formats the helpers store next to bare payloads.
  The negative marker is a fixed byte string. The metadata envelope is
  magic (5 bytes), freshness deadline in Unix milliseconds and loader duration in
  milliseconds (two big-endian 64-bit fields), payload.

  The lemmas show that wrapping and parsing are inverse up to the millisecond resolution of
  the header, that marker, envelope and bare payloads are never confused, and how the
  staleness test and the probabilistic early refresh (XFetch) behave.
\<close>

section \<open>negative.go\<close>

definition ErrNotFound :: gerror where
  "ErrNotFound = New 1 ''cachekit: not found''"

definition negativeMarker :: bytes where
  "negativeMarker = 0 # map of_char ''cachekit:negative'' @ [0]"

definition isNegativeEntry :: "bytes \<Rightarrow> bool" where
  "isNegativeEntry data \<longleftrightarrow> data = negativeMarker"

lemma length_negativeMarker [simp]: "length negativeMarker = 19"
  by (simp add: negativeMarker_def)

lemma isNegativeEntry_marker [simp]: "isNegativeEntry negativeMarker"
  by (simp add: isNegativeEntry_def)

section \<open>Big-endian 64-bit fields\<close>

text \<open>\<open>binary.BigEndian.PutUint64\<close> and \<open>Uint64\<close>, on slices of eight bytes.\<close>

definition putUint64 :: "64 word \<Rightarrow> bytes" where
  "putUint64 w = [ucast (drop_bit 56 w), ucast (drop_bit 48 w), ucast (drop_bit 40 w),
     ucast (drop_bit 32 w), ucast (drop_bit 24 w), ucast (drop_bit 16 w),
     ucast (drop_bit 8 w), ucast w]"

definition getUint64 :: "bytes \<Rightarrow> 64 word" where
  "getUint64 b = or (push_bit 56 (ucast (b ! 0))) (or (push_bit 48 (ucast (b ! 1)))
     (or (push_bit 40 (ucast (b ! 2))) (or (push_bit 32 (ucast (b ! 3)))
     (or (push_bit 24 (ucast (b ! 4))) (or (push_bit 16 (ucast (b ! 5)))
     (or (push_bit 8 (ucast (b ! 6))) (ucast (b ! 7))))))))"

lemma length_putUint64 [simp]: "length (putUint64 w) = 8"
  by (simp add: putUint64_def)

lemma or_byte_take_bit:
  "or (push_bit k (take_bit 8 (drop_bit k w))) (take_bit k w) = take_bit (k + 8) (w :: 64 word)"
  by (rule bit_word_eqI) (auto simp: bit_simps)

lemma ucast_byte: "(ucast (ucast w :: byte) :: 64 word) = take_bit 8 w"
  by (rule bit_word_eqI) (auto simp: bit_simps)

lemma getUint64_put [simp]: "getUint64 (putUint64 w) = w"
proof -
  have step: "or (push_bit k (take_bit 8 (drop_bit k w))) (take_bit k w) = take_bit (k + 8) w" for k
    by (rule or_byte_take_bit)
  have full: "take_bit 64 w = w" by (rule bit_word_eqI) (auto simp: bit_simps)
  show ?thesis
    using step [of 8] step [of 16] step [of 24] step [of 32] step [of 40] step [of 48] step [of 56]
    by (simp add: getUint64_def putUint64_def ucast_byte full nth_Cons')
qed

section \<open>envelope.go: the format\<close>

definition envelopeMagic :: bytes where
  "envelopeMagic = 0 # map of_char ''cke1''"

definition envelopeHeaderLen :: nat where
  "envelopeHeaderLen = 5 + 8 + 8"

record envelope =
  freshUntil :: time
  delta :: duration

definition emptyEnvelope :: envelope where
  "emptyEnvelope = \<lparr>freshUntil = zeroTime, delta = 0\<rparr>"

definition wrapEnvelope :: "bytes \<Rightarrow> time \<Rightarrow> duration \<Rightarrow> bytes" where
  "wrapEnvelope payload fresh d =
     (let fu = (if \<not> isZero fresh then unixMilli fresh else 0)
      in envelopeMagic @ putUint64 fu @ putUint64 (milliseconds d) @ payload)"

definition hasEnvelope :: "bytes \<Rightarrow> bool" where
  "hasEnvelope data \<longleftrightarrow> envelopeHeaderLen \<le> length data \<and> hasPrefix data envelopeMagic"

definition parseEnvelope :: "bytes \<Rightarrow> envelope \<times> bytes" where
  "parseEnvelope data =
     (if length data < envelopeHeaderLen \<or> \<not> hasPrefix data envelopeMagic
      then (emptyEnvelope, data)
      else let fu = getUint64 (take 8 (drop 5 data));
               ms = getUint64 (take 8 (drop 13 data))
           in (\<lparr>freshUntil = (if fu \<noteq> 0 then ofUnixMilli fu else zeroTime),
                delta = ms * millisecond\<rparr>, drop envelopeHeaderLen data))"

definition stale :: "envelope \<Rightarrow> time \<Rightarrow> bool" where
  "stale e t \<longleftrightarrow> \<not> isZero (freshUntil e) \<and> freshUntil e < t"

text \<open>
  XFetch: one random draw, unless the feature is off or the entry has no freshness deadline.
\<close>

definition xfetchRaw :: "runtime \<Rightarrow> duration \<Rightarrow> rat \<Rightarrow> rat \<Rightarrow> rat" where
  "xfetchRaw r d beta u = fl (fl (durToFloat d * beta) * (- mathLog r (fl (1 - u))))"

definition effectiveDelta :: "envelope \<Rightarrow> duration" where
  "effectiveDelta e = (if sint (delta e) \<le> 0 then millisecond else delta e)"

definition shouldEarlyRefresh :: "envelope \<Rightarrow> time \<Rightarrow> rat \<Rightarrow> ('s, 'h) world \<Rightarrow> bool \<times> ('s, 'h) world" where
  "shouldEarlyRefresh e t beta w =
     (if beta \<le> 0 \<or> isZero (freshUntil e) then (False, w)
      else let d = effectiveDelta e
           in case randFloat64 w of (u, w') \<Rightarrow>
              (let spread = durOfFloat (rt w) (xfetchRaw (rt w) d beta u)
               in (freshUntil e < tAdd t spread, w')))"

lemma shouldEarlyRefresh_frame [world_frame]:
  "shouldEarlyRefresh e t beta w = (b, w') \<Longrightarrow>
     advances w w' \<and> store w' = store w \<and> obs w' = obs w \<and> reads w' = reads w"
  by (auto simp: shouldEarlyRefresh_def Let_def randFloat64_def advances_def split: if_splits prod.splits)

section \<open>Wrapping and parsing\<close>

lemma length_envelopeMagic [simp]: "length envelopeMagic = 5"
  by (simp add: envelopeMagic_def)

lemma length_wrapEnvelope: "length (wrapEnvelope p t d) = envelopeHeaderLen + length p"
  by (simp add: wrapEnvelope_def envelopeHeaderLen_def Let_def)

lemma hasEnvelope_wrap [simp]: "hasEnvelope (wrapEnvelope p t d)"
  by (simp add: hasEnvelope_def wrapEnvelope_def envelopeHeaderLen_def Let_def)

lemma parseEnvelope_bare: "\<not> hasEnvelope data \<Longrightarrow> parseEnvelope data = (emptyEnvelope, data)"
  by (auto simp: parseEnvelope_def hasEnvelope_def not_le)

lemma parseEnvelope_wrap_raw:
  "parseEnvelope (wrapEnvelope p t d) =
     (\<lparr>freshUntil = (if isZero t \<or> unixMilli t = 0 then zeroTime else ofUnixMilli (unixMilli t)),
       delta = milliseconds d * millisecond\<rparr>, p)"
proof -
  have h: "hasEnvelope (wrapEnvelope p t d)" by simp
  have parts: "take 8 (drop 5 (envelopeMagic @ putUint64 a @ putUint64 b @ p)) = putUint64 a"
    "take 8 (drop 13 (envelopeMagic @ putUint64 a @ putUint64 b @ p)) = putUint64 b"
    "drop envelopeHeaderLen (envelopeMagic @ putUint64 a @ putUint64 b @ p) = p" for a b
    by (simp_all add: envelopeHeaderLen_def)
  from h show ?thesis
    unfolding parseEnvelope_def hasEnvelope_def not_le [symmetric]
    by (simp only: wrapEnvelope_def Let_def parts getUint64_put) auto
qed

text \<open>The payload always comes back, whatever the metadata.\<close>

lemma parseEnvelope_wrap_payload [simp]: "snd (parseEnvelope (wrapEnvelope p t d)) = p"
  by (simp add: parseEnvelope_wrap_raw)

definition msRange :: "time \<Rightarrow> bool" where
  "msRange t \<longleftrightarrow> - (2 ^ 63) \<le> t div nsPerMilli \<and> t div nsPerMilli < 2 ^ 63 \<and> t div nsPerMilli \<noteq> 0"

lemma sint_unixMilli: "msRange t \<Longrightarrow> sint (unixMilli t) = t div nsPerMilli"
  unfolding msRange_def unixMilli_def by (rule sint64_of_int) simp_all

lemma unixMilli_nonzero: "msRange t \<Longrightarrow> unixMilli t \<noteq> 0"
  using sint_unixMilli [of t] by (auto simp: msRange_def)

lemma ofUnixMilli_unixMilli:
  "msRange t \<Longrightarrow> ofUnixMilli (unixMilli t) = t div nsPerMilli * nsPerMilli"
  by (simp add: ofUnixMilli_def sint_unixMilli)

lemma sdiv_nonneg: "0 \<le> (a::int) \<Longrightarrow> a sdiv nsPerMilli = a div nsPerMilli"
  by (simp add: signed_divide_int_def sgn_if)

lemma sint_delta_ms:
  assumes "0 \<le> sint d"
  shows "sint (milliseconds d * millisecond) = sint d div nsPerMilli * nsPerMilli"
proof -
  have "milliseconds d * millisecond = word_of_int (sint d div nsPerMilli * nsPerMilli)"
    using assms by (simp add: milliseconds_def millisecond_def sdiv_nonneg)
  moreover have "0 \<le> sint d div nsPerMilli * nsPerMilli" "sint d div nsPerMilli * nsPerMilli \<le> sint d"
    using assms by (simp_all add: pos_imp_zdiv_nonneg_iff div_times_less_eq_dividend)
  ultimately show ?thesis
    using sint64_bounds [of d] sint64_of_int [of "sint d div nsPerMilli * nsPerMilli"] by simp
qed

section \<open>Probabilistic early refresh\<close>

lemma effectiveDelta_pos: "0 < sint (effectiveDelta e)"
  by (simp add: effectiveDelta_def)

lemma durToFloat_nonneg: "0 \<le> sint d \<Longrightarrow> 0 \<le> durToFloat d"
  unfolding durToFloat_def by (intro f64.rnd_nonneg) (simp only: of_int_0_le_iff)

lemma fl_one_minus_draw: "wfRuntime r \<Longrightarrow> fl (1 - randf r n) = 1 - randf r n"
proof -
  assume "wfRuntime r"
  then have "\<exists>m. 0 \<le> m \<and> m < 2 ^ 53 \<and> randf r n = of_int m / 2 ^ 53"
    unfolding wfRuntime_def by blast
  then obtain m where m: "0 \<le> m" "m < 2 ^ 53" "randf r n = of_int m / 2 ^ 53" by blast
  then have eq: "1 - randf r n = of_int (2 ^ 53 - m) * 2 powi (- 53)"
    by (simp add: power_int_minus field_simps)
  from m have "\<bar>2 ^ 53 - m\<bar> \<le> 2 ^ 53" by simp
  then show ?thesis unfolding eq by (rule f64.rnd_exact)
qed

lemma neg_log_draw_nonneg: "wfRuntime r \<Longrightarrow> 0 \<le> - mathLog r (fl (1 - randf r n))"
  using randf_bounds [of r n] fl_one_minus_draw [of r n] by (auto simp: wfRuntime_def)

lemma xfetchRaw_nonneg:
  "wfRuntime r \<Longrightarrow> 0 \<le> sint d \<Longrightarrow> 0 \<le> beta \<Longrightarrow> 0 \<le> xfetchRaw r d beta (randf r n)"
  unfolding xfetchRaw_def
  by (intro f64.rnd_nonneg mult_nonneg_nonneg durToFloat_nonneg neg_log_draw_nonneg)

lemma xfetchRaw_mono:
  assumes "wfRuntime r" "0 \<le> sint d" "beta \<le> beta'"
  shows "xfetchRaw r d beta (randf r n) \<le> xfetchRaw r d beta' (randf r n)"
  unfolding xfetchRaw_def
  using assms durToFloat_nonneg [of d] neg_log_draw_nonneg [of r n]
  by (intro fl_mono mult_right_mono mult_left_mono)

lemma sint_durOfFloat_nonneg_range:
  "0 \<le> x \<Longrightarrow> x < 2 ^ 63 \<Longrightarrow> sint (durOfFloat r x) = ftrunc x"
proof -
  assume x: "0 \<le> x" "x < 2 ^ 63"
  then have "x < of_int (2 ^ 63)" by simp
  with x(1) have "0 \<le> ftrunc x" "ftrunc x < 2 ^ 63"
    by (simp_all add: ftrunc_def floor_less_iff)
  then show ?thesis by (intro durOfFloat_in_range) simp_all
qed

lemma spread_nonneg:
  "wfRuntime r \<Longrightarrow> 0 \<le> beta \<Longrightarrow> xfetchRaw r (effectiveDelta e) beta (randf r n) < 2 ^ 63 \<Longrightarrow>
   0 \<le> sint (durOfFloat r (xfetchRaw r (effectiveDelta e) beta (randf r n)))"
  by (simp add: sint_durOfFloat_nonneg_range xfetchRaw_nonneg less_imp_le [OF effectiveDelta_pos]
      ftrunc_nonneg)

lemma spread_mono:
  assumes "wfRuntime r" "0 \<le> beta" "beta \<le> beta'"
    and "xfetchRaw r (effectiveDelta e) beta' (randf r n) < 2 ^ 63"
  shows "sint (durOfFloat r (xfetchRaw r (effectiveDelta e) beta (randf r n)))
       \<le> sint (durOfFloat r (xfetchRaw r (effectiveDelta e) beta' (randf r n)))"
proof -
  have d: "0 \<le> sint (effectiveDelta e)" using effectiveDelta_pos [of e] by simp
  have le: "xfetchRaw r (effectiveDelta e) beta (randf r n) \<le> xfetchRaw r (effectiveDelta e) beta' (randf r n)"
    using assms(1) d assms(3) by (rule xfetchRaw_mono)
  from assms d have "0 \<le> xfetchRaw r (effectiveDelta e) beta (randf r n)"
    by (intro xfetchRaw_nonneg)
  with le assms(4) show ?thesis by (simp add: sint_durOfFloat_nonneg_range ftrunc_mono)
qed

lemma early_refresh_off:
  "beta \<le> 0 \<or> isZero (freshUntil e) \<Longrightarrow> shouldEarlyRefresh e t beta w = (False, w)"
  by (simp add: shouldEarlyRefresh_def)

lemma marker_envelope_disjoint_core:
  "\<not> isNegativeEntry (wrapEnvelope p t d) \<and> \<not> hasEnvelope negativeMarker
   \<and> parseEnvelope negativeMarker = (emptyEnvelope, negativeMarker)"
proof -
  have "length (wrapEnvelope p t d) \<noteq> length negativeMarker"
    by (simp add: length_wrapEnvelope envelopeHeaderLen_def)
  then have "\<not> isNegativeEntry (wrapEnvelope p t d)" by (auto simp: isNegativeEntry_def)
  moreover have h: "\<not> hasEnvelope negativeMarker"
    by (simp add: hasEnvelope_def envelopeHeaderLen_def)
  ultimately show ?thesis by (simp add: parseEnvelope_bare)
qed

text \<open>How far the header's resolution moves the end of the freshness window.\<close>

lemma wrapped_stale_bounds:
  assumes "msRange t" "0 < t"
  shows "(t < u \<longrightarrow> stale (fst (parseEnvelope (wrapEnvelope p t d))) u)
       \<and> (stale (fst (parseEnvelope (wrapEnvelope p t d))) u \<longrightarrow> t < u + nsPerMilli)"
proof -
  have f: "freshUntil (fst (parseEnvelope (wrapEnvelope p t d))) = t div nsPerMilli * nsPerMilli"
    using assms by (auto simp: parseEnvelope_wrap_raw unixMilli_nonzero ofUnixMilli_unixMilli
        isZero_def zeroTime_def)
  have b: "t div nsPerMilli * nsPerMilli \<le> t" "t < t div nsPerMilli * nsPerMilli + nsPerMilli"
    "0 \<le> t div nsPerMilli * nsPerMilli"
    using assms(2) by (simp_all add: div_times_less_eq_dividend pos_imp_zdiv_nonneg_iff)
  then show ?thesis by (simp add: stale_def f isZero_def zeroTime_def)
qed

section \<open>Properties\<close>

text \<open>
  (C32) Parsing a wrapped payload gives the payload back, with the freshness deadline and the
  loader duration cut down to whole milliseconds, never rounded up.
\<close>

theorem envelope_roundtrip:
  assumes "msRange t" "0 \<le> sint d"
  shows "parseEnvelope (wrapEnvelope p t d) =
      (\<lparr>freshUntil = t div nsPerMilli * nsPerMilli,
        delta = word_of_int (sint d div nsPerMilli * nsPerMilli)\<rparr>, p)"
proof -
  have "milliseconds d * millisecond = word_of_int (sint d div nsPerMilli * nsPerMilli)"
    using assms(2) by (simp add: milliseconds_def millisecond_def sdiv_nonneg)
  moreover have "zeroTime div nsPerMilli * nsPerMilli = zeroTime" by (simp add: zeroTime_def)
  ultimately show ?thesis
    using assms by (auto simp: parseEnvelope_wrap_raw unixMilli_nonzero ofUnixMilli_unixMilli isZero_def)
qed

theorem envelope_roundtrip_witness:
  "parseEnvelope (wrapEnvelope [7, 0, 9] 1700000000123456789 250999999) =
     (\<lparr>freshUntil = 1700000000123000000, delta = 250000000\<rparr>, [7, 0, 9])"
proof -
  have "msRange 1700000000123456789" by (simp add: msRange_def)
  moreover have "0 \<le> sint (250999999 :: duration)" by simp
  ultimately show ?thesis
    using envelope_roundtrip [of 1700000000123456789 250999999 "[7, 0, 9]"] by simp
qed

text \<open>
  (C33) The header's millisecond resolution never keeps an entry fresh past its deadline, and
  cuts the freshness window short by less than one millisecond.
\<close>

theorem wrapped_entry_staleness:
  assumes "msRange t" "0 < t"
  shows "(t < u \<longrightarrow> stale (fst (parseEnvelope (wrapEnvelope p t d))) u)
       \<and> (stale (fst (parseEnvelope (wrapEnvelope p t d))) u \<longrightarrow> t < u + nsPerMilli)"
  using wrapped_stale_bounds [OF assms] .

theorem wrapped_entry_staleness_witness:
  "stale (fst (parseEnvelope (wrapEnvelope [1] 1700000000123456789 5))) 1700000000123456790"
proof -
  have "msRange 1700000000123456789" by (simp add: msRange_def)
  then show ?thesis
    using wrapped_entry_staleness [of 1700000000123456789 1700000000123456790 "[1]" 5] by simp
qed

text \<open>
  The negative marker and an envelope are never confused: no wrapped entry is the marker,
  and the marker parses as a bare payload without metadata.
\<close>

theorem marker_envelope_disjoint:
  "\<not> isNegativeEntry (wrapEnvelope p t d) \<and> \<not> hasEnvelope negativeMarker
   \<and> parseEnvelope negativeMarker = (emptyEnvelope, negativeMarker)"
  by (rule marker_envelope_disjoint_core)

text \<open>
  A value whose first byte is not NUL (every JSON text, and every entry of an older
  deploy) is neither a negative entry nor an envelope: it is read as a bare payload with no
  metadata and is fresh until the backend drops it.
\<close>

theorem non_nul_bytes_are_bare:
  assumes "data = [] \<or> hd data \<noteq> 0"
  shows "\<not> isNegativeEntry data \<and> parseEnvelope data = (emptyEnvelope, data)
       \<and> \<not> stale (fst (parseEnvelope data)) t"
proof -
  have "\<not> hasPrefix data envelopeMagic"
    using assms by (cases data) (auto simp: hasPrefix_def envelopeMagic_def)
  then have "parseEnvelope data = (emptyEnvelope, data)" by (simp add: parseEnvelope_def)
  moreover have "\<not> isNegativeEntry data"
    using assms by (auto simp: isNegativeEntry_def negativeMarker_def)
  ultimately show ?thesis by (simp add: stale_def isZero_def emptyEnvelope_def)
qed

theorem non_nul_bytes_are_bare_witness:
  "\<not> isNegativeEntry [123, 125] \<and> parseEnvelope [123, 125] = (emptyEnvelope, [123, 125])"
  using non_nul_bytes_are_bare [of "[123, 125]" 0] by simp

text \<open>
  When early refresh is on, an entry past its deadline is always refreshed, and an entry refreshed under some beta at some instant is refreshed, on the same draw, under
  every larger beta and at every later instant (the spread staying below \<open>2^63\<close> ns).
\<close>

theorem early_refresh_monotone:
  assumes "wfRuntime (rt w)"
    and "xfetchRaw (rt w) (effectiveDelta e) beta' (randf (rt w) (draws w)) < 2 ^ 63"
    and "0 < beta" "beta \<le> beta'" "t \<le> t'"
  shows "(stale e t \<longrightarrow> fst (shouldEarlyRefresh e t beta' w))
       \<and> (fst (shouldEarlyRefresh e t beta w) \<longrightarrow> fst (shouldEarlyRefresh e t' beta' w))"
proof -
  let ?s = "\<lambda>b. sint (durOfFloat (rt w) (xfetchRaw (rt w) (effectiveDelta e) b (randf (rt w) (draws w))))"
  have eq: "fst (shouldEarlyRefresh e u b w) \<longleftrightarrow> \<not> isZero (freshUntil e) \<and> freshUntil e < u + ?s b"
    if "0 < b" for u b
    using that by (auto simp: shouldEarlyRefresh_def randFloat64_def Let_def tAdd_def)
  have "0 \<le> ?s beta'" using assms by (intro spread_nonneg) auto
  moreover have "?s beta \<le> ?s beta'" using assms by (intro spread_mono) auto
  ultimately show ?thesis using assms by (auto simp: eq stale_def)
qed

theorem early_refresh_monotone_witness:
  "fst (shouldEarlyRefresh \<lparr>freshUntil = 1700000000002500000, delta = 3000000\<rparr>
     1700000000000000005 4 (demoWorld (1 / 2) () ()))"
proof -
  let ?e = "\<lparr>freshUntil = 1700000000002500000, delta = 3000000\<rparr>"
  have "xfetchRaw (demoRuntime (1 / 2)) (effectiveDelta ?e) 4 (1 / 2) < 2 ^ 63" by code_simp
  moreover have "fst (shouldEarlyRefresh ?e 1700000000000000000 2 (demoWorld (1 / 2) () ()))"
    by code_simp
  ultimately show ?thesis
    using early_refresh_monotone
      [of "demoWorld (1 / 2) () ()" ?e 4 2 1700000000000000000 1700000000000000005]
    by simp
qed

end
