(* ===== verification/Config.thy ===== *)
theory Config
  imports Envelope
begin

text \<open>
  codec.go, hooks.go and options.go: the codec interface, the event hooks, the configuration
  the cache-aside helpers read off a cache, the functional options, TTL jitter and the
  per-operation context.

  Hook callbacks are user code; they are functions on an observer state \<open>'h\<close>, kept in the
  world, and a callback that is not registered (nil) leaves the world alone.
\<close>

section \<open>codec.go\<close>

text \<open>
  A codec for the value type \<open>'v\<close>. \<open>Unmarshal\<close> decodes into a zero value, so its result is a
  function of the bytes. \<open>encoding/json\<close> works by reflection on Go types and is a parameter.
\<close>

record 'v Codec =
  Marshal :: "'v \<Rightarrow> gerror + bytes"
  Unmarshal :: "bytes \<Rightarrow> gerror + 'v"

definition JSONCodec :: "('v \<Rightarrow> gerror + bytes) \<Rightarrow> (bytes \<Rightarrow> gerror + 'v) \<Rightarrow> 'v Codec" where
  "JSONCodec jsonMarshal jsonUnmarshal = \<lparr>Marshal = jsonMarshal, Unmarshal = jsonUnmarshal\<rparr>"

section \<open>hooks.go: events\<close>

datatype Op = OpGet | OpSet | OpDelete | OpDecode | OpEncode | OpRefresh

record 'h Hooks =
  OnHit :: "(key \<Rightarrow> 'h \<Rightarrow> 'h) option"
  OnMiss :: "(key \<Rightarrow> 'h \<Rightarrow> 'h) option"
  OnError :: "(Op \<Rightarrow> key \<Rightarrow> gerror \<Rightarrow> 'h \<Rightarrow> 'h) option"
  OnLoad :: "(key \<Rightarrow> duration \<Rightarrow> gerror option \<Rightarrow> 'h \<Rightarrow> 'h) option"

definition noHooks :: "'h Hooks" where
  "noHooks = \<lparr>OnHit = None, OnMiss = None, OnError = None, OnLoad = None\<rparr>"

definition hookHit :: "'h Hooks \<Rightarrow> key \<Rightarrow> ('s, 'h) world \<Rightarrow> ('s, 'h) world" where
  "hookHit h k w = (case OnHit h of None \<Rightarrow> w | Some f \<Rightarrow> w\<lparr>obs := f k (obs w)\<rparr>)"

definition hookMiss :: "'h Hooks \<Rightarrow> key \<Rightarrow> ('s, 'h) world \<Rightarrow> ('s, 'h) world" where
  "hookMiss h k w = (case OnMiss h of None \<Rightarrow> w | Some f \<Rightarrow> w\<lparr>obs := f k (obs w)\<rparr>)"

definition hookError :: "'h Hooks \<Rightarrow> Op \<Rightarrow> key \<Rightarrow> gerror \<Rightarrow> ('s, 'h) world \<Rightarrow> ('s, 'h) world" where
  "hookError h op k e w = (case OnError h of None \<Rightarrow> w | Some f \<Rightarrow> w\<lparr>obs := f op k e (obs w)\<rparr>)"

definition hookLoad :: "'h Hooks \<Rightarrow> key \<Rightarrow> duration \<Rightarrow> gerror option \<Rightarrow> ('s, 'h) world \<Rightarrow> ('s, 'h) world" where
  "hookLoad h k d e w = (case OnLoad h of None \<Rightarrow> w | Some f \<Rightarrow> w\<lparr>obs := f k d e (obs w)\<rparr>)"

lemmas hooks_defs [hook_defs] = hookHit_def hookMiss_def hookError_def hookLoad_def

text \<open>What a callback makes of the observers' state.\<close>

definition obsHit :: "'h Hooks \<Rightarrow> key \<Rightarrow> 'h \<Rightarrow> 'h" where
  "obsHit h k x = (case OnHit h of None \<Rightarrow> x | Some f \<Rightarrow> f k x)"

definition obsMiss :: "'h Hooks \<Rightarrow> key \<Rightarrow> 'h \<Rightarrow> 'h" where
  "obsMiss h k x = (case OnMiss h of None \<Rightarrow> x | Some f \<Rightarrow> f k x)"

definition obsError :: "'h Hooks \<Rightarrow> Op \<Rightarrow> key \<Rightarrow> gerror \<Rightarrow> 'h \<Rightarrow> 'h" where
  "obsError h op k e x = (case OnError h of None \<Rightarrow> x | Some f \<Rightarrow> f op k e x)"

definition obsLoad :: "'h Hooks \<Rightarrow> key \<Rightarrow> duration \<Rightarrow> gerror option \<Rightarrow> 'h \<Rightarrow> 'h" where
  "obsLoad h k d e x = (case OnLoad h of None \<Rightarrow> x | Some f \<Rightarrow> f k d e x)"

lemma obs_hooks:
  "obs (hookHit h k w) = obsHit h k (obs w)" "obs (hookMiss h k w) = obsMiss h k (obs w)"
  "obs (hookError h op k e w) = obsError h op k e (obs w)" "obs (hookLoad h k d r w) = obsLoad h k d r (obs w)"
  by (simp_all add: hook_defs obsHit_def obsMiss_def obsError_def obsLoad_def split: option.splits)

text \<open>Hooks change nothing but the observer state.\<close>

lemma hook_store [simp]:
  "store (hookHit h k w) = store w" "store (hookMiss h k w) = store w"
  "store (hookError h op k e w) = store w" "store (hookLoad h k d r w) = store w"
  by (simp_all add: hook_defs split: option.splits)

lemma hook_runtime [simp]:
  "rt (hookHit h k w) = rt w" "rt (hookMiss h k w) = rt w"
  "rt (hookError h op k e w) = rt w" "rt (hookLoad h k d r w) = rt w"
  by (simp_all add: hook_defs split: option.splits)

lemma hook_reads [simp]:
  "reads (hookHit h k w) = reads w" "reads (hookMiss h k w) = reads w"
  "reads (hookError h op k e w) = reads w" "reads (hookLoad h k d r w) = reads w"
  by (simp_all add: hook_defs split: option.splits)

lemma hook_draws [simp]:
  "draws (hookHit h k w) = draws w" "draws (hookMiss h k w) = draws w"
  "draws (hookError h op k e w) = draws w" "draws (hookLoad h k d r w) = draws w"
  by (simp_all add: hook_defs split: option.splits)

lemma hook_ranges [simp]:
  "ranges (hookHit h k w) = ranges w" "ranges (hookMiss h k w) = ranges w"
  "ranges (hookError h op k e w) = ranges w" "ranges (hookLoad h k d r w) = ranges w"
  by (simp_all add: hook_defs split: option.splits)

lemma hook_now [simp]:
  "now (hookHit h k w) = now w" "now (hookMiss h k w) = now w"
  "now (hookError h op k e w) = now w" "now (hookLoad h k d r w) = now w"
  by (simp_all add: now_def)

lemma hook_advances [simp]:
  "advances w (hookHit h k w') = advances w w'" "advances w (hookMiss h k w') = advances w w'"
  "advances w (hookError h op k e w') = advances w w'"
  "advances w (hookLoad h k d r w') = advances w w'"
  by (simp_all add: advances_def)

lemma hook_advances_from [simp]:
  "advances (hookHit h k w) w' = advances w w'" "advances (hookMiss h k w) w' = advances w w'"
  "advances (hookError h op k e w) w' = advances w w'"
  "advances (hookLoad h k d r w) w' = advances w w'"
  by (simp_all add: advances_def)

lemma noHooks_id [simp]:
  "hookHit noHooks k w = w" "hookMiss noHooks k w = w"
  "hookError noHooks op k e w = w" "hookLoad noHooks k d r w = w"
  by (simp_all add: hook_defs noHooks_def)

section \<open>hooks.go: the per-cache configuration\<close>

record 'h cacheConfig =
  hooks :: "'h Hooks"
  negativeTTL :: duration
  defaultTTL :: duration
  staleTTL :: duration
  earlyRefreshBeta :: rat
  ttlJitter :: rat

definition zeroConfig :: "'h cacheConfig" where
  "zeroConfig = \<lparr>hooks = noHooks, negativeTTL = 0, defaultTTL = 0, staleTTL = 0,
     earlyRefreshBeta = 0, ttlJitter = 0\<rparr>"

definition envelopeEnabled :: "'h cacheConfig \<Rightarrow> bool" where
  "envelopeEnabled c \<longleftrightarrow> pos64 (staleTTL c) \<or> 0 < earlyRefreshBeta c"

definition parseStored :: "'h cacheConfig \<Rightarrow> bytes \<Rightarrow> envelope \<times> bytes" where
  "parseStored c data = (if \<not> envelopeEnabled c then (emptyEnvelope, data) else parseEnvelope data)"

lemma envelopeEnabled_zeroConfig [simp]: "\<not> envelopeEnabled zeroConfig"
  by (simp add: envelopeEnabled_def zeroConfig_def)

section \<open>options.go\<close>

record ('c, 'h) Options =
  Addr :: string
  Username :: string
  Password :: string
  DB :: int
  Prefix :: string
  DefaultTTL :: duration
  CodecOpt :: "'c Codec option"
  ClientSideCacheTTL :: duration
  HooksOpt :: "'h Hooks"
  TTLJitter :: rat
  NegativeTTL :: duration
  OpTimeout :: duration
  StaleTTL :: duration
  EarlyRefreshBeta :: rat

type_synonym ('c, 'h) Option = "('c, 'h) Options \<Rightarrow> ('c, 'h) Options"

definition WithAddr :: "string \<Rightarrow> ('c, 'h) Option" where
  "WithAddr a o' = o'\<lparr>Addr := a\<rparr>"
definition WithAuth :: "string \<Rightarrow> string \<Rightarrow> ('c, 'h) Option" where
  "WithAuth u p o' = o'\<lparr>Username := u, Password := p\<rparr>"
definition WithDB :: "int \<Rightarrow> ('c, 'h) Option" where
  "WithDB n o' = o'\<lparr>DB := n\<rparr>"
definition WithPrefix :: "string \<Rightarrow> ('c, 'h) Option" where
  "WithPrefix p o' = o'\<lparr>Prefix := p\<rparr>"
definition WithDefaultTTL :: "duration \<Rightarrow> ('c, 'h) Option" where
  "WithDefaultTTL d o' = o'\<lparr>DefaultTTL := d\<rparr>"
definition WithCodec :: "'c Codec option \<Rightarrow> ('c, 'h) Option" where
  "WithCodec c o' = o'\<lparr>CodecOpt := c\<rparr>"
definition WithClientSideCacheTTL :: "duration \<Rightarrow> ('c, 'h) Option" where
  "WithClientSideCacheTTL d o' = o'\<lparr>ClientSideCacheTTL := d\<rparr>"
definition WithHooks :: "'h Hooks \<Rightarrow> ('c, 'h) Option" where
  "WithHooks h o' = o'\<lparr>HooksOpt := h\<rparr>"
definition WithTTLJitter :: "rat \<Rightarrow> ('c, 'h) Option" where
  "WithTTLJitter f o' = o'\<lparr>TTLJitter := f\<rparr>"
definition WithNegativeTTL :: "duration \<Rightarrow> ('c, 'h) Option" where
  "WithNegativeTTL d o' = o'\<lparr>NegativeTTL := d\<rparr>"
definition WithOpTimeout :: "duration \<Rightarrow> ('c, 'h) Option" where
  "WithOpTimeout d o' = o'\<lparr>OpTimeout := d\<rparr>"
definition WithStaleTTL :: "duration \<Rightarrow> ('c, 'h) Option" where
  "WithStaleTTL d o' = o'\<lparr>StaleTTL := d\<rparr>"
definition WithEarlyRefresh :: "rat \<Rightarrow> ('c, 'h) Option" where
  "WithEarlyRefresh b o' = o'\<lparr>EarlyRefreshBeta := b\<rparr>"

definition initialOptions :: "('c, 'h) Options" where
  "initialOptions = \<lparr>Addr = ''localhost:6379'', Username = [], Password = [], DB = 0, Prefix = [],
     DefaultTTL = 0, CodecOpt = None, ClientSideCacheTTL = 0, HooksOpt = noHooks, TTLJitter = 0,
     NegativeTTL = 0, OpTimeout = 0, StaleTTL = 0, EarlyRefreshBeta = 0\<rparr>"

text \<open>The constant \<open>0.9\<close> is the nearest \<open>float64\<close>.\<close>

definition maxJitter :: rat where
  "maxJitter = fl (9 / 10)"

definition buildOptions :: "'c Codec \<Rightarrow> ('c, 'h) Option list \<Rightarrow> ('c, 'h) Options" where
  "buildOptions defaultCodec opts =
     (let o1 = foldl (\<lambda>x opt. opt x) initialOptions opts;
          o2 = (if CodecOpt o1 = None then o1\<lparr>CodecOpt := Some defaultCodec\<rparr> else o1);
          o3 = (if TTLJitter o2 < 0 then o2\<lparr>TTLJitter := 0\<rparr> else o2);
          o4 = (if maxJitter < TTLJitter o3 then o3\<lparr>TTLJitter := maxJitter\<rparr> else o3);
          o5 = (if EarlyRefreshBeta o4 < 0 then o4\<lparr>EarlyRefreshBeta := 0\<rparr> else o4)
      in o5)"

definition jitterDelta :: "rat \<Rightarrow> rat \<Rightarrow> rat" where
  "jitterDelta u fr = fl (fl (fl (u * 2) - 1) * fr)"

definition jitterRaw :: "duration \<Rightarrow> rat \<Rightarrow> rat \<Rightarrow> rat" where
  "jitterRaw ttl fr u = fl (durToFloat ttl * fl (1 + jitterDelta u fr))"

definition applyJitter :: "duration \<Rightarrow> rat \<Rightarrow> ('s, 'h) world \<Rightarrow> duration \<times> ('s, 'h) world" where
  "applyJitter ttl fr w =
     (if sint ttl \<le> 0 \<or> fr \<le> 0 then (ttl, w)
      else case randFloat64 w of (u, w') \<Rightarrow> (durOfFloat (rt w) (jitterRaw ttl fr u), w'))"

definition opContext :: "ctx \<Rightarrow> duration \<Rightarrow> ('s, 'h) world \<Rightarrow> ctx \<times> ('s, 'h) world" where
  "opContext c d w = (if sint d \<le> 0 then (c, w) else withTimeout c d w)"

lemma applyJitter_frame [world_frame]:
  "applyJitter ttl fr w = (d, w') \<Longrightarrow>
     advances w w' \<and> store w' = store w \<and> obs w' = obs w \<and> reads w' = reads w"
  by (auto simp: applyJitter_def dest: randFloat64_frame split: if_splits prod.splits)

lemma opContext_frame [world_frame]:
  "opContext c d w = (c', w') \<Longrightarrow> advances w w' \<and> store w' = store w \<and> obs w' = obs w"
  by (auto simp: opContext_def dest: withTimeout_frame split: if_splits)

section \<open>A concrete codec and a recording observer\<close>

text \<open>
  For the worked instances: a codec of small numbers that writes a tag byte and the number and
  rejects everything else, and hooks that append every callback to a list.
\<close>

definition demoCodec :: "nat Codec" where
  "demoCodec = \<lparr>
     Marshal = (\<lambda>n. if n < 256 then Inr [123, word_of_int (int n)] else Inl (New 9 ''too large'')),
     Unmarshal = (\<lambda>b. if length b = 2 \<and> b ! 0 = 123 then Inr (nat (uint (b ! 1)))
       else Inl (New 8 ''bad value''))\<rparr>"

datatype event = EHit key | EMiss key | EError Op key gerror | ELoad key duration "gerror option"

definition recorder :: "event list Hooks" where
  "recorder = \<lparr>OnHit = Some (\<lambda>k h. h @ [EHit k]), OnMiss = Some (\<lambda>k h. h @ [EMiss k]),
     OnError = Some (\<lambda>op k e h. h @ [EError op k e]), OnLoad = Some (\<lambda>k d r h. h @ [ELoad k d r])\<rparr>"

lemma obs_recorder [simp]:
  "obsHit recorder k h = h @ [EHit k]" "obsMiss recorder k h = h @ [EMiss k]"
  "obsError recorder op k e h = h @ [EError op k e]" "obsLoad recorder k d r h = h @ [ELoad k d r]"
  by (simp_all add: recorder_def obsHit_def obsMiss_def obsError_def obsLoad_def)

lemma demoCodec_simps [simp]:
  "Marshal demoCodec 7 = Inr [123, 7]" "Unmarshal demoCodec [123, 7] = Inr 7"
  "Marshal demoCodec 8 = Inr [123, 8]" "Unmarshal demoCodec [123, 8] = Inr 8"
  "Unmarshal demoCodec [0] = Inl (New 8 ''bad value'')"
  by (simp_all add: demoCodec_def)

lemma short_not_negative [simp]: "length b \<noteq> 19 \<Longrightarrow> \<not> isNegativeEntry b"
  by (auto simp: isNegativeEntry_def)

lemma demoCodec_roundtrip:
  "Marshal demoCodec v = Inr p \<Longrightarrow> Unmarshal demoCodec p = Inr v \<and> length p = 2"
  by (auto simp: demoCodec_def unat_of_nat split: if_splits)

section \<open>Bounds of the jitter\<close>

context rounding begin

text \<open>The factor by which a TTL is multiplied, for a draw \<open>0 \<le> u < 1\<close>.\<close>

lemma centered_draw_bounds:
  assumes "0 \<le> u" "u < 1"
  shows "-1 \<le> rnd (rnd (u * 2) - 1)" "rnd (rnd (u * 2) - 1) \<le> 1"
proof -
  have "0 \<le> rnd (u * 2)" using assms by (intro rnd_nonneg) simp
  moreover have "rnd (u * 2) \<le> 2" using assms rnd_2 by (intro rnd_le_fixed) auto
  moreover have "rnd (-1) = -1" using rnd_of_int [of "-1"] by simp
  ultimately show "-1 \<le> rnd (rnd (u * 2) - 1)" "rnd (rnd (u * 2) - 1) \<le> 1"
    using rnd_1 by (auto intro!: rnd_le_fixed rnd_ge_fixed)
qed

lemma scaled_draw_bounds:
  assumes "0 \<le> u" "u < 1" "0 \<le> fr" "rnd fr = fr" "rnd (- fr) = - fr"
  shows "- fr \<le> rnd (rnd (rnd (u * 2) - 1) * fr)" "rnd (rnd (rnd (u * 2) - 1) * fr) \<le> fr"
proof -
  let ?c = "rnd (rnd (u * 2) - 1)"
  have "-1 * fr \<le> ?c * fr" "?c * fr \<le> 1 * fr"
    using centered_draw_bounds [OF assms(1,2)] assms(3) by (intro mult_right_mono; simp)+
  with assms(4,5) show "- fr \<le> rnd (?c * fr)" "rnd (?c * fr) \<le> fr"
    by (auto intro!: rnd_le_fixed rnd_ge_fixed)
qed

end

lemma jitterDelta_bounds:
  "0 \<le> u \<Longrightarrow> u < 1 \<Longrightarrow> 0 \<le> fr \<Longrightarrow> fl fr = fr \<Longrightarrow> - fr \<le> jitterDelta u fr \<and> jitterDelta u fr \<le> fr"
  unfolding jitterDelta_def using f64.scaled_draw_bounds [of u fr] by (simp add: fl_minus)

lemma jitterRaw_bounds:
  assumes "0 \<le> u" "u < 1" "0 \<le> fr" "fl fr = fr" "0 \<le> sint ttl"
  shows "fl (durToFloat ttl * fl (1 - fr)) \<le> jitterRaw ttl fr u"
    and "jitterRaw ttl fr u \<le> fl (durToFloat ttl * fl (1 + fr))"
  unfolding jitterRaw_def
  using jitterDelta_bounds [OF assms(1-4)] durToFloat_nonneg [OF assms(5)]
  by (auto intro!: fl_mono mult_left_mono)

lemma maxJitter_value: "maxJitter = 8106479329266893 / 9007199254740992"
  by code_simp

lemma maxJitter_float [simp]: "fl maxJitter = maxJitter"
  by (simp add: maxJitter_def)

lemma fl_one_minus_ge: "0 \<le> fr \<Longrightarrow> fr \<le> maxJitter \<Longrightarrow> 1 / 16 \<le> fl (1 - fr)"
proof -
  assume "fr \<le> maxJitter"
  then have "1 / 16 \<le> 1 - fr" by (simp add: maxJitter_value)
  moreover have "fl (1 / 16) = 1 / 16" by code_simp
  ultimately show ?thesis by (rule f64.rnd_ge_fixed)
qed

lemma fl_one_plus_le: "fr \<le> maxJitter \<Longrightarrow> fl (1 + fr) \<le> 2"
  by (rule f64.rnd_le_fixed) (simp_all add: maxJitter_value f64.rnd_2)

text \<open>Integers up to \<open>2^53\<close>, and powers of two, convert exactly; conversion is monotone.\<close>

lemma durToFloat_mono: "sint a \<le> sint b \<Longrightarrow> durToFloat a \<le> durToFloat b"
  unfolding durToFloat_def by (rule fl_mono) (simp only: of_int_le_iff)

lemma durToFloat_le_pow2: "sint d \<le> 2 ^ n \<Longrightarrow> durToFloat d \<le> 2 ^ n"
proof -
  assume "sint d \<le> 2 ^ n"
  then have "rat_of_int (sint d) \<le> of_int (2 ^ n)" by (simp only: of_int_le_iff)
  then have le: "rat_of_int (sint d) \<le> 2 ^ n" by simp
  moreover have "fl (2 ^ n) = (2 ^ n :: rat)" using f64.rnd_pow2 [of "int n"] by simp
  ultimately show ?thesis unfolding durToFloat_def by (rule f64.rnd_le_fixed)
qed

lemma durToFloat_ge_pow2: "2 ^ n \<le> sint d \<Longrightarrow> 2 ^ n \<le> durToFloat d"
proof -
  assume "2 ^ n \<le> sint d"
  then have "rat_of_int (2 ^ n) \<le> of_int (sint d)" by (simp only: of_int_le_iff)
  then have le: "2 ^ n \<le> rat_of_int (sint d)" by simp
  moreover have "fl (2 ^ n) = (2 ^ n :: rat)" using f64.rnd_pow2 [of "int n"] by simp
  ultimately show ?thesis unfolding durToFloat_def by (rule f64.rnd_ge_fixed)
qed

lemma applyJitter_off [simp]: "sint ttl \<le> 0 \<or> fr \<le> 0 \<Longrightarrow> applyJitter ttl fr w = (ttl, w)"
  by (simp add: applyJitter_def)

lemma applyJitter_on:
  "0 < sint ttl \<Longrightarrow> 0 < fr \<Longrightarrow>
   fst (applyJitter ttl fr w) = durOfFloat (rt w) (jitterRaw ttl fr (randf (rt w) (draws w)))"
  by (simp add: applyJitter_def randFloat64_def)

lemma jitterRaw_range:
  assumes "0 \<le> u" "u < 1" "0 \<le> fr" "fl fr = fr" "fr \<le> maxJitter" "0 \<le> sint ttl" "sint ttl \<le> 2 ^ 61"
  shows "0 \<le> jitterRaw ttl fr u" "jitterRaw ttl fr u \<le> 2 ^ 62"
proof -
  have f: "0 \<le> durToFloat ttl" "durToFloat ttl \<le> 2 ^ 61"
    using durToFloat_nonneg [OF assms(6)] durToFloat_le_pow2 [OF assms(7)] by simp_all
  have "0 \<le> fl (durToFloat ttl * fl (1 - fr))"
    using f(1) assms(5) by (intro f64.rnd_nonneg mult_nonneg_nonneg) (simp_all add: maxJitter_value)
  with jitterRaw_bounds(1) [OF assms(1-4,6)] show "0 \<le> jitterRaw ttl fr u" by linarith
  have "fl (1 + fr) \<le> 2" using assms(5) by (rule fl_one_plus_le)
  with f have "durToFloat ttl * fl (1 + fr) \<le> 2 ^ 61 * 2"
    using assms(3) by (intro mult_mono f64.rnd_nonneg) auto
  then have "durToFloat ttl * fl (1 + fr) \<le> 2 ^ 62" by simp
  moreover have "fl (2 ^ 62) = 2 ^ 62" using f64.rnd_pow2 [of 62] by simp
  ultimately have "fl (durToFloat ttl * fl (1 + fr)) \<le> 2 ^ 62" by (rule f64.rnd_le_fixed)
  with jitterRaw_bounds(2) [OF assms(1-4,6)] show "jitterRaw ttl fr u \<le> 2 ^ 62" by linarith
qed

section \<open>Properties\<close>

text \<open>
  (C37) A jittered TTL lies between the TTL scaled by \<open>1 - fraction\<close> and by \<open>1 + fraction\<close>, both
  computed in \<open>float64\<close> and truncated to nanoseconds, for every draw.
\<close>

theorem jitter_bounds:
  assumes "wfRuntime (rt w)" "0 < sint ttl" "sint ttl \<le> 2 ^ 61"
    and "0 < fr" "fr \<le> maxJitter" "fl fr = fr"
  shows "ftrunc (fl (durToFloat ttl * fl (1 - fr))) \<le> sint (fst (applyJitter ttl fr w))
       \<and> sint (fst (applyJitter ttl fr w)) \<le> ftrunc (fl (durToFloat ttl * fl (1 + fr)))"
proof -
  let ?u = "randf (rt w) (draws w)"
  from randf_bounds [OF assms(1)] have u: "0 \<le> ?u" "?u < 1" by auto
  have fr: "0 \<le> fr" and ttl: "0 \<le> sint ttl" using assms by simp_all
  note range = jitterRaw_range [OF u fr assms(6,5) ttl assms(3)]
  have "sint (fst (applyJitter ttl fr w)) = ftrunc (jitterRaw ttl fr ?u)"
    using range by (simp add: applyJitter_on assms(2,4) sint_durOfFloat_nonneg_range)
  then show ?thesis
    using jitterRaw_bounds [OF u fr assms(6) ttl] by (simp add: ftrunc_mono)
qed

theorem jitter_bounds_witness:
  "sint (fst (applyJitter minute (1 / 2) (demoWorld (1 / 2) () ()))) \<in> {30000000000..90000000000}"
proof -
  have "fl (1 / 2) = 1 / 2" "1 / 2 \<le> maxJitter" by code_simp+
  moreover have "ftrunc (fl (durToFloat minute * fl (1 - 1 / 2))) = 30000000000"
    "ftrunc (fl (durToFloat minute * fl (1 + 1 / 2))) = 90000000000" by code_simp+
  ultimately show ?thesis using jitter_bounds [of "demoWorld (1 / 2) () ()" minute "1 / 2"] by simp
qed



text \<open>
  Below that bound it can: a TTL of one nanosecond under 50% jitter is truncated to zero,
  which every backend reads as "no expiry".
\<close>

theorem jitter_can_drop_expiry:
  "sint (1 :: duration) > 0 \<and> fst (applyJitter 1 (1 / 2) (demoWorld 0 () ())) = 0"
  by code_simp

text \<open>
  Whatever the options are, the built configuration has a codec, a jitter fraction in
  \<open>[0, 0.9]\<close> and a non-negative beta, and clamping changes no other field.
\<close>

theorem buildOptions_normal:
  "let o' = buildOptions dflt opts; raw = foldl (\<lambda>x opt. opt x) initialOptions opts in
     CodecOpt o' = Some (case CodecOpt raw of None \<Rightarrow> dflt | Some c \<Rightarrow> c)
     \<and> TTLJitter o' = max 0 (min maxJitter (TTLJitter raw))
     \<and> EarlyRefreshBeta o' = max 0 (EarlyRefreshBeta raw)
     \<and> o' = raw\<lparr>CodecOpt := CodecOpt o', TTLJitter := TTLJitter o', EarlyRefreshBeta := EarlyRefreshBeta o'\<rparr>"
proof -
  have "0 < maxJitter" by (simp add: maxJitter_value)
  then show ?thesis by (auto simp: buildOptions_def Let_def split: option.splits)
qed

end
