(* ===== verification/CacheAPI.thy ===== *)
theory CacheAPI
  imports Config "HOL-Library.AList"
begin

text \<open>
  The \<open>Cache\<close> and \<open>BatchCache\<close> interfaces (cache.go, batch.go) as records of operations, the
  sentinel \<open>ErrCacheMiss\<close>, and \<open>configOf\<close> (hooks.go), which asks a cache for its configuration.

  The contract every backend must satisfy is the locale \<open>cache_contract\<close>: what a cache holds is
  described by \<open>view\<close>, the value a key has at an instant, and \<open>expiry\<close>, the instant at which
  a write will lapse. A hit is what the cache held when the call began; a miss means the key was
  gone by the time it ended. Operations may fail, and then promise little; \<open>reliable_cache\<close> is
  the contract of a backend whose operations do not fail and whose reads are instantaneous.
\<close>

section \<open>Interfaces\<close>

definition ErrCacheMiss :: gerror where
  "ErrCacheMiss = New 0 ''cachekit: cache miss''"

definition IsMiss :: "gerror \<Rightarrow> bool" where
  "IsMiss e \<longleftrightarrow> errorsIs e ErrCacheMiss"

text \<open>\<open>fmt.Errorf("%w: %s", ErrCacheMiss, key)\<close>.\<close>

definition missError :: "key \<Rightarrow> gerror" where
  "missError k = Wrapf ''%w: %s'' [Str k] ErrCacheMiss"

lemma IsMiss_missError [simp]: "IsMiss (missError k)"
  by (simp add: IsMiss_def missError_def ErrCacheMiss_def)

record ('s, 'h) BatchOps =
  bGetMany :: "ctx \<Rightarrow> key list \<Rightarrow> ('s, 'h) world \<Rightarrow> (gerror + (key \<rightharpoonup> bytes)) \<times> ('s, 'h) world"
  bSetMany :: "ctx \<Rightarrow> (key \<times> bytes) list \<Rightarrow> duration \<Rightarrow> ('s, 'h) world \<Rightarrow> gerror option \<times> ('s, 'h) world"

text \<open>
  A value of the interface type \<open>Cache\<close>: its methods, its batch methods and its configuration
  if the dynamic type has them (the type assertions \<open>c.(BatchCache)\<close>, \<open>c.(configured)\<close>), and
  the address \<open>%p\<close> prints.
\<close>

record ('s, 'h) Cache =
  cGet :: "ctx \<Rightarrow> key \<Rightarrow> ('s, 'h) world \<Rightarrow> (gerror + bytes) \<times> ('s, 'h) world"
  cSet :: "ctx \<Rightarrow> key \<Rightarrow> bytes \<Rightarrow> duration \<Rightarrow> ('s, 'h) world \<Rightarrow> gerror option \<times> ('s, 'h) world"
  cDelete :: "ctx \<Rightarrow> key \<Rightarrow> ('s, 'h) world \<Rightarrow> gerror option \<times> ('s, 'h) world"
  cBatch :: "('s, 'h) BatchOps option"
  cConfigured :: "('s \<Rightarrow> 'h cacheConfig) option"
  cPtr :: nat

definition configOf :: "('s, 'h) Cache \<Rightarrow> ('s, 'h) world \<Rightarrow> 'h cacheConfig" where
  "configOf c w = (case cConfigured c of Some f \<Rightarrow> f (store w) | None \<Rightarrow> zeroConfig)"

lemma configOf_cong: "store w' = store w \<Longrightarrow> configOf c w' = configOf c w"
  by (simp add: configOf_def split: option.splits)

section \<open>The contract\<close>

definition livesUntil :: "time option \<Rightarrow> time \<Rightarrow> bool" where
  "livesUntil d t \<longleftrightarrow> (case d of None \<Rightarrow> True | Some u \<Rightarrow> t < u)"

locale cache_contract =
  fixes c :: "('s, 'h) Cache"
    and view :: "'s \<Rightarrow> time \<Rightarrow> key \<Rightarrow> bytes option"
    and expiry :: "bytes \<Rightarrow> duration \<Rightarrow> ('s, 'h) world \<Rightarrow> time option"
  assumes get_hit: "cGet c cx k w = (Inr v, w') \<Longrightarrow> wfRuntime (rt w) \<Longrightarrow> view (store w) (now w) k = Some v"
    and get_miss: "cGet c cx k w = (Inl e, w') \<Longrightarrow> IsMiss e \<Longrightarrow> wfRuntime (rt w) \<Longrightarrow>
      view (store w) (now w') k = None"
    and get_view: "cGet c cx k w = (r, w') \<Longrightarrow> wfRuntime (rt w) \<Longrightarrow> now w' \<le> t \<Longrightarrow>
      view (store w') t k' = view (store w) t k'"
    and set_view: "cSet c cx k v ttl w = (None, w') \<Longrightarrow>
      view (store w') t k = (if livesUntil (expiry v ttl w) t then Some v else None)"
    and set_other: "cSet c cx k v ttl w = (q, w') \<Longrightarrow> k' \<noteq> k \<Longrightarrow> view (store w') t k' = view (store w) t k'"
    and delete_view: "cDelete c cx k w = (None, w') \<Longrightarrow> view (store w') t k = None"
    and delete_other: "cDelete c cx k w = (q, w') \<Longrightarrow> k' \<noteq> k \<Longrightarrow> view (store w') t k' = view (store w) t k'"
    and view_lapse: "t \<le> t' \<Longrightarrow> view s t' k = Some v \<Longrightarrow> view s t k = Some v"
    and get_advances: "cGet c cx k w = (r, w') \<Longrightarrow> advances w w'"
    and set_advances: "cSet c cx k v ttl w = (q, w') \<Longrightarrow> advances w w'"
    and delete_advances: "cDelete c cx k w = (q, w') \<Longrightarrow> advances w w'"
    and get_config: "cGet c cx k w = (r, w') \<Longrightarrow> configOf c w' = configOf c w"
    and set_config: "cSet c cx k v ttl w = (q, w') \<Longrightarrow> configOf c w' = configOf c w"
    and delete_config: "cDelete c cx k w = (q, w') \<Longrightarrow> configOf c w' = configOf c w"

locale reliable_cache = cache_contract +
  assumes get_exact: "cGet c cx k w = (Inr v, w') \<Longrightarrow> view (store w) (now w) k = Some v"
    and get_steady: "cGet c cx k w = (r, w') \<Longrightarrow> now w \<le> t \<Longrightarrow> view (store w') t k' = view (store w) t k'"
    and get_total: "cGet c cx k w = (Inl e, w') \<Longrightarrow> IsMiss e \<and> view (store w) (now w) k = None"
    and set_total: "cSet c cx k v ttl w = (q, w') \<Longrightarrow> q = None"
    and delete_total: "cDelete c cx k w = (q, w') \<Longrightarrow> q = None"
begin

text \<open>What a \<open>Get\<close> returns is exactly what the cache holds at that instant.\<close>

lemma get_result:
  assumes "cGet c cx k w = (r, w')"
  shows "r = (case view (store w) (now w) k of Some v \<Rightarrow> Inr v | None \<Rightarrow> r) \<and>
         (view (store w) (now w) k = None \<longleftrightarrow> (\<exists>e. r = Inl e \<and> IsMiss e))"
  using assms get_exact get_total by (cases r) fastforce+

lemma get_present:
  assumes "view (store w) (now w) k = Some v"
  obtains w' where "cGet c cx k w = (Inr v, w')"
  using assms get_result [of cx k w] by (cases "cGet c cx k w") auto

lemma get_absent:
  assumes "view (store w) (now w) k = None"
  obtains e w' where "cGet c cx k w = (Inl e, w')" "IsMiss e"
  using assms get_result [of cx k w] by (cases "cGet c cx k w") auto

lemma set_done: obtains w' where "cSet c cx k v ttl w = (None, w')"
  using set_total by (cases "cSet c cx k v ttl w") auto

lemma delete_done: obtains w' where "cDelete c cx k w = (None, w')"
  using delete_total by (cases "cDelete c cx k w") auto

text \<open>A write is read back until it expires, and is gone afterwards.\<close>

lemma set_then_get:
  assumes "cSet c cx k v ttl w = (q, w1)"
  shows "livesUntil (expiry v ttl w) (now w1) \<Longrightarrow> fst (cGet c cx' k w1) = Inr v"
    and "\<not> livesUntil (expiry v ttl w) (now w1) \<Longrightarrow> \<exists>e. fst (cGet c cx' k w1) = Inl e \<and> IsMiss e"
proof -
  from set_total [OF assms] assms have "cSet c cx k v ttl w = (None, w1)" by simp
  note view = set_view [OF this, of "now w1"]
  show "livesUntil (expiry v ttl w) (now w1) \<Longrightarrow> fst (cGet c cx' k w1) = Inr v"
    using view get_present [of w1 k v cx'] by force
  show "\<not> livesUntil (expiry v ttl w) (now w1) \<Longrightarrow> \<exists>e. fst (cGet c cx' k w1) = Inl e \<and> IsMiss e"
    using view get_absent [of w1 k cx'] by force
qed

lemma delete_then_get:
  assumes "cDelete c cx k w = (q, w1)"
  shows "\<exists>e. fst (cGet c cx' k w1) = Inl e \<and> IsMiss e"
proof -
  from delete_total [OF assms] assms have "cDelete c cx k w = (None, w1)" by simp
  from delete_view [OF this, of "now w1"] show ?thesis
    using get_absent [of w1 k cx'] by force
qed

end

text \<open>
  A reliable backend that also reports: a read fires \<open>OnHit\<close> or \<open>OnMiss\<close> of the configured hooks, by its
  result, and writes and deletes, which do not fail, fire nothing.
\<close>

locale observed_cache = reliable_cache +
  assumes get_obs: "cGet c cx k w = (r, w') \<Longrightarrow> obs w' = (case r of
      Inr _ \<Rightarrow> obsHit (hooks (configOf c w)) k (obs w) | Inl _ \<Rightarrow> obsMiss (hooks (configOf c w)) k (obs w))"
    and set_obs: "cSet c cx k v ttl w = (q, w') \<Longrightarrow> obs w' = obs w"
    and delete_obs: "cDelete c cx k w = (q, w') \<Longrightarrow> obs w' = obs w"

text \<open>
  A reliable backend with batch methods. A batch read of \<open>ks\<close> is over by \<open>horizon w (length ks)\<close>; if no requested entry
  lapses until then, it returns what the cache held when it began. A batch write stores every item, and, jitter off,
  keeps it for its TTL less \<open>grace\<close>, the resolution of the backend's clock.
\<close>

abbreviation ttlOr :: "'h cacheConfig \<Rightarrow> duration \<Rightarrow> duration" where
  "ttlOr cfg ttl \<equiv> (if sint ttl \<le> 0 then defaultTTL cfg else ttl)"

definition keptFor :: "int \<Rightarrow> 'h cacheConfig \<Rightarrow> duration \<Rightarrow> time \<Rightarrow> time option \<Rightarrow> bool" where
  "keptFor grace cfg ttl t0 u \<longleftrightarrow> (ttlJitter cfg \<le> 0 \<longrightarrow> 0 \<le> t0 \<longrightarrow> 0 < sint (ttlOr cfg ttl) \<longrightarrow>
     (\<forall>t. t < t0 + sint (ttlOr cfg ttl) - grace \<longrightarrow> livesUntil u t))"

locale batch_cache = reliable_cache +
  fixes bc :: "('a, 'b) BatchOps" and horizon :: "('a, 'b) world \<Rightarrow> nat \<Rightarrow> time" and grace :: int
  assumes batched: "cBatch c = Some bc"
    and horizon_mono: "wfRuntime (rt w) \<Longrightarrow> n \<le> m \<Longrightarrow> now w \<le> horizon w n \<and> horizon w n \<le> horizon w m"
    and getMany_result: "bGetMany bc cx ks w = (r, w') \<Longrightarrow> wfRuntime (rt w) \<Longrightarrow> distinct ks \<Longrightarrow>
      \<forall>k\<in>set ks. view (store w) (horizon w (length ks)) k = view (store w) (now w) k \<Longrightarrow>
      r = Inr (\<lambda>k. if k \<in> set ks then view (store w) (now w) k else None) \<and> advances w w' \<and> configOf c w' = configOf c w
      \<and> (\<forall>t k. now w' \<le> t \<longrightarrow> view (store w') t k = view (store w) t k)"
    and setMany_frame: "bSetMany bc cx kvs ttl w = (q, w') \<Longrightarrow> advances w w' \<and> configOf c w' = configOf c w"
    and setMany_view: "bSetMany bc cx kvs ttl w = (q, w') \<Longrightarrow> wfRuntime (rt w) \<Longrightarrow> distinct (map fst kvs) \<Longrightarrow>
      case map_of kvs k of
        None \<Rightarrow> \<forall>t. view (store w') t k = view (store w) t k
      | Some v \<Rightarrow> \<exists>u. (\<forall>t. view (store w') t k = (if livesUntil u t then Some v else None))
          \<and> keptFor grace (configOf c w) ttl (now w) u"

text \<open>The contract speaks of the single-key methods and the configuration only.\<close>

lemma cache_contract_cong:
  assumes "cGet c' = cGet c" "cSet c' = cSet c" "cDelete c' = cDelete c" "\<And>w. configOf c' w = configOf c w"
  shows "cache_contract c' view expiry \<longleftrightarrow> cache_contract c view expiry"
    and "reliable_cache c' view expiry \<longleftrightarrow> reliable_cache c view expiry"
  unfolding reliable_cache_def reliable_cache_axioms_def cache_contract_def assms by (rule refl)+

end
