(* ===== verification/Loading.thy ===== *)
theory Loading
  imports CacheAPI
begin

text \<open>
  The load path of cache.go and the flight wrapper of group.go: what one single-flight call
  does when it runs (\<open>loadAndStore\<close>), how its context is derived, how a value is packed for
  storage, how a panic becomes an error, and the key a flight is registered under.

  \<open>loadAndStore\<close> is composed of the three phases of the source: re-check the cache, run the
  loader, store the outcome.
\<close>

section \<open>Flight keys\<close>

fun hexDigit :: "nat \<Rightarrow> char" where
  "hexDigit n = (if n < 10 then char_of (48 + n) else char_of (87 + n))"

fun hexNat :: "nat \<Rightarrow> string" where
  "hexNat n = (if n < 16 then [hexDigit n] else hexNat (n div 16) @ [hexDigit (n mod 16)])"

declare hexNat.simps [simp del]

text \<open>\<open>fmt.Sprintf("%p\x00%s", c, key)\<close>.\<close>

definition flightKey :: "('s, 'h) Cache \<Rightarrow> key \<Rightarrow> string" where
  "flightKey c k = ''0x'' @ hexNat (cPtr c) @ CHR 0x00 # k"

section \<open>group.go: the body of a flight\<close>

text \<open>
  The function \<open>start\<close> hands to singleflight: a panic of \<open>fn\<close> is recovered into an error.
\<close>

definition flightBody :: "(('s, 'h) world \<Rightarrow> 'a outcome \<times> ('s, 'h) world) \<Rightarrow> ('s, 'h) world \<Rightarrow>
    (gerror + 'a) \<times> ('s, 'h) world" where
  "flightBody fn w = (case fn w of
       (Ret x, w') \<Rightarrow> (Inr x, w')
     | (Err e, w') \<Rightarrow> (Inl e, w')
     | (Panic p, w') \<Rightarrow> (Inl (Errorf ''cachekit: loader panic: %v'' [Str p]), w'))"

text \<open>
  The \<open>select\<close> of \<open>do\<close> for a caller whose flight runs undisturbed. The flight runs to its end
  whatever the caller does; when the caller's context is done by then, the runtime may pick
  either case.
\<close>

datatype select = CtxDone | FlightResult

definition groupDo :: "ctx \<Rightarrow> select \<Rightarrow> (('s, 'h) world \<Rightarrow> 'a outcome \<times> ('s, 'h) world) \<Rightarrow>
    ('s, 'h) world \<Rightarrow> (gerror + 'a) \<times> ('s, 'h) world" where
  "groupDo cx sel fn w = (case flightBody fn w of (res, w') \<Rightarrow>
     (case sel of
        FlightResult \<Rightarrow> (res, w')
      | CtxDone \<Rightarrow> (case ctxErr cx (now w') of Some e \<Rightarrow> (Inl e, w') | None \<Rightarrow> (res, w'))))"

section \<open>cache.go: the flight\<close>

type_synonym ('v, 's, 'h) loader = "ctx \<Rightarrow> ('s, 'h) world \<Rightarrow> 'v outcome \<times> ('s, 'h) world"

record flightOpts =
  preserveDeadline :: bool
  timeout :: duration
  refreshOf :: time

definition missOpts :: flightOpts where
  "missOpts = \<lparr>preserveDeadline = True, timeout = 0, refreshOf = zeroTime\<rparr>"

definition flightContext :: "ctx \<Rightarrow> flightOpts \<Rightarrow> ('s, 'h) world \<Rightarrow> ctx \<times> ('s, 'h) world" where
  "flightContext base opts w =
     (let f1 = withoutCancel base;
          f2 = (if preserveDeadline opts
                then case ctxDeadline base of Some d \<Rightarrow> withDeadline f1 d | None \<Rightarrow> f1
                else f1)
      in if 0 < sint (timeout opts) then withTimeout f2 (timeout opts) w else (f2, w))"

definition packForStore :: "bytes \<Rightarrow> duration \<Rightarrow> duration \<Rightarrow> 'h cacheConfig \<Rightarrow> ('s, 'h) world \<Rightarrow>
    (bytes \<times> duration) \<times> ('s, 'h) world" where
  "packForStore payload ttl loadDur cfg w =
     (if \<not> envelopeEnabled cfg then ((payload, ttl), w)
      else let fresh0 = (if sint ttl \<le> 0 then defaultTTL cfg else ttl) in
        case applyJitter fresh0 (ttlJitter cfg) w of (fresh, w1) \<Rightarrow>
          if 0 < sint fresh
          then case timeNow w1 of (t, w2) \<Rightarrow>
            ((wrapEnvelope payload (tAdd t fresh) loadDur, fresh + staleTTL cfg), w2)
          else ((wrapEnvelope payload zeroTime loadDur, 0), w1))"

text \<open>Re-check: \<open>Some\<close> of the bytes that satisfy the flight, or \<open>None\<close> when it has to load.\<close>

definition flightRecheck :: "('s, 'h) Cache \<Rightarrow> key \<Rightarrow> 'v Codec \<Rightarrow> 'h cacheConfig \<Rightarrow> flightOpts \<Rightarrow> ctx \<Rightarrow>
    ('s, 'h) world \<Rightarrow> bytes option \<times> ('s, 'h) world" where
  "flightRecheck c k codec cfg opts fctx w = (case cGet c fctx k w of
       (Inl _, w1) \<Rightarrow> (None, w1)
     | (Inr data, w1) \<Rightarrow>
         if isNegativeEntry data then (Some data, w1)
         else case parseStored cfg data of (env, payload) \<Rightarrow>
           (let refreshed = (isZero (refreshOf opts) \<or> refreshOf opts < freshUntil env) in
            case timeNow w1 of (t, w2) \<Rightarrow>
              if \<not> stale env t \<and> refreshed
              then case Unmarshal codec payload of
                  Inr _ \<Rightarrow> (Some data, w2)
                | Inl e \<Rightarrow> (None, snd (cDelete c fctx k (hookError (hooks cfg) OpDecode k e w2)))
              else (None, w2)))"

text \<open>The timed loader call; \<open>OnLoad\<close> fires unless the loader panics.\<close>

definition timedLoad :: "key \<Rightarrow> 'h cacheConfig \<Rightarrow> ('v, 's, 'h) loader \<Rightarrow> ctx \<Rightarrow> ('s, 'h) world \<Rightarrow>
    ('v \<times> duration) outcome \<times> ('s, 'h) world" where
  "timedLoad k cfg loader fctx w = (case timeNow w of (start, w1) \<Rightarrow>
     (case loader fctx w1 of
        (Panic p, w2) \<Rightarrow> (Panic p, w2)
      | (Err e, w2) \<Rightarrow> (case timeNow w2 of (end, w3) \<Rightarrow>
          (Err e, hookLoad (hooks cfg) k (tSub end start) (Some e) w3))
      | (Ret v, w2) \<Rightarrow> (case timeNow w2 of (end, w3) \<Rightarrow>
          (Ret (v, tSub end start), hookLoad (hooks cfg) k (tSub end start) None w3))))"

definition storeLoaded :: "('s, 'h) Cache \<Rightarrow> key \<Rightarrow> duration \<Rightarrow> 'v Codec \<Rightarrow> 'h cacheConfig \<Rightarrow> ctx \<Rightarrow>
    ('v \<times> duration) outcome \<Rightarrow> ('s, 'h) world \<Rightarrow> bytes outcome \<times> ('s, 'h) world" where
  "storeLoaded c k ttl codec cfg fctx res w = (case res of
       Panic p \<Rightarrow> (Panic p, w)
     | Err e \<Rightarrow>
         if 0 < sint (negativeTTL cfg) \<and> errorsIs e ErrNotFound
         then (Ret negativeMarker, snd (cSet c fctx k negativeMarker (negativeTTL cfg) w))
         else (Err e, w)
     | Ret (v, loadDur) \<Rightarrow> (case Marshal codec v of
           Inl merr \<Rightarrow> (Err (Wrapf ''cachekit: encode %q: %w'' [Str k] merr),
              hookError (hooks cfg) OpEncode k merr w)
         | Inr payload \<Rightarrow> (case packForStore payload ttl loadDur cfg w of ((data, storeTTL), w1) \<Rightarrow>
             (Ret data, snd (cSet c fctx k data storeTTL w1)))))"

definition loadAndStore :: "ctx \<Rightarrow> ('s, 'h) Cache \<Rightarrow> key \<Rightarrow> duration \<Rightarrow> 'v Codec \<Rightarrow>
    ('v, 's, 'h) loader \<Rightarrow> 'h cacheConfig \<Rightarrow> flightOpts \<Rightarrow> ('s, 'h) world \<Rightarrow>
    bytes outcome \<times> ('s, 'h) world" where
  "loadAndStore base c k ttl codec loader cfg opts w =
     (case flightContext base opts w of (fctx, w1) \<Rightarrow>
      (case flightRecheck c k codec cfg opts fctx w1 of
         (Some data, w2) \<Rightarrow> (Ret data, w2)
       | (None, w2) \<Rightarrow> (case timedLoad k cfg loader fctx w2 of (res, w3) \<Rightarrow>
           storeLoaded c k ttl codec cfg fctx res w3)))"

section \<open>cache.go: background refresh\<close>

text \<open>The options of a refresh flight: bounded by the entry's total lifetime.\<close>

definition refreshOpts :: "duration \<Rightarrow> 'h cacheConfig \<Rightarrow> envelope \<Rightarrow> flightOpts" where
  "refreshOpts ttl cfg env =
     (let fresh = (if sint ttl \<le> 0 then defaultTTL cfg else ttl);
          bound = fresh + staleTTL cfg
      in \<lparr>preserveDeadline = False, timeout = (if sint bound \<le> 0 then minute else bound),
          refreshOf = freshUntil env\<rparr>)"

text \<open>
  The function \<open>refreshAsync\<close> gives to \<open>doAsync\<close>: a panic becomes an error, and any error is
  reported through \<open>OnError(OpRefresh)\<close>.
\<close>

definition refreshBody :: "ctx \<Rightarrow> ('s, 'h) Cache \<Rightarrow> key \<Rightarrow> duration \<Rightarrow> 'v Codec \<Rightarrow>
    ('v, 's, 'h) loader \<Rightarrow> 'h cacheConfig \<Rightarrow> flightOpts \<Rightarrow> ('s, 'h) world \<Rightarrow>
    bytes outcome \<times> ('s, 'h) world" where
  "refreshBody base c k ttl codec loader cfg opts w =
     (case loadAndStore base c k ttl codec loader cfg opts w of
        (Ret data, w1) \<Rightarrow> (Ret data, w1)
      | (Err e, w1) \<Rightarrow> (Err e, hookError (hooks cfg) OpRefresh k e w1)
      | (Panic p, w1) \<Rightarrow> (let e = Errorf ''cachekit: loader panic: %v'' [Str p] in
          (Err e, hookError (hooks cfg) OpRefresh k e w1)))"

section \<open>Reading an entry\<close>

text \<open>An entry that gives a reader nothing to serve: absent, or present but undecodable.\<close>

definition unreadable :: "'v Codec \<Rightarrow> 'h cacheConfig \<Rightarrow> bytes option \<Rightarrow> bool" where
  "unreadable codec cfg entry \<longleftrightarrow> (case entry of None \<Rightarrow> True
     | Some data \<Rightarrow> \<not> isNegativeEntry data \<and> (\<exists>e. Unmarshal codec (snd (parseStored cfg data)) = Inl e))"

definition effectiveCodec :: "'v Codec \<Rightarrow> 'v Codec option \<Rightarrow> 'v Codec" where
  "effectiveCodec dflt co = (case co of None \<Rightarrow> dflt | Some x \<Rightarrow> x)"

text \<open>The value a reader decodes from an entry, if the entry holds one.\<close>

definition cachedValue :: "'v Codec \<Rightarrow> 'h cacheConfig \<Rightarrow> bytes option \<Rightarrow> 'v option" where
  "cachedValue codec cfg entry = (case entry of None \<Rightarrow> None
     | Some data \<Rightarrow> if isNegativeEntry data then None
         else (case Unmarshal codec (snd (parseStored cfg data)) of Inl _ \<Rightarrow> None | Inr v \<Rightarrow> Some v))"

lemma unreadable_None [simp]: "unreadable codec cfg None"
  by (simp add: unreadable_def)

lemma cachedValue_None [simp]: "cachedValue codec cfg None = None"
  by (simp add: cachedValue_def)

lemma cachedValue_unreadable: "unreadable codec cfg entry \<Longrightarrow> cachedValue codec cfg entry = None"
  by (auto simp: cachedValue_def unreadable_def split: option.splits)

section \<open>Flight keys are injective\<close>

lemma hexDigit_inj: "a < 16 \<Longrightarrow> b < 16 \<Longrightarrow> hexDigit a = hexDigit b \<Longrightarrow> a = b"
  by (auto simp: char_of_eq_iff take_bit_nat_eq_self split: if_splits)

lemma hexDigit_not_nul: "n < 16 \<Longrightarrow> hexDigit n \<noteq> CHR 0x00"
  by (auto simp: char_of_eq_iff take_bit_nat_eq_self)

declare hexDigit.simps [simp del]

lemma hexNat_not_nul: "CHR 0x00 \<notin> set (hexNat n)"
proof (induction n rule: hexNat.induct)
  case (1 n)
  then show ?case by (subst hexNat.simps) (auto simp: hexDigit_not_nul [symmetric] hexDigit_not_nul)
qed

lemma hexNat_nonempty: "hexNat n \<noteq> []"
  by (subst hexNat.simps) simp

lemma hexNat_inj: "hexNat n = hexNat m \<Longrightarrow> n = m"
proof (induction n arbitrary: m rule: hexNat.induct)
  case (1 n)
  note eq = "1.prems" [unfolded hexNat.simps [of n] hexNat.simps [of m]]
  show ?case
  proof (cases "n < 16 \<or> m < 16")
    case True
    with eq show ?thesis by (auto simp: hexNat_nonempty hexNat_nonempty [symmetric] split: if_splits dest: hexDigit_inj)
  next
    case False
    with eq have "hexNat (n div 16) = hexNat (m div 16)" "hexDigit (n mod 16) = hexDigit (m mod 16)"
      by simp_all
    moreover from this(2) have "n mod 16 = m mod 16" by (rule hexDigit_inj [rotated 2]) simp_all
    ultimately show ?thesis using "1.IH" False by (metis div_mult_mod_eq)
  qed
qed

lemma append_nul_inj:
  "c \<notin> set xs \<Longrightarrow> c \<notin> set ys \<Longrightarrow> xs @ c # as = ys @ c # bs \<Longrightarrow> xs = ys \<and> as = bs"
  by (induction xs arbitrary: ys; case_tac ys) auto

section \<open>Frames\<close>

lemma flightContext_frame [world_frame]:
  "flightContext base opts w = (fctx, w') \<Longrightarrow> advances w w' \<and> store w' = store w \<and> obs w' = obs w"
  by (auto simp: flightContext_def Let_def dest: withTimeout_frame split: if_splits option.splits)

lemma packForStore_frame [world_frame]:
  "packForStore p ttl d cfg w = (r, w') \<Longrightarrow> advances w w' \<and> store w' = store w \<and> obs w' = obs w"
  by (auto simp: packForStore_def Let_def timeNow_def advances_def
      dest!: applyJitter_frame split: if_splits prod.splits)

text \<open>A loader that, whatever it is given, ends with outcome \<open>r\<close> and leaves the store alone.\<close>

definition loads :: "('v, 's, 'h) loader \<Rightarrow> 'v outcome \<Rightarrow> bool" where
  "loads loader r \<longleftrightarrow> (\<forall>cx w. fst (loader cx w) = r \<and> advances w (snd (loader cx w))
     \<and> store (snd (loader cx w)) = store w)"

definition constLoader :: "'v outcome \<Rightarrow> ('v, 's, 'h) loader" where
  "constLoader r cx w = (r, w)"

lemma loads_constLoader [simp]: "loads (constLoader r) r"
  by (simp add: loads_def constLoader_def)

lemma timedLoad_outcome:
  assumes "loads loader r" "timedLoad k cfg loader fctx w = (res, w')"
  shows "(case r of Ret v \<Rightarrow> \<exists>d. res = Ret (v, d) | Err e \<Rightarrow> res = Err e | Panic p \<Rightarrow> res = Panic p)
       \<and> advances w w' \<and> store w' = store w"
proof -
  let ?w1 = "w\<lparr>reads := Suc (reads w)\<rparr>"
  have "fst (loader fctx ?w1) = r \<and> advances ?w1 (snd (loader fctx ?w1))
      \<and> store (snd (loader fctx ?w1)) = store ?w1"
    using assms(1) unfolding loads_def by blast
  then obtain w2 where l: "loader fctx ?w1 = (r, w2)" "advances ?w1 w2" "store w2 = store w"
    by (cases "loader fctx ?w1") auto
  from l(2) have adv: "advances w w2" by (auto simp: advances_def)
  from assms(2) l(1,3) adv show ?thesis
    by (cases r) (auto simp: timedLoad_def timeNow_def advances_def)
qed

section \<open>What a packed value looks like\<close>

lemma packForStore_payload:
  "packForStore p ttl d cfg w = ((data, st), w') \<Longrightarrow> snd (parseStored cfg data) = p"
  by (auto simp: packForStore_def parseStored_def Let_def split: if_splits prod.splits)

lemma packForStore_not_negative:
  "packForStore p ttl d cfg w = ((data, st), w') \<Longrightarrow> envelopeEnabled cfg \<or> \<not> isNegativeEntry p \<Longrightarrow>
   \<not> isNegativeEntry data"
  using marker_envelope_disjoint_core [of p]
  by (auto simp: packForStore_def Let_def split: if_splits prod.splits)

lemma packForStore_plain: "\<not> envelopeEnabled cfg \<Longrightarrow> packForStore p ttl d cfg w = ((p, ttl), w)"
  by (simp add: packForStore_def)

lemma refreshOpts_timeout_pos: "0 < sint (timeout (refreshOpts ttl cfg env))"
  by (simp add: refreshOpts_def Let_def)

lemma packForStore_window:
  assumes "packForStore p ttl d cfg w = ((data, st), w')" "envelopeEnabled cfg"
    and "fresh = fst (applyJitter (if sint ttl \<le> 0 then defaultTTL cfg else ttl) (ttlJitter cfg) w)"
  shows "hasEnvelope data \<and> snd (parseEnvelope data) = p \<and>
    (if 0 < sint fresh
     then data = wrapEnvelope p (tAdd (now w) fresh) d \<and> st = fresh + staleTTL cfg
     else data = wrapEnvelope p zeroTime d \<and> st = 0)"
proof -
  obtain w1 where j: "applyJitter (if sint ttl \<le> 0 then defaultTTL cfg else ttl) (ttlJitter cfg) w
      = (fresh, w1)" using assms(3) by (metis prod.collapse)
  have "now w1 = now w" using applyJitter_frame [OF j] by (simp add: now_def advances_def)
  with assms(1,2) j show ?thesis
    by (auto simp: packForStore_def Let_def timeNow_def split: if_splits)
qed

section \<open>Properties\<close>

text \<open>
  Two callers share a flight only when they use the same cache instance and the same
  logical key: the rendered flight key determines both.
\<close>

theorem flightKey_injective:
  "flightKey c k = flightKey c' k' \<longleftrightarrow> cPtr c = cPtr c' \<and> k = k'"
proof
  assume "flightKey c k = flightKey c' k'"
  then have "hexNat (cPtr c) @ CHR 0x00 # k = hexNat (cPtr c') @ CHR 0x00 # k'"
    by (simp add: flightKey_def)
  from append_nul_inj [OF hexNat_not_nul hexNat_not_nul this] show "cPtr c = cPtr c' \<and> k = k'"
    by (auto dest: hexNat_inj)
qed (simp add: flightKey_def)

text \<open>
  A flight is detached from its initiator: it is never cancelled by the caller's cancel
  function and keeps the caller's values. A miss flight keeps the caller's deadline; a refresh
  flight drops it and always has a bound of its own, the entry's lifetime or one minute.
\<close>

theorem flight_context_detached:
  "ctxCancel (fst (flightContext base opts w)) = None
   \<and> ctxValues (fst (flightContext base opts w)) = ctxValues base
   \<and> ctxDeadline (fst (flightContext base missOpts w)) = ctxDeadline base
   \<and> 0 < sint (timeout (refreshOpts ttl cfg env))
   \<and> ctxDeadline (fst (flightContext base (refreshOpts ttl cfg env) w))
       = Some (tAdd (now w) (timeout (refreshOpts ttl cfg env)))"
  by (auto simp: flightContext_def withoutCancel_def withDeadline_def withTimeout_def timeNow_def
      missOpts_def refreshOpts_def Let_def split: option.splits prod.splits)

end
