(* ===== verification/Memory.thy ===== *)
theory Memory
  imports CacheAPI
begin

text \<open>
  memory.go: \<open>MemoryCache\<close>, a map from prefixed keys to items with an expiry deadline. The world's
  store is the struct itself; each method is one critical section of its mutex, so it is one
  function on worlds. Expired items are dropped when a read meets them.

  The lemmas give the observable content (\<open>memView\<close>), show that the cache satisfies the
  contract of CacheAPI (the interpretation \<open>mem\<close>), that the batch methods do what the
  single-key methods do, and that the map stays well formed.
\<close>

section \<open>State\<close>

record memoryItem =
  val :: bytes
  deadline :: time

record ('c, 'h) MemoryCache =
  items :: "key \<rightharpoonup> memoryItem"
  mcPrefix :: string
  mcDefaultTTL :: duration
  mcCodec :: "'c Codec option"
  mcHooks :: "'h Hooks"
  mcTTLJitter :: rat
  mcNegativeTTL :: duration
  mcStaleTTL :: duration
  mcEarlyBeta :: rat

definition NewMemory :: "'c Codec \<Rightarrow> ('c, 'h) Option list \<Rightarrow> ('c, 'h) MemoryCache" where
  "NewMemory defaultCodec opts = (let opt = buildOptions defaultCodec opts in
     \<lparr>items = Map.empty, mcPrefix = Prefix opt, mcDefaultTTL = DefaultTTL opt, mcCodec = CodecOpt opt,
      mcHooks = HooksOpt opt, mcTTLJitter = TTLJitter opt, mcNegativeTTL = NegativeTTL opt,
      mcStaleTTL = StaleTTL opt, mcEarlyBeta = EarlyRefreshBeta opt\<rparr>)"

definition memConfig :: "('c, 'h) MemoryCache \<Rightarrow> 'h cacheConfig" where
  "memConfig c = \<lparr>hooks = mcHooks c, negativeTTL = mcNegativeTTL c, defaultTTL = mcDefaultTTL c,
     staleTTL = mcStaleTTL c, earlyRefreshBeta = mcEarlyBeta c, ttlJitter = mcTTLJitter c\<rparr>"

definition memKey :: "('c, 'h) MemoryCache \<Rightarrow> key \<Rightarrow> key" where
  "memKey c k = mcPrefix c @ k"

section \<open>Operations\<close>

text \<open>The lookup under the lock, shared by \<open>Get\<close> and \<open>GetMany\<close>: an expired item is deleted.\<close>

definition memLookup :: "key \<Rightarrow> (('c, 'h) MemoryCache, 'h) world \<Rightarrow>
    memoryItem option \<times> (('c, 'h) MemoryCache, 'h) world" where
  "memLookup k w = (let c = store w in
     case items c (memKey c k) of
       None \<Rightarrow> (None, w)
     | Some it \<Rightarrow>
         if isZero (deadline it) then (Some it, w)
         else case timeNow w of (t, w1) \<Rightarrow>
           if \<not> t < deadline it
           then (None, w1\<lparr>store := c\<lparr>items := (items c)(memKey c k := None)\<rparr>\<rparr>)
           else (Some it, w1))"

definition memGet :: "ctx \<Rightarrow> key \<Rightarrow> (('c, 'h) MemoryCache, 'h) world \<Rightarrow>
    (gerror + bytes) \<times> (('c, 'h) MemoryCache, 'h) world" where
  "memGet cx k w = (case memLookup k w of
       (None, w1) \<Rightarrow> (Inl (missError k), hookMiss (mcHooks (store w)) k w1)
     | (Some it, w1) \<Rightarrow> (Inr (val it), hookHit (mcHooks (store w)) k w1))"

definition newItem :: "('c, 'h) MemoryCache \<Rightarrow> bytes \<Rightarrow> duration \<Rightarrow> ('s, 'h) world \<Rightarrow>
    memoryItem \<times> ('s, 'h) world" where
  "newItem c v ttl w =
     (let ttl1 = (if sint ttl \<le> 0 then mcDefaultTTL c else ttl) in
      case (if \<not> hasEnvelope v then applyJitter ttl1 (mcTTLJitter c) w else (ttl1, w)) of (ttl2, w1) \<Rightarrow>
        if 0 < sint ttl2
        then case timeNow w1 of (t, w2) \<Rightarrow> (\<lparr>val = v, deadline = tAdd t ttl2\<rparr>, w2)
        else (\<lparr>val = v, deadline = zeroTime\<rparr>, w1))"

definition memPut :: "key \<Rightarrow> bytes \<Rightarrow> duration \<Rightarrow> (('c, 'h) MemoryCache, 'h) world \<Rightarrow>
    (('c, 'h) MemoryCache, 'h) world" where
  "memPut k v ttl w = (case newItem (store w) v ttl w of (it, w1) \<Rightarrow>
     (let c = store w1 in w1\<lparr>store := c\<lparr>items := (items c)(memKey c k \<mapsto> it)\<rparr>\<rparr>))"

definition memSet :: "ctx \<Rightarrow> key \<Rightarrow> bytes \<Rightarrow> duration \<Rightarrow> (('c, 'h) MemoryCache, 'h) world \<Rightarrow>
    gerror option \<times> (('c, 'h) MemoryCache, 'h) world" where
  "memSet cx k v ttl w = (None, memPut k v ttl w)"

definition memDelete :: "ctx \<Rightarrow> key \<Rightarrow> (('c, 'h) MemoryCache, 'h) world \<Rightarrow>
    gerror option \<times> (('c, 'h) MemoryCache, 'h) world" where
  "memDelete cx k w = (let c = store w in
     (None, w\<lparr>store := c\<lparr>items := (items c)(memKey c k := None)\<rparr>\<rparr>))"

text \<open>The loop of \<open>GetMany\<close>: result map, keys hit and keys missed, in order.\<close>

fun memGetLoop :: "key list \<Rightarrow> (key \<rightharpoonup> bytes) \<Rightarrow> (('c, 'h) MemoryCache, 'h) world \<Rightarrow>
    ((key \<rightharpoonup> bytes) \<times> key list \<times> key list) \<times> (('c, 'h) MemoryCache, 'h) world" where
  "memGetLoop [] out w = ((out, [], []), w)"
| "memGetLoop (k # ks) out w = (case memLookup k w of
       (None, w1) \<Rightarrow> (case memGetLoop ks out w1 of ((out', hs, ms), w2) \<Rightarrow> ((out', hs, k # ms), w2))
     | (Some it, w1) \<Rightarrow>
         (case memGetLoop ks (out(k \<mapsto> val it)) w1 of ((out', hs, ms), w2) \<Rightarrow> ((out', k # hs, ms), w2)))"

definition memGetMany :: "ctx \<Rightarrow> key list \<Rightarrow> (('c, 'h) MemoryCache, 'h) world \<Rightarrow>
    (gerror + (key \<rightharpoonup> bytes)) \<times> (('c, 'h) MemoryCache, 'h) world" where
  "memGetMany cx ks w = (case memGetLoop ks Map.empty w of ((out, hs, ms), w1) \<Rightarrow>
     (Inr out, fold (hookMiss (mcHooks (store w))) ms (fold (hookHit (mcHooks (store w))) hs w1)))"

definition memSetMany :: "ctx \<Rightarrow> (key \<times> bytes) list \<Rightarrow> duration \<Rightarrow> (('c, 'h) MemoryCache, 'h) world \<Rightarrow>
    gerror option \<times> (('c, 'h) MemoryCache, 'h) world" where
  "memSetMany cx kvs ttl w = (case rangeItems kvs w of (xs, w1) \<Rightarrow>
     (None, fold (\<lambda>(k, v). memPut k v ttl) xs w1))"

definition memCodec :: "('c, 'h) MemoryCache \<Rightarrow> 'c Codec option" where
  "memCodec c = mcCodec c"

definition memLen :: "('c, 'h) MemoryCache \<Rightarrow> nat" where
  "memLen c = card (dom (items c))"

text \<open>The cache at address \<open>p\<close> as a value of the interface types.\<close>

definition memoryCache :: "nat \<Rightarrow> (('c, 'h) MemoryCache, 'h) Cache" where
  "memoryCache p = \<lparr>cGet = memGet, cSet = memSet, cDelete = memDelete,
     cBatch = Some \<lparr>bGetMany = memGetMany, bSetMany = memSetMany\<rparr>,
     cConfigured = Some memConfig, cPtr = p\<rparr>"

section \<open>Content\<close>

text \<open>What the cache holds at an instant: expired items do not count, reaped or not.\<close>

definition liveItem :: "memoryItem \<Rightarrow> time \<Rightarrow> bool" where
  "liveItem it t \<longleftrightarrow> isZero (deadline it) \<or> t < deadline it"

definition memView :: "('c, 'h) MemoryCache \<Rightarrow> time \<Rightarrow> key \<Rightarrow> bytes option" where
  "memView c t k = (case items c (memKey c k) of None \<Rightarrow> None
     | Some it \<Rightarrow> if liveItem it t then Some (val it) else None)"

definition memExpiry :: "bytes \<Rightarrow> duration \<Rightarrow> (('c, 'h) MemoryCache, 'h) world \<Rightarrow> time option" where
  "memExpiry v ttl w = (let d = deadline (fst (newItem (store w) v ttl w)) in
     if isZero d then None else Some d)"

text \<open>The configuration part of the struct, which no operation changes.\<close>

definition memFixed :: "('c, 'h) MemoryCache \<Rightarrow> ('c, 'h) MemoryCache" where
  "memFixed c = c\<lparr>items := Map.empty\<rparr>"

lemma memFixed_items [simp]: "memFixed (c\<lparr>items := m\<rparr>) = memFixed c"
  by (simp add: memFixed_def)

lemma memFixed_fields:
  assumes "memFixed c' = memFixed c"
  shows "memKey c' = memKey c" "mcHooks c' = mcHooks c" "memConfig c' = memConfig c"
    "mcPrefix c' = mcPrefix c" "mcDefaultTTL c' = mcDefaultTTL c" "mcTTLJitter c' = mcTTLJitter c"
proof -
  from assms have "items c' = items c' \<and> c'\<lparr>items := Map.empty\<rparr> = c\<lparr>items := Map.empty\<rparr>"
    by (simp add: memFixed_def)
  then show "memKey c' = memKey c" "mcHooks c' = mcHooks c" "memConfig c' = memConfig c"
    "mcPrefix c' = mcPrefix c" "mcDefaultTTL c' = mcDefaultTTL c" "mcTTLJitter c' = mcTTLJitter c"
    by (cases c, cases c', simp add: memKey_def memConfig_def fun_eq_iff)+
qed

lemma memKey_inj [simp]: "memKey c k = memKey c k' \<longleftrightarrow> k = k'"
  by (simp add: memKey_def)

lemma memKey_items [simp]: "memKey (c\<lparr>items := m\<rparr>) = memKey c"
  by (simp add: memKey_def fun_eq_iff)

section \<open>What each step does\<close>

lemma memLookup_frame [world_frame]:
  "memLookup k w = (r, w1) \<Longrightarrow>
     advances w w1 \<and> obs w1 = obs w \<and> memFixed (store w1) = memFixed (store w)"
  by (auto simp: memLookup_def Let_def timeNow_def split: option.splits if_splits)

lemma memLookup_result:
  assumes "memLookup k w = (r, w1)"
  shows "memView (store w) (now w) k = map_option val r"
proof -
  have "memView (store w) (now w) k = map_option val (fst (memLookup k w))"
    by (auto simp: memLookup_def memView_def liveItem_def Let_def timeNow_def split: option.splits)
  with assms show ?thesis by simp
qed

lemma memLookup_view:
  "memLookup k w = (r, w1) \<Longrightarrow> now w \<le> t \<Longrightarrow> memView (store w1) t k' = memView (store w) t k'"
  by (auto simp: memLookup_def memView_def liveItem_def Let_def timeNow_def split: option.splits if_splits)

lemma memLookup_reaps:
  "memLookup k w = (None, w1) \<Longrightarrow> items (store w1) (memKey (store w1) k) = None"
  by (auto simp: memLookup_def Let_def timeNow_def split: option.splits if_splits)

lemma newItem_frame [world_frame]:
  "newItem c v ttl w = (it, w1) \<Longrightarrow>
     advances w w1 \<and> store w1 = store w \<and> obs w1 = obs w \<and> val it = v"
  unfolding newItem_def Let_def
  by (auto simp: timeNow_def advances_def split: prod.splits if_splits dest!: applyJitter_frame)

lemma memPut_frame [world_frame]:
  "advances w (memPut k v ttl w) \<and> obs (memPut k v ttl w) = obs w
   \<and> memFixed (store (memPut k v ttl w)) = memFixed (store w)"
  by (cases "newItem (store w) v ttl w") (auto simp: memPut_def Let_def dest: newItem_frame)

lemma memPut_view:
  "memView (store (memPut k v ttl w)) t k' =
     (if k' = k then if livesUntil (memExpiry v ttl w) t then Some v else None
      else memView (store w) t k')"
  by (cases "newItem (store w) v ttl w")
    (auto simp: memPut_def memView_def memExpiry_def livesUntil_def liveItem_def Let_def
      dest: newItem_frame)

lemma memPut_items:
  "\<exists>it. store (memPut k v ttl w) = (store w)\<lparr>items := (items (store w))(memKey (store w) k \<mapsto> it)\<rparr>"
proof (cases "newItem (store w) v ttl w")
  case (Pair it w1)
  with newItem_frame [OF Pair] show ?thesis by (auto simp: memPut_def Let_def)
qed

lemma memExpiry_plain:
  assumes "mcTTLJitter (store w) \<le> 0 \<or> hasEnvelope v" "0 \<le> now w"
    and "eff = (if sint ttl \<le> 0 then mcDefaultTTL (store w) else ttl)"
  shows "memExpiry v ttl w = (if sint eff \<le> 0 then None else Some (now w + sint eff))"
  using assms(1,2) unfolding memExpiry_def newItem_def Let_def assms(3) [symmetric]
  by (auto simp: timeNow_def tAdd_def isZero_def zeroTime_def)

section \<open>The contract\<close>

lemma memoryCache_sel [simp]:
  "cGet (memoryCache p) = memGet" "cSet (memoryCache p) = memSet" "cDelete (memoryCache p) = memDelete"
  "cConfigured (memoryCache p) = Some memConfig" "cPtr (memoryCache p) = p"
  "cBatch (memoryCache p) = Some \<lparr>bGetMany = memGetMany, bSetMany = memSetMany\<rparr>"
  by (simp_all add: memoryCache_def)

lemma configOf_memory [simp]: "configOf (memoryCache p) w = memConfig (store w)"
  by (simp add: configOf_def)

lemma memGet_cases:
  assumes "memGet cx k w = (r, w')"
  obtains (hit) it w1 where "memLookup k w = (Some it, w1)" "r = Inr (val it)"
      "w' = hookHit (mcHooks (store w)) k w1"
  | (miss) w1 where "memLookup k w = (None, w1)" "r = Inl (missError k)"
      "w' = hookMiss (mcHooks (store w)) k w1"
  using assms by (auto simp: memGet_def split: prod.splits option.splits)

lemma memGet_frame [world_frame]:
  assumes "memGet cx k w = (r, w')"
  shows "advances w w' \<and> memFixed (store w') = memFixed (store w)"
  using assms by (cases rule: memGet_cases) (auto dest!: memLookup_frame)

lemma memGet_result:
  assumes "memGet cx k w = (r, w')"
  shows "r = (case memView (store w) (now w) k of Some v \<Rightarrow> Inr v | None \<Rightarrow> Inl (missError k))"
  using assms by (cases rule: memGet_cases) (auto dest!: memLookup_result split: option.splits)

lemma memGet_view:
  assumes "memGet cx k w = (r, w')" "now w \<le> t"
  shows "memView (store w') t k' = memView (store w) t k'"
  using assms(1) by (cases rule: memGet_cases) (auto dest!: memLookup_view [OF _ assms(2)])

lemma memGet_obs:
  assumes "memGet cx k w = (r, w')"
  shows "obs w' = obs (if memView (store w) (now w) k = None
            then hookMiss (mcHooks (store w)) k w else hookHit (mcHooks (store w)) k w)"
  using assms
proof (cases rule: memGet_cases)
  case (hit it w1)
  with memLookup_result [OF hit(1)] memLookup_frame [OF hit(1)] show ?thesis
    by (auto simp: hook_defs split: option.splits)
next
  case (miss w1)
  with memLookup_result [OF miss(1)] memLookup_frame [OF miss(1)] show ?thesis
    by (auto simp: hook_defs split: option.splits)
qed

lemma memGet_absent:
  "memView (store w) (now w) k = None \<Longrightarrow> \<exists>w'. memGet cx k w = (Inl (missError k), w')"
  using memGet_result [of cx k w] by (cases "memGet cx k w") auto

lemma memGet_present:
  "memView (store w) (now w) k = Some v \<Longrightarrow> \<exists>w'. memGet cx k w = (Inr v, w')"
  using memGet_result [of cx k w] by (cases "memGet cx k w") auto

lemma memLookup_reads: "memLookup k w = (r, w1) \<Longrightarrow> reads w1 \<le> Suc (reads w)"
  by (auto simp: memLookup_def Let_def timeNow_def split: option.splits if_splits)

lemma memGet_reads:
  assumes "memGet cx k w = (r, w')" shows "reads w' \<le> Suc (reads w)"
  using assms by (cases rule: memGet_cases) (auto dest: memLookup_reads)

lemma memGet_reaps:
  assumes "memGet cx k w = (r, w')" "memView (store w) (now w) k = None"
  shows "items (store w') (memKey (store w') k) = None"
  using assms(1)
proof (cases rule: memGet_cases)
  case (hit it w1)
  with memLookup_result [OF hit(1)] assms(2) show ?thesis by simp
next
  case (miss w1)
  with memLookup_reaps [OF miss(1)] show ?thesis by simp
qed

lemma memDelete_view:
  "memDelete cx k w = (q, w') \<Longrightarrow> memView (store w') t k' = (if k' = k then None else memView (store w) t k')"
  by (auto simp: memDelete_def memView_def Let_def)

lemma memDelete_frame [world_frame]:
  "memDelete cx k w = (q, w') \<Longrightarrow>
     q = None \<and> advances w w' \<and> obs w' = obs w \<and> memFixed (store w') = memFixed (store w)"
  by (auto simp: memDelete_def Let_def)

interpretation mem: reliable_cache "memoryCache p" memView memExpiry for p
proof (unfold_locales, goal_cases)
  case (1 cx k w v w')
  then show ?case by (auto dest!: memGet_result split: option.splits)
next
  case (2 cx k w e w')
  then have g: "memGet cx k w = (Inl e, w')" by simp
  then have "memView (store w) (now w) k = None" using memGet_result [OF g] by (auto split: option.splits)
  moreover have "now w \<le> now w'" using 2(3) memGet_frame [OF g] by (auto intro: now_mono)
  ultimately show ?case by (auto simp: memView_def liveItem_def split: option.splits if_splits)
next
  case (3 cx k w r w' t k')
  then have g: "memGet cx k w = (r, w')" by simp
  have "now w \<le> now w'" using 3(2) memGet_frame [OF g] by (auto intro: now_mono)
  with 3(3) show ?case by (auto intro: memGet_view [OF g])
next
  case (4 cx k v ttl w w' t)
  then show ?case by (auto simp: memSet_def memPut_view)
next
  case (5 cx k v ttl w q w' k' t)
  then show ?case by (auto simp: memSet_def memPut_view)
next
  case (8 t t' s k v)
  then show ?case by (auto simp: memView_def liveItem_def split: option.splits if_splits)
next
  case (12 cx k w r w')
  then show ?case by (auto dest!: memGet_frame memFixed_fields(3))
next
  case (13 cx k v ttl w q w')
  then show ?case using memPut_frame [of w k v ttl] by (auto simp: memSet_def dest!: memFixed_fields(3))
next
  case (15 cx k w v w')
  then show ?case by (auto dest!: memGet_result split: option.splits)
next
  case (16 cx k w r w' t k')
  then show ?case by (auto intro: memGet_view)
next
  case (17 cx k w e w')
  then show ?case by (auto dest!: memGet_result split: option.splits)
qed (auto simp: memDelete_view memSet_def memPut_frame dest: memGet_frame memDelete_frame memFixed_fields(3))

interpretation memo: observed_cache "memoryCache p" memView memExpiry for p
proof (unfold_locales, goal_cases)
  case (1 cx k w r w')
  then have g: "memGet cx k w = (r, w')" by simp
  from memGet_obs [OF g] memGet_result [OF g] show ?case
    by (auto simp: obs_hooks memConfig_def split: option.splits)
next
  case (2 cx k v ttl w q w')
  then show ?case by (auto simp: memSet_def memPut_frame)
next
  case (3 cx k w q w')
  then show ?case by (auto dest: memDelete_frame)
qed

section \<open>Well-formedness\<close>

text \<open>The map is finite (Go maps are) and every stored key carries the prefix.\<close>

definition memWf :: "('c, 'h) MemoryCache \<Rightarrow> bool" where
  "memWf c \<longleftrightarrow> finite (dom (items c)) \<and> dom (items c) \<subseteq> range (memKey c)"

lemma memWf_new: "memWf (NewMemory dflt opts)"
  by (simp add: memWf_def NewMemory_def Let_def)

lemma memWf_remove: "memWf c \<Longrightarrow> memWf (c\<lparr>items := (items c)(k := None)\<rparr>)"
  by (auto simp: memWf_def dom_def intro: finite_subset [of _ "dom (items c)"])

lemma memWf_insert: "memWf c \<Longrightarrow> memWf (c\<lparr>items := (items c)(memKey c k \<mapsto> it)\<rparr>)"
  by (auto simp: memWf_def)

lemma memLookup_wf: "memLookup k w = (r, w1) \<Longrightarrow> memWf (store w) \<Longrightarrow> memWf (store w1)"
  by (auto simp: memLookup_def Let_def timeNow_def memWf_remove split: option.splits if_splits)

lemma memPut_wf: "memWf (store w) \<Longrightarrow> memWf (store (memPut k v ttl w))"
  using memPut_items [of k v ttl w] by (auto simp: memWf_insert)

lemma memGetLoop_wf:
  "memGetLoop ks out w = (r, w1) \<Longrightarrow> memWf (store w) \<Longrightarrow>
   memWf (store w1) \<and> memFixed (store w1) = memFixed (store w) \<and> advances w w1"
proof (induction ks arbitrary: out w r w1)
  case (Cons k ks)
  obtain it w' where l: "memLookup k w = (it, w')" by force
  obtain out' hs ms w2 where
    g: "memGetLoop ks (case it of None \<Rightarrow> out | Some i \<Rightarrow> out(k \<mapsto> val i)) w' = ((out', hs, ms), w2)"
    by (metis surj_pair)
  from l g Cons.prems(1) have "w1 = w2" by (cases it) auto
  with Cons.IH [OF g] memLookup_frame [OF l] memLookup_wf [OF l Cons.prems(2)] show ?case
    by (auto intro: advances_trans)
qed simp

text \<open>The states a cache can get into: any sequence of operations from the empty cache.\<close>

inductive memReach :: "('c, 'h) MemoryCache \<Rightarrow> (('c, 'h) MemoryCache, 'h) world \<Rightarrow> bool"
  for c0 :: "('c, 'h) MemoryCache" where
  start: "store w = c0 \<Longrightarrow> memReach c0 w"
| get: "memReach c0 w \<Longrightarrow> memGet cx k w = (r, w') \<Longrightarrow> memReach c0 w'"
| set: "memReach c0 w \<Longrightarrow> memSet cx k v ttl w = (q, w') \<Longrightarrow> memReach c0 w'"
| delete: "memReach c0 w \<Longrightarrow> memDelete cx k w = (q, w') \<Longrightarrow> memReach c0 w'"
| getMany: "memReach c0 w \<Longrightarrow> memGetMany cx ks w = (rs, w') \<Longrightarrow> memReach c0 w'"
| setMany: "memReach c0 w \<Longrightarrow> memSetMany cx kvs ttl w = (q, w') \<Longrightarrow> memReach c0 w'"

lemma fold_hookMiss_store [simp]: "store (fold (hookMiss h) ks w) = store w"
  by (induction ks arbitrary: w) simp_all

lemma fold_hookHit_store [simp]: "store (fold (hookHit h) ks w) = store w"
  by (induction ks arbitrary: w) simp_all

lemma memPuts_wf:
  "memWf (store w) \<Longrightarrow>
   memWf (store (fold (\<lambda>(k, v). memPut k v ttl) xs w))
   \<and> memFixed (store (fold (\<lambda>(k, v). memPut k v ttl) xs w)) = memFixed (store w)"
proof (induction xs arbitrary: w)
  case (Cons x xs)
  from Cons.IH [of "memPut (fst x) (snd x) ttl w"] Cons.prems show ?case
    by (auto simp: memPut_wf memPut_frame split: prod.splits)
qed simp

lemma memReach_wf:
  "memReach c0 w \<Longrightarrow> memWf c0 \<Longrightarrow> memWf (store w) \<and> memFixed (store w) = memFixed c0"
proof (induction rule: memReach.induct)
  case (get w cx k r w')
  from get.hyps(2) show ?case
    using get by (cases rule: memGet_cases) (auto dest: memLookup_wf memLookup_frame)
next
  case (set w cx k v ttl q w')
  then show ?case by (auto simp: memSet_def memPut_wf memPut_frame)
next
  case (delete w cx k q w')
  then show ?case by (auto simp: memDelete_def Let_def memWf_remove)
next
  case (getMany w cx ks rs w')
  then show ?case
    by (auto simp: memGetMany_def split: prod.splits dest!: memGetLoop_wf)
next
  case (setMany w cx kvs ttl q w')
  obtain xs w1 where r: "rangeItems kvs w = (xs, w1)" by force
  with setMany.hyps(2) have "w' = fold (\<lambda>(k, v). memPut k v ttl) xs w1" by (simp add: memSetMany_def)
  with rangeItems_frame [OF r] setMany.IH [OF setMany.prems] memPuts_wf [of w1 ttl xs]
  show ?case by simp
qed simp

section \<open>Properties\<close>

text \<open>
  (C31) In every state any sequence of operations can reach from a new cache, the map is finite,
  holds only keys under the cache's prefix, and the configuration is the one it was built with.
\<close>

theorem memory_invariant:
  assumes "memReach (NewMemory dflt opts) w"
  shows "finite (dom (items (store w)))
       \<and> dom (items (store w)) \<subseteq> range (\<lambda>k. Prefix (buildOptions dflt opts) @ k)
       \<and> memConfig (store w) = memConfig (NewMemory dflt opts)"
proof -
  let ?c = "NewMemory dflt opts"
  have wf: "memWf (store w)" and fixed: "memFixed (store w) = memFixed ?c"
    using memReach_wf [OF assms memWf_new] by simp_all
  have "memKey ?c = (\<lambda>k. Prefix (buildOptions dflt opts) @ k)"
    by (simp add: memKey_def NewMemory_def Let_def fun_eq_iff)
  with wf memFixed_fields(1,3) [OF fixed] show ?thesis by (simp add: memWf_def)
qed


text \<open>A concrete cache for the worked instances.\<close>

definition demoMemory :: "(nat, event list) MemoryCache" where
  "demoMemory = NewMemory demoCodec [WithPrefix ''a:'', WithDefaultTTL minute, WithHooks recorder]"

lemma demoMemory_fields:
  "items demoMemory = Map.empty" "mcPrefix demoMemory = ''a:''" "mcDefaultTTL demoMemory = minute"
  "mcHooks demoMemory = recorder" "mcTTLJitter demoMemory = 0" "mcStaleTTL demoMemory = 0"
  "mcEarlyBeta demoMemory = 0" "mcNegativeTTL demoMemory = 0"
  by (simp_all add: demoMemory_def NewMemory_def buildOptions_def initialOptions_def Let_def
      WithPrefix_def WithDefaultTTL_def WithHooks_def maxJitter_value)

theorem memory_invariant_witness:
  "finite (dom (items (store (snd (memSet Background ''k'' [1] 0 (demoWorld 0 demoMemory []))))))"
proof -
  let ?w = "demoWorld 0 demoMemory []"
  have "memReach demoMemory ?w" by (rule memReach.start) simp
  then have "memReach demoMemory (snd (memSet Background ''k'' [1] 0 ?w))"
    by (rule memReach.set) (rule prod.collapse [symmetric])
  then show ?thesis
    using memory_invariant [of demoCodec "[WithPrefix ''a:'', WithDefaultTTL minute, WithHooks recorder]"]
    by (simp add: demoMemory_def)
qed



text \<open>
  A read fires exactly one hook, \<open>OnHit\<close> with the logical key when the key is present and
  \<open>OnMiss\<close> otherwise, leaves the content visible at that instant and later unchanged, and a
  missed key is no longer stored.
\<close>

theorem memory_get_effects:
  assumes "memGet cx k w = (r, w')"
  shows "obs w' = obs (if memView (store w) (now w) k = None
            then hookMiss (mcHooks (store w)) k w else hookHit (mcHooks (store w)) k w)
       \<and> (\<forall>t k'. now w \<le> t \<longrightarrow> memView (store w') t k' = memView (store w) t k')
       \<and> (memView (store w) (now w) k = None \<longrightarrow> items (store w') (memKey (store w') k) = None)"
  using memGet_obs [OF assms] memGet_reaps [OF assms] memGet_view [OF assms] by blast

theorem memory_get_effects_witness:
  "obs (snd (memGet Background ''k'' (demoWorld 0 demoMemory []))) = [EMiss ''k'']"
proof -
  let ?w = "demoWorld 0 demoMemory []"
  obtain r w' where g: "memGet Background ''k'' ?w = (r, w')" by force
  have "memView demoMemory (now ?w) ''k'' = None" by (simp add: memView_def demoMemory_fields)
  with memory_get_effects [OF g] g show ?thesis
    by (simp add: demoMemory_fields hook_defs recorder_def)
qed

text \<open>
  Worlds for the worked instances of the later theories: the empty cache, and one with a single
  entry under the key \<open>k\<close>; \<open>f\<close> adjusts the configuration.
\<close>

definition demoStore :: "((nat, event list) MemoryCache \<Rightarrow> (nat, event list) MemoryCache) \<Rightarrow>
    bytes option \<Rightarrow> ((nat, event list) MemoryCache, event list) world" where
  "demoStore f b = demoWorld 0 ((f demoMemory)\<lparr>items := (case b of None \<Rightarrow> Map.empty
     | Some v \<Rightarrow> [''a:k'' \<mapsto> \<lparr>val = v, deadline = zeroTime\<rparr>])\<rparr>) []"

lemma now_demoWorld [simp]: "now (demoWorld u s h) = 1700000000000000000"
  by (simp add: now_def)

lemma demoStore_simps [simp]:
  "rt (demoStore f b) = demoRuntime 0" "now (demoStore f b) = 1700000000000000000"
  "reads (demoStore f b) = 0" "obs (demoStore f b) = []"
  by (simp_all add: demoStore_def)

lemma demoStore_view:
  "mcPrefix (f demoMemory) = ''a:'' \<Longrightarrow> memView (store (demoStore f b)) t ''k'' = b"
  "memConfig (store (demoStore f b)) = memConfig (f demoMemory)"
  "mcHooks (store (demoStore f b)) = mcHooks (f demoMemory)"
  by (cases b; simp add: demoStore_def memView_def memKey_def liveItem_def isZero_def)
    (simp_all add: demoStore_def memConfig_def)

lemma demoConfig: "memConfig demoMemory = \<lparr>hooks = recorder, negativeTTL = 0, defaultTTL = minute,
    staleTTL = 0, earlyRefreshBeta = 0, ttlJitter = 0\<rparr>"
  by (simp add: memConfig_def demoMemory_fields)

lemma demoStore_views:
  "mcPrefix (f demoMemory) = ''a:'' \<Longrightarrow>
   memView (store (demoStore f b)) t k = (if k = ''k'' then b else None)"
  by (cases b) (auto simp add: demoStore_def memView_def memKey_def liveItem_def isZero_def)

text \<open>The empty cache under a clock that stands still.\<close>

definition stillWorld :: "((nat, event list) MemoryCache, event list) world" where
  "stillWorld = (demoStore id None)\<lparr>rt := (demoRuntime 0)\<lparr>clock := (\<lambda>_. 1700000000000000000)\<rparr>\<rparr>"

lemma stillWorld_simps [simp]:
  "clock (rt stillWorld) n = 1700000000000000000" "now stillWorld = 1700000000000000000"
  "memView (store stillWorld) t k = None" "memConfig (store stillWorld) = memConfig demoMemory"
  using demoStore_views [of id None] demoStore_view(2) [of id None]
  by (simp_all add: stillWorld_def now_def demoMemory_fields)

lemma stillWorld_wf [simp]: "wfRuntime (rt stillWorld)"
  using wfRuntime_demo_zero by (simp add: stillWorld_def wfRuntime_def mono_def)

end
