(* ===== verification/GetOrSet.thy ===== *)
theory GetOrSet
  imports Loading Memory
begin

text \<open>
  cache.go: \<open>GetOrSet\<close> and \<open>GetOrSetWithCodec\<close>, the cache-aside helper. A call is a lookup, and on a
  miss a flight (theory Loading) whose bytes it decodes. A call that serves a stale or
  almost stale entry also asks for a background refresh flight; the request is part of the
  call's result, and \<open>runRefresh\<close> is what the flight does when it runs.
\<close>

section \<open>The helper\<close>

text \<open>\<open>fmt.Errorf("%w: %s", ErrNotFound, key)\<close>.\<close>

definition notFoundError :: "key \<Rightarrow> gerror" where
  "notFoundError k = Wrapf ''%w: %s'' [Str k] ErrNotFound"

text \<open>The first half: serve the entry (and perhaps ask for a refresh), or go on to load.\<close>

datatype 'v lookup = Serve "gerror + 'v" "flightOpts option" | GoLoad

definition lookupPhase :: "ctx \<Rightarrow> ('s, 'h) Cache \<Rightarrow> key \<Rightarrow> duration \<Rightarrow> 'v Codec \<Rightarrow> 'h cacheConfig \<Rightarrow>
    ('s, 'h) world \<Rightarrow> 'v lookup \<times> ('s, 'h) world" where
  "lookupPhase cx c k ttl codec cfg w = (case cGet c cx k w of
       (Inl _, w1) \<Rightarrow> (GoLoad, w1)
     | (Inr data, w1) \<Rightarrow>
         if isNegativeEntry data then (Serve (Inl (notFoundError k)) None, w1)
         else case parseStored cfg data of (env, payload) \<Rightarrow>
           (case Unmarshal codec payload of
              Inr v \<Rightarrow> (case timeNow w1 of (t, w2) \<Rightarrow>
                if stale env t then (Serve (Inr v) (Some (refreshOpts ttl cfg env)), w2)
                else case shouldEarlyRefresh env t (earlyRefreshBeta cfg) w2 of (early, w3) \<Rightarrow>
                  (Serve (Inr v) (if early then Some (refreshOpts ttl cfg env) else None), w3))
            | Inl e \<Rightarrow>
                (GoLoad, snd (cDelete c cx k (hookError (hooks cfg) OpDecode k e w1)))))"

text \<open>The second half: interpret the bytes a flight returned.\<close>

definition finishFlight :: "'v Codec \<Rightarrow> 'h cacheConfig \<Rightarrow> key \<Rightarrow> gerror + bytes \<Rightarrow> gerror + 'v" where
  "finishFlight codec cfg k res = (case res of
       Inl e \<Rightarrow> Inl e
     | Inr data \<Rightarrow>
         if isNegativeEntry data then Inl (notFoundError k)
         else case Unmarshal codec (snd (parseStored cfg data)) of
             Inl e \<Rightarrow> Inl (Wrapf ''cachekit: decode %q: %w'' [Str k] e)
           | Inr v \<Rightarrow> Inr v)"

definition getOrSetWithCodec :: "'v Codec \<Rightarrow> ctx \<Rightarrow> ('s, 'h) Cache \<Rightarrow> key \<Rightarrow> duration \<Rightarrow> 'v Codec option \<Rightarrow>
    ('v, 's, 'h) loader \<Rightarrow> select \<Rightarrow> ('s, 'h) world \<Rightarrow>
    ((gerror + 'v) \<times> flightOpts option) \<times> ('s, 'h) world" where
  "getOrSetWithCodec defaultCodec cx c k ttl codecOpt loader sel w =
     (let codec = (case codecOpt of None \<Rightarrow> defaultCodec | Some x \<Rightarrow> x); cfg = configOf c w in
      case lookupPhase cx c k ttl codec cfg w of
        (Serve r req, w1) \<Rightarrow> ((r, req), w1)
      | (GoLoad, w1) \<Rightarrow>
          (case groupDo cx sel (loadAndStore cx c k ttl codec loader cfg missOpts) w1 of (res, w2) \<Rightarrow>
            ((finishFlight codec cfg k res, None), w2)))"

definition getOrSet :: "'v Codec \<Rightarrow> ctx \<Rightarrow> ('s, 'h) Cache \<Rightarrow> key \<Rightarrow> duration \<Rightarrow>
    ('v, 's, 'h) loader \<Rightarrow> select \<Rightarrow> ('s, 'h) world \<Rightarrow>
    ((gerror + 'v) \<times> flightOpts option) \<times> ('s, 'h) world" where
  "getOrSet defaultCodec cx c k ttl loader sel w =
     getOrSetWithCodec defaultCodec cx c k ttl (Some defaultCodec) loader sel w"

text \<open>A requested refresh flight, run with the configuration its caller had read.\<close>

definition runRefresh :: "ctx \<Rightarrow> ('s, 'h) Cache \<Rightarrow> key \<Rightarrow> duration \<Rightarrow> 'v Codec \<Rightarrow>
    ('v, 's, 'h) loader \<Rightarrow> 'h cacheConfig \<Rightarrow> flightOpts \<Rightarrow> ('s, 'h) world \<Rightarrow>
    (gerror + bytes) \<times> ('s, 'h) world" where
  "runRefresh base c k ttl codec loader cfg opts w =
     flightBody (refreshBody base c k ttl codec loader cfg opts) w"

section \<open>Facts that hold for every cache that keeps the contract\<close>

context cache_contract begin

lemma absent_later:
  assumes "view (store w) (now w) k = None" "wfRuntime (rt w)" "advances w w'"
    and "\<forall>t k'. now w \<le> t \<longrightarrow> view (store w') t k' = view (store w) t k'"
  shows "view (store w') (now w') k = None"
proof -
  have "now w \<le> now w'" using assms(2,3) by (rule now_mono)
  then have "view (store w') (now w') k = view (store w) (now w') k" using assms(4) by blast
  with assms(1) \<open>now w \<le> now w'\<close> view_lapse show ?thesis by (metis not_None_eq)
qed

end

context reliable_cache begin

text \<open>Looking up, or re-checking, an absent key: the next step is to load.\<close>

lemma recheck_absent:
  assumes "view (store w) (now w) k = None"
  obtains w' where "flightRecheck c k codec cfg opts fctx w = (None, w')" "advances w w'"
    "\<forall>t k'. now w \<le> t \<longrightarrow> view (store w') t k' = view (store w) t k'"
proof -
  obtain e w' where g: "cGet c fctx k w = (Inl e, w')" using assms by (rule get_absent)
  from that [of w'] g get_advances [OF g] get_steady [OF g] show ?thesis
    by (simp add: flightRecheck_def)
qed

lemma lookup_absent:
  assumes "view (store w) (now w) k = None"
  obtains w' where "lookupPhase cx c k ttl codec cfg w = (GoLoad, w')" "advances w w'"
    "\<forall>t k'. now w \<le> t \<longrightarrow> view (store w') t k' = view (store w) t k'"
    "configOf c w' = configOf c w"
proof -
  obtain e w' where g: "cGet c cx k w = (Inl e, w')" using assms by (rule get_absent)
  from that [of w'] g get_advances [OF g] get_steady [OF g] get_config [OF g] show ?thesis
    by (simp add: lookupPhase_def)
qed

text \<open>A readable entry is served; nothing in the cache changes.\<close>

lemma lookup_present:
  assumes "view (store w) (now w) k = Some data" "\<not> isNegativeEntry data"
    and "parseStored cfg data = (env, pl)" "Unmarshal codec pl = Inr v"
  obtains req w' t where "lookupPhase cx c k ttl codec cfg w = (Serve (Inr v) req, w')" "advances w w'"
    "\<forall>t k'. now w \<le> t \<longrightarrow> view (store w') t k' = view (store w) t k'"
    "configOf c w' = configOf c w"
    "stale env t \<longrightarrow> req = Some (refreshOpts ttl cfg env)"
    "req = None \<or> req = Some (refreshOpts ttl cfg env)"
    "earlyRefreshBeta cfg \<le> 0 \<or> isZero (freshUntil env) \<longrightarrow> \<not> stale env t \<longrightarrow> req = None"
    "wfRuntime (rt w) \<longrightarrow> now w \<le> t"
proof -
  obtain w1 where g: "cGet c cx k w = (Inr data, w1)" using assms(1) by (rule get_present)
  obtain t w2 where t: "timeNow w1 = (t, w2)" by force
  obtain early w3 where e: "shouldEarlyRefresh env t (earlyRefreshBeta cfg) w2 = (early, w3)" by force
  let ?req = "if stale env t \<or> early then Some (refreshOpts ttl cfg env) else None"
  let ?w = "if stale env t then w2 else w3"
  have res: "lookupPhase cx c k ttl codec cfg w = (Serve (Inr v) ?req, ?w)"
    using assms g t e by (simp add: lookupPhase_def)
  note f = timeNow_frame [OF t] shouldEarlyRefresh_frame [OF e]
  have st: "store ?w = store w1" using f by simp
  have adv: "advances w ?w" using f get_advances [OF g] by (auto intro: advances_trans)
  have cfg: "configOf c ?w = configOf c w"
    using configOf_cong [of ?w w1 c] st get_config [OF g] by simp
  have off: "earlyRefreshBeta cfg \<le> 0 \<or> isZero (freshUntil env) \<Longrightarrow> \<not> early"
    using e early_refresh_off [of "earlyRefreshBeta cfg" env t w2] by auto
  have late: "wfRuntime (rt w) \<longrightarrow> now w \<le> t"
    using now_mono [OF _ get_advances [OF g]] f by auto
  show ?thesis
    by (rule that [OF res adv _ cfg, of t]) (use get_steady [OF g] st off late in \<open>auto\<close>)
qed

lemma lookup_negative:
  assumes "view (store w) (now w) k = Some negativeMarker"
  obtains w' where "lookupPhase cx c k ttl codec cfg w = (Serve (Inl (notFoundError k)) None, w')"
    "advances w w'" "\<forall>t k'. now w \<le> t \<longrightarrow> view (store w') t k' = view (store w) t k'"
proof -
  obtain w1 where g: "cGet c cx k w = (Inr negativeMarker, w1)" using assms by (rule get_present)
  from that [of w1] g get_advances [OF g] get_steady [OF g] show ?thesis
    by (simp add: lookupPhase_def)
qed

end

context reliable_cache begin

text \<open>An undecodable entry is reported, deleted, and loaded over.\<close>

lemma lookup_undecodable:
  assumes "view (store w) (now w) k = Some data" "\<not> isNegativeEntry data"
    and "Unmarshal codec (snd (parseStored cfg data)) = Inl e"
  obtains w1 w' where "cGet c cx k w = (Inr data, w1)"
    "cDelete c cx k (hookError (hooks cfg) OpDecode k e w1) = (None, w')"
    "lookupPhase cx c k ttl codec cfg w = (GoLoad, w')" "advances w w'"
    "\<forall>t. view (store w') t k = None" "configOf c w' = configOf c w"
    "\<forall>t k'. now w \<le> t \<longrightarrow> k' \<noteq> k \<longrightarrow> view (store w') t k' = view (store w) t k'"
proof -
  obtain w1 where g: "cGet c cx k w = (Inr data, w1)" using assms(1) by (rule get_present)
  let ?w1 = "hookError (hooks cfg) OpDecode k e w1"
  obtain w' where d: "cDelete c cx k ?w1 = (None, w')" by (rule delete_done)
  have res: "lookupPhase cx c k ttl codec cfg w = (GoLoad, w')"
    using assms g d by (cases "parseStored cfg data") (simp add: lookupPhase_def)
  have adv: "advances w w'"
    using get_advances [OF g] delete_advances [OF d] by (metis advances_trans hook_advances(3))
  have cfg: "configOf c w' = configOf c w"
    using delete_config [OF d] get_config [OF g] configOf_cong [of ?w1 w1 c] by simp
  show ?thesis
    by (rule that [OF g d res adv _ cfg])
      (simp_all add: delete_view [OF d] delete_other [OF d] get_steady [OF g])
qed

text \<open>The store phase after a successful load.\<close>

lemma storeLoaded_ret:
  assumes "Marshal codec v = Inr pl"
  obtains data st w1 w' where "packForStore pl ttl d cfg w = ((data, st), w1)"
    "storeLoaded c k ttl codec cfg fctx (Ret (v, d)) w = (Ret data, w')" "advances w w'"
    "\<forall>t. view (store w') t k = (if livesUntil (expiry data st w1) t then Some data else None)"
    "\<forall>t k'. k' \<noteq> k \<longrightarrow> view (store w') t k' = view (store w) t k'" "configOf c w' = configOf c w"
proof -
  obtain data st w1 where pk: "packForStore pl ttl d cfg w = ((data, st), w1)" by (metis surj_pair)
  obtain w' where st: "cSet c fctx k data st w1 = (None, w')" by (rule set_done)
  note f = packForStore_frame [OF pk]
  have res: "storeLoaded c k ttl codec cfg fctx (Ret (v, d)) w = (Ret data, w')"
    using assms pk st by (simp add: storeLoaded_def)
  have adv: "advances w w'" using f set_advances [OF st] by (blast intro: advances_trans)
  have cf: "configOf c w' = configOf c w"
    using set_config [OF st] f configOf_cong [of w1 w c] by simp
  show ?thesis
    by (rule that [OF pk res adv _ _ cf]) (simp_all add: set_view [OF st] set_other [OF st] f)
qed

lemma storeLoaded_negative:
  assumes "0 < sint (negativeTTL cfg)" "errorsIs e ErrNotFound"
  obtains w' where
    "storeLoaded c k ttl codec cfg fctx (Err e) w = (Ret negativeMarker, w')" "advances w w'"
    "\<forall>t. view (store w') t k =
       (if livesUntil (expiry negativeMarker (negativeTTL cfg) w) t then Some negativeMarker else None)"
    "configOf c w' = configOf c w"
proof -
  obtain w' where st: "cSet c fctx k negativeMarker (negativeTTL cfg) w = (None, w')" by (rule set_done)
  have res: "storeLoaded c k ttl codec cfg fctx (Err e) w = (Ret negativeMarker, w')"
    using assms st by (simp add: storeLoaded_def)
  show ?thesis
    by (rule that [OF res set_advances [OF st] _ set_config [OF st]]) (simp add: set_view [OF st])
qed

text \<open>A flight over an absent key, up to the point where the loader has returned.\<close>

lemma flight_reaches_loader:
  assumes "view (store w) (now w) k = None" "wfRuntime (rt w)" "loads loader r"
  obtains fctx res w3 where
    "loadAndStore base c k ttl codec loader cfg opts w = storeLoaded c k ttl codec cfg fctx res w3"
    "case r of Ret v \<Rightarrow> \<exists>d. res = Ret (v, d) | Err e \<Rightarrow> res = Err e | Panic q \<Rightarrow> res = Panic q"
    "advances w w3" "\<forall>t k'. now w3 \<le> t \<longrightarrow> view (store w3) t k' = view (store w) t k'"
    "configOf c w3 = configOf c w"
proof -
  obtain fctx w1 where fc: "flightContext base opts w = (fctx, w1)" by force
  note f1 = flightContext_frame [OF fc]
  have "view (store w1) (now w1) k = None"
    by (rule absent_later [OF assms(1,2)]) (simp_all add: f1)
  then obtain e w2 where g: "cGet c fctx k w1 = (Inl e, w2)" by (rule get_absent)
  then have rc: "flightRecheck c k codec cfg opts fctx w1 = (None, w2)" by (simp add: flightRecheck_def)
  obtain res w3 where tl: "timedLoad k cfg loader fctx w2 = (res, w3)" by force
  note f3 = timedLoad_outcome [OF assms(3) tl]
  have eq: "loadAndStore base c k ttl codec loader cfg opts w = storeLoaded c k ttl codec cfg fctx res w3"
    by (simp add: loadAndStore_def fc rc tl)
  have adv1: "advances w1 w3" using get_advances [OF g] f3 by (blast intro: advances_trans)
  then have adv: "advances w w3" using f1 by (blast intro: advances_trans)
  have "wfRuntime (rt w1)" using assms(2) f1 by (simp add: advances_def)
  then have le: "now w1 \<le> now w3" using adv1 by (rule now_mono)
  have vw: "view (store w3) t k' = view (store w) t k'" if "now w3 \<le> t" for t k'
    using that le f3 get_steady [OF g, of t k'] f1 by simp
  have cf: "configOf c w3 = configOf c w"
    using configOf_cong [of w3 w2 c] f3 get_config [OF g] configOf_cong [of w1 w c] f1 by simp
  show ?thesis by (rule that [OF eq _ adv _ cf]) (use f3 vw in simp_all)
qed

end

lemma getOrSetWithCodec_unfold:
  "getOrSetWithCodec dflt cx c k ttl co loader sel w =
     (let codec = effectiveCodec dflt co; cfg = configOf c w in
      case lookupPhase cx c k ttl codec cfg w of
        (Serve r req, w1) \<Rightarrow> ((r, req), w1)
      | (GoLoad, w1) \<Rightarrow>
          (case groupDo cx sel (loadAndStore cx c k ttl codec loader cfg missOpts) w1 of (res, w2) \<Rightarrow>
            ((finishFlight codec cfg k res, None), w2)))"
  by (simp add: getOrSetWithCodec_def effectiveCodec_def)

text \<open>What a call returns once its flight has ended with the given outcome.\<close>

definition finishOutcome :: "'v Codec \<Rightarrow> 'h cacheConfig \<Rightarrow> key \<Rightarrow> bytes outcome \<times> ('s, 'h) world \<Rightarrow>
    ((gerror + 'v) \<times> flightOpts option) \<times> ('s, 'h) world" where
  "finishOutcome codec cfg k out = (case out of
      (Ret data, w) \<Rightarrow> ((finishFlight codec cfg k (Inr data), None), w)
    | (Err e, w) \<Rightarrow> ((Inl e, None), w)
    | (Panic q, w) \<Rightarrow> ((Inl (Errorf ''cachekit: loader panic: %v'' [Str q]), None), w))"

text \<open>The outcome of the timed loader call, for a loader that ends with \<open>r\<close>.\<close>

definition loadedAs :: "'v outcome \<Rightarrow> ('v \<times> duration) outcome \<Rightarrow> bool" where
  "loadedAs r res \<longleftrightarrow> (case r of Ret v \<Rightarrow> \<exists>d. res = Ret (v, d)
     | Err e \<Rightarrow> res = Err e | Panic q \<Rightarrow> res = Panic q)"

lemma loadedAs_simps [simp]:
  "loadedAs (Ret v) res \<longleftrightarrow> (\<exists>d. res = Ret (v, d))" "loadedAs (Err e) res \<longleftrightarrow> res = Err e"
  "loadedAs (Panic q) res \<longleftrightarrow> res = Panic q"
  by (simp_all add: loadedAs_def)

context reliable_cache begin

lemma lookup_unreadable:
  assumes "unreadable codec cfg (view (store w) (now w) k)" "wfRuntime (rt w)"
  obtains w' where "lookupPhase cx c k ttl codec cfg w = (GoLoad, w')" "advances w w'"
    "view (store w') (now w') k = None" "configOf c w' = configOf c w"
    "\<forall>t k'. now w' \<le> t \<longrightarrow> k' \<noteq> k \<longrightarrow> view (store w') t k' = view (store w) t k'"
proof (cases "view (store w) (now w) k")
  case None
  obtain w' where w': "lookupPhase cx c k ttl codec cfg w = (GoLoad, w')" "advances w w'"
    "\<forall>t k'. now w \<le> t \<longrightarrow> view (store w') t k' = view (store w) t k'" "configOf c w' = configOf c w"
    by (rule lookup_absent [where cx = cx and ttl = ttl and codec = codec and cfg = cfg, OF None])
  have le: "now w \<le> now w'" using assms(2) w'(2) by (rule now_mono)
  show ?thesis
    by (rule that [OF w'(1,2) absent_later [OF None assms(2) w'(2,3)] w'(4)])
      (use w'(3) le in \<open>force\<close>)+
next
  case (Some data)
  with assms(1) obtain e where u: "\<not> isNegativeEntry data"
    "Unmarshal codec (snd (parseStored cfg data)) = Inl e" by (auto simp: unreadable_def)
  obtain w1 w' where "cGet c cx k w = (Inr data, w1)"
    "cDelete c cx k (hookError (hooks cfg) OpDecode k e w1) = (None, w')"
    and w': "lookupPhase cx c k ttl codec cfg w = (GoLoad, w')" "advances w w'"
    "\<forall>t. view (store w') t k = None" "configOf c w' = configOf c w"
    "\<forall>t k'. now w \<le> t \<longrightarrow> k' \<noteq> k \<longrightarrow> view (store w') t k' = view (store w) t k'"
    by (rule lookup_undecodable [where cx = cx and ttl = ttl, OF Some u])
  have le: "now w \<le> now w'" using assms(2) w'(2) by (rule now_mono)
  show ?thesis by (rule that [OF w'(1,2) _ w'(4)]) (use w'(3,5) le in force)+
qed

text \<open>Everything up to the loader's return, on a call that has to load.\<close>

lemma miss_reaches_loader:
  assumes "unreadable codec cfg (view (store w) (now w) k)" "wfRuntime (rt w)" "loads loader r"
    and "codec = effectiveCodec dflt co" "cfg = configOf c w"
  obtains fctx res w3 where
    "getOrSetWithCodec dflt cx c k ttl co loader FlightResult w =
       finishOutcome codec cfg k (storeLoaded c k ttl codec cfg fctx res w3)"
    "loadedAs r res" "advances w w3" "view (store w3) (now w3) k = None" "configOf c w3 = cfg"
    "\<forall>t k'. now w3 \<le> t \<longrightarrow> k' \<noteq> k \<longrightarrow> view (store w3) t k' = view (store w) t k'"
proof -
  obtain w1 where l: "lookupPhase cx c k ttl codec cfg w = (GoLoad, w1)" "advances w w1"
    "view (store w1) (now w1) k = None" "configOf c w1 = configOf c w"
    "\<forall>t k'. now w1 \<le> t \<longrightarrow> k' \<noteq> k \<longrightarrow> view (store w1) t k' = view (store w) t k'"
    by (rule lookup_unreadable [where cx = cx and ttl = ttl, OF assms(1,2)])
  have wf1: "wfRuntime (rt w1)" using assms(2) l(2) by (simp add: advances_def)
  obtain fctx res w3 where f:
    "loadAndStore cx c k ttl codec loader cfg missOpts w1 = storeLoaded c k ttl codec cfg fctx res w3"
    "case r of Ret v \<Rightarrow> \<exists>d. res = Ret (v, d) | Err e \<Rightarrow> res = Err e | Panic q \<Rightarrow> res = Panic q"
    "advances w1 w3" "\<forall>t k'. now w3 \<le> t \<longrightarrow> view (store w3) t k' = view (store w1) t k'"
    "configOf c w3 = configOf c w1"
    by (rule flight_reaches_loader [where base = cx and ttl = ttl and codec = codec and cfg = cfg and opts = missOpts, OF l(3) wf1 assms(3)])
  have le: "now w1 \<le> now w3" using wf1 f(3) by (rule now_mono)
  have eq: "getOrSetWithCodec dflt cx c k ttl co loader FlightResult w =
       finishOutcome codec cfg k (storeLoaded c k ttl codec cfg fctx res w3)"
    using l(1) f(1) assms(4,5)
    by (auto simp: getOrSetWithCodec_unfold Let_def groupDo_def flightBody_def finishFlight_def
        finishOutcome_def split: prod.splits outcome.splits)
  have "view (store w3) (now w3) k = view (store w1) (now w3) k" using f(4) by simp
  then have absent: "view (store w3) (now w3) k = None"
    using l(3) le view_lapse [of "now w1" "now w3" "store w1" k] by (metis not_None_eq)
  show ?thesis
    by (rule that [OF eq f(2) [folded loadedAs_def] advances_trans [OF l(2) f(3)] absent])
      (use f(4,5) l(4,5) le assms(5) in \<open>force\<close>)+
qed

end

context reliable_cache begin

text \<open>The complete load, for a loader that returns a value the codec can round-trip.\<close>

lemma miss_loads:
  assumes "unreadable codec cfg (view (store w) (now w) k)" "wfRuntime (rt w)" "loads loader (Ret v)"
    and "codec = effectiveCodec dflt co" "cfg = configOf c w"
    and "Marshal codec v = Inr pl" "Unmarshal codec pl = Inr v"
    and "envelopeEnabled cfg \<or> \<not> isNegativeEntry pl"
  obtains d data st w3 w4 w' where
    "getOrSetWithCodec dflt cx c k ttl co loader FlightResult w = ((Inr v, None), w')"
    "advances w w3" "configOf c w3 = cfg" "packForStore pl ttl d cfg w3 = ((data, st), w4)"
    "advances w w'" "configOf c w' = cfg"
    "\<forall>t. view (store w') t k = (if livesUntil (expiry data st w4) t then Some data else None)"
    "\<not> isNegativeEntry data" "snd (parseStored cfg data) = pl"
    "\<forall>t k'. now w' \<le> t \<longrightarrow> k' \<noteq> k \<longrightarrow> view (store w') t k' = view (store w) t k'"
proof -
  obtain fctx ld w3 where g:
    "getOrSetWithCodec dflt cx c k ttl co loader FlightResult w =
       finishOutcome codec cfg k (storeLoaded c k ttl codec cfg fctx ld w3)"
    and ld: "loadedAs (Ret v) ld" and adv: "advances w w3"
    and abs: "view (store w3) (now w3) k = None" and cfg3: "configOf c w3 = cfg"
    and oth: "\<forall>t k'. now w3 \<le> t \<longrightarrow> k' \<noteq> k \<longrightarrow> view (store w3) t k' = view (store w) t k'"
    by (rule miss_reaches_loader [where cx = cx and ttl = ttl, OF assms(1-5)])
  from ld obtain d where d: "ld = Ret (v, d)" by auto
  obtain data st w4 w5 where pk: "packForStore pl ttl d cfg w3 = ((data, st), w4)"
    and sl: "storeLoaded c k ttl codec cfg fctx (Ret (v, d)) w3 = (Ret data, w5)"
    and adv5: "advances w3 w5"
    and vw: "\<forall>t. view (store w5) t k = (if livesUntil (expiry data st w4) t then Some data else None)"
    and oth5: "\<forall>t k'. k' \<noteq> k \<longrightarrow> view (store w5) t k' = view (store w3) t k'"
    and cfg5: "configOf c w5 = configOf c w3"
    by (rule storeLoaded_ret [where ttl = ttl and d = d and cfg = cfg and w = w3 and k = k and fctx = fctx, OF assms(6)])
  have neg: "\<not> isNegativeEntry data" using packForStore_not_negative [OF pk assms(8)] .
  have pay: "snd (parseStored cfg data) = pl" using packForStore_payload [OF pk] .
  have res: "getOrSetWithCodec dflt cx c k ttl co loader FlightResult w = ((Inr v, None), w5)"
    using g d sl neg pay assms(7) by (auto simp: finishFlight_def finishOutcome_def)
  have "wfRuntime (rt w3)" using assms(2) adv by (simp add: advances_def)
  then have le: "now w3 \<le> now w5" using adv5 by (rule now_mono)
  show ?thesis
    by (rule that [OF res adv cfg3 pk advances_trans [OF adv adv5] _ vw neg pay])
      (use cfg3 cfg5 oth oth5 le in \<open>force\<close>)+
qed

text \<open>A loader that fails or panics leaves the key absent.\<close>

lemma miss_fails:
  assumes "unreadable codec cfg (view (store w) (now w) k)" "wfRuntime (rt w)" "loads loader r"
    and "codec = effectiveCodec dflt co" "cfg = configOf c w"
    and "r = Err e \<and> \<not> (0 < sint (negativeTTL cfg) \<and> errorsIs e ErrNotFound)
       \<or> r = Panic q \<and> e = Errorf ''cachekit: loader panic: %v'' [Str q]"
  obtains w' where
    "getOrSetWithCodec dflt cx c k ttl co loader FlightResult w = ((Inl e, None), w')"
    "advances w w'" "\<forall>t. now w' \<le> t \<longrightarrow> view (store w') t k = None"
proof -
  obtain fctx ld w3 where g:
    "getOrSetWithCodec dflt cx c k ttl co loader FlightResult w =
       finishOutcome codec cfg k (storeLoaded c k ttl codec cfg fctx ld w3)"
    and ld: "loadedAs r ld" and adv: "advances w w3"
    and abs: "view (store w3) (now w3) k = None" and cfg3: "configOf c w3 = cfg"
    and oth: "\<forall>t k'. now w3 \<le> t \<longrightarrow> k' \<noteq> k \<longrightarrow> view (store w3) t k' = view (store w) t k'"
    by (rule miss_reaches_loader [where cx = cx and ttl = ttl, OF assms(1-5)])
  have "getOrSetWithCodec dflt cx c k ttl co loader FlightResult w = ((Inl e, None), w3)"
    using assms(6) g ld by (auto simp: storeLoaded_def finishOutcome_def)
  moreover have "view (store w3) t k = None" if "now w3 \<le> t" for t
    using abs view_lapse [OF that] by (metis not_None_eq)
  ultimately show ?thesis using adv that by simp
qed

text \<open>A loader that reports \<open>ErrNotFound\<close> leaves a negative entry, when that is enabled.\<close>

lemma miss_not_found:
  assumes "unreadable codec cfg (view (store w) (now w) k)" "wfRuntime (rt w)" "loads loader (Err e)"
    and "codec = effectiveCodec dflt co" "cfg = configOf c w"
    and "0 < sint (negativeTTL cfg)" "errorsIs e ErrNotFound"
  obtains w3 w' where
    "getOrSetWithCodec dflt cx c k ttl co loader FlightResult w = ((Inl (notFoundError k), None), w')"
    "advances w w3" "configOf c w3 = cfg"
    "\<forall>t. view (store w') t k =
       (if livesUntil (expiry negativeMarker (negativeTTL cfg) w3) t then Some negativeMarker else None)"
proof -
  obtain fctx ld w3 where g:
    "getOrSetWithCodec dflt cx c k ttl co loader FlightResult w =
       finishOutcome codec cfg k (storeLoaded c k ttl codec cfg fctx ld w3)"
    and ld: "loadedAs (Err e) ld" and adv: "advances w w3"
    and abs: "view (store w3) (now w3) k = None" and cfg3: "configOf c w3 = cfg"
    and oth: "\<forall>t k'. now w3 \<le> t \<longrightarrow> k' \<noteq> k \<longrightarrow> view (store w3) t k' = view (store w) t k'"
    by (rule miss_reaches_loader [where cx = cx and ttl = ttl, OF assms(1-5)])
  obtain w' where sl: "storeLoaded c k ttl codec cfg fctx (Err e) w3 = (Ret negativeMarker, w')"
    and "advances w3 w'"
    and vw: "\<forall>t. view (store w') t k =
       (if livesUntil (expiry negativeMarker (negativeTTL cfg) w3) t then Some negativeMarker else None)"
    and "configOf c w' = configOf c w3"
    by (rule storeLoaded_negative [where k = k and ttl = ttl and codec = codec and fctx = fctx and w = w3, OF assms(6,7)])
  from g ld sl
  have res: "getOrSetWithCodec dflt cx c k ttl co loader FlightResult w = ((Inl (notFoundError k), None), w')"
    by (simp add: finishFlight_def finishOutcome_def)
  show ?thesis by (rule that [OF res adv cfg3 vw])
qed

end

section \<open>How long a stored value lives in the memory cache\<close>

lemma memExpiry_packed:
  assumes "packForStore p ttl d (memConfig (store w)) w = ((data, st), w1)" "wfRuntime (rt w)"
    and "mcTTLJitter (store w) \<le> 0" "0 \<le> now w"
    and "eff = (if sint ttl \<le> 0 then mcDefaultTTL (store w) else ttl)"
    and "0 \<le> sint (mcStaleTTL (store w))" "sint eff + sint (mcStaleTTL (store w)) < 2 ^ 63"
  shows "livesUntil (memExpiry data st w1) (now w) \<and>
    (\<forall>t. t < now w + sint eff \<longrightarrow> livesUntil (memExpiry data st w1) t)"
proof -
  note f = packForStore_frame [OF assms(1)]
  have le: "now w \<le> now w1" using assms(2) f by (intro now_mono) auto
  have n1: "0 \<le> now w1" using le assms(4) by simp
  show ?thesis
  proof (cases "envelopeEnabled (memConfig (store w))")
    case False
    with assms(1) have "data = p" "st = ttl" "w1 = w" by (simp_all add: packForStore_def)
    with memExpiry_plain [OF _ assms(4,5), of data] assms(3) show ?thesis
      by (auto simp: livesUntil_def)
  next
    case True
    have fresh: "eff = fst (applyJitter (if sint ttl \<le> 0 then defaultTTL (memConfig (store w)) else ttl)
        (ttlJitter (memConfig (store w))) w)"
      using assms(3,5) by (simp add: memConfig_def)
    note pk = packForStore_window [OF assms(1) True fresh]
    show ?thesis
    proof (cases "0 < sint eff")
      case pos: True
      with pk have st: "st = eff + mcStaleTTL (store w)" by (simp add: memConfig_def)
      have "sint st = sint eff + sint (mcStaleTTL (store w))"
        unfolding st using pos assms(6,7) by (intro sint64_add) auto
      with memExpiry_plain [of w1 data st st] pk n1 pos assms(6) le show ?thesis
        by (auto simp: livesUntil_def)
    next
      case False
      with pk have st: "st = 0" "hasEnvelope data" by auto
      from False assms(5) have "sint (mcDefaultTTL (store w)) \<le> 0" by (auto split: if_splits)
      with st memExpiry_plain [of w1 data "mcDefaultTTL (store w1)" st] n1 f show ?thesis
        by (auto simp: livesUntil_def False)
    qed
  qed
qed

lemma mem_served:
  assumes "memView (store w) (now w) k = Some data" "\<not> isNegativeEntry data"
    and "snd (parseStored cfg data) = p" "Unmarshal codec p = Inr v"
    and "cfg = memConfig (store w)" "codec = effectiveCodec dflt co"
  shows "fst (fst (getOrSetWithCodec dflt cx (memoryCache a) k ttl co loader sel w)) = Inr v"
proof -
  obtain env where env: "parseStored cfg data = (env, p)"
    using assms(3) by (cases "parseStored cfg data") auto
  have "\<exists>req w'. lookupPhase cx (memoryCache a) k ttl codec cfg w = (Serve (Inr v) req, w')"
    by (rule mem.lookup_present [where p = a and cx = cx and ttl = ttl, OF assms(1,2) env assms(4)]) blast
  with assms(5,6) show ?thesis by (auto simp: getOrSetWithCodec_unfold Let_def)
qed

section \<open>Properties\<close>



text \<open>
  A negative entry is answered with \<open>ErrNotFound\<close> and never reaches the loader.
\<close>

theorem getOrSet_negative_hit:
  assumes "memView (store w) (now w) k = Some negativeMarker"
  shows "\<exists>w'. (\<forall>loader sel. getOrSetWithCodec dflt cx (memoryCache a) k ttl co loader sel w
        = ((Inl (notFoundError k), None), w'))
      \<and> errorsIs (notFoundError k) ErrNotFound \<and> \<not> IsMiss (notFoundError k)
      \<and> (\<forall>t k'. now w \<le> t \<longrightarrow> memView (store w') t k' = memView (store w) t k')"
proof -
  obtain w' where
    "lookupPhase cx (memoryCache a) k ttl (effectiveCodec dflt co) (configOf (memoryCache a) w) w
      = (Serve (Inl (notFoundError k)) None, w')"
    and "advances w w'" and vw: "\<forall>t k'. now w \<le> t \<longrightarrow> memView (store w') t k' = memView (store w) t k'"
    by (rule mem.lookup_negative [where p = a and cx = cx and ttl = ttl and codec = "effectiveCodec dflt co"
        and cfg = "configOf (memoryCache a) w", OF assms])
  then have "\<forall>loader sel. getOrSetWithCodec dflt cx (memoryCache a) k ttl co loader sel w
      = ((Inl (notFoundError k), None), w')"
    by (simp add: getOrSetWithCodec_unfold Let_def)
  with vw show ?thesis
    by (auto simp: notFoundError_def IsMiss_def ErrNotFound_def ErrCacheMiss_def)
qed

theorem getOrSet_negative_hit_witness:
  "\<exists>w'. getOrSetWithCodec demoCodec Background (memoryCache 0) ''k'' 0 None (constLoader (Ret 9)) CtxDone
      (demoStore id (Some negativeMarker)) = ((Inl (notFoundError ''k''), None), w')"
proof -
  let ?w = "demoStore id (Some negativeMarker)"
  have "memView (store ?w) (now ?w) ''k'' = Some negativeMarker"
    by (simp add: demoStore_view demoMemory_fields)
  from getOrSet_negative_hit [OF this, of demoCodec Background 0 0 None] show ?thesis by blast
qed

text \<open>
  (C2) Load once, then hit: when the key is absent or undecodable, the call returns what the
  loader loaded and stores it, and every later call within the TTL returns the same value
  without its loader mattering at all.
\<close>

theorem load_then_hit:
  assumes "cfg = memConfig (store w)" "codec = effectiveCodec dflt co" "wfRuntime (rt w)"
    and "unreadable codec cfg (memView (store w) (now w) k)"
    and "loads loader (Ret v)" "Marshal codec v = Inr p" "Unmarshal codec p = Inr v"
    and "envelopeEnabled cfg \<or> \<not> isNegativeEntry p"
    and "ttlJitter cfg \<le> 0" "0 \<le> now w"
    and "eff = (if sint ttl \<le> 0 then defaultTTL cfg else ttl)"
    and "0 \<le> sint (staleTTL cfg)" "sint eff + sint (staleTTL cfg) < 2 ^ 63"
    and first: "getOrSetWithCodec dflt cx (memoryCache a) k ttl co loader FlightResult w = (res, w1)"
    and later: "store w2 = store w1" "wfRuntime (rt w2)" "now w2 < now w + sint eff"
  shows "res = (Inr v, None)
       \<and> fst (fst (getOrSetWithCodec dflt cx' (memoryCache a') k ttl' co loader' sel' w2)) = Inr v"
proof -
  have cfg0: "cfg = configOf (memoryCache a) w" using assms(1) by simp
  obtain d data st w3 w4 w5 where
    g: "getOrSetWithCodec dflt cx (memoryCache a) k ttl co loader FlightResult w = ((Inr v, None), w5)"
    and adv: "advances w w3" and cfg3: "configOf (memoryCache a) w3 = cfg"
    and pk: "packForStore p ttl d cfg w3 = ((data, st), w4)"
    and "advances w w5" and cfg5: "configOf (memoryCache a) w5 = cfg"
    and vw: "\<forall>t. memView (store w5) t k = (if livesUntil (memExpiry data st w4) t then Some data else None)"
    and neg: "\<not> isNegativeEntry data" and pay: "snd (parseStored cfg data) = p"
    and "\<forall>t k'. now w5 \<le> t \<longrightarrow> k' \<noteq> k \<longrightarrow> memView (store w5) t k' = memView (store w) t k'"
    by (rule mem.miss_loads [where p = a and cx = cx and ttl = ttl,
        OF assms(4,3,5,2) cfg0 assms(6,7,8)])
  from first g have r: "res = (Inr v, None)" "w1 = w5" by auto
  have cfgs: "memConfig (store w3) = cfg" "memConfig (store w5) = cfg" using cfg3 cfg5 by simp_all
  have le: "now w \<le> now w3" using assms(3) adv by (rule now_mono)
  have wf3: "wfRuntime (rt w3)" using assms(3) adv by (simp add: advances_def)
  have flds: "mcTTLJitter (store w3) \<le> 0" "mcStaleTTL (store w3) = staleTTL cfg"
    "mcDefaultTTL (store w3) = defaultTTL cfg"
    using cfgs(1) assms(9) by (auto simp: memConfig_def)
  from memExpiry_packed [of p ttl d w3 data st w4 eff] pk cfgs(1) wf3 flds le assms(10-13)
  have "now w2 < now w3 + sint eff \<longrightarrow> livesUntil (memExpiry data st w4) (now w2)" by auto
  with later(3) le vw later(1) r(2) have hit: "memView (store w2) (now w2) k = Some data" by simp
  have cfg2: "cfg = memConfig (store w2)" using later(1) r(2) cfgs(2) by simp
  from mem_served [OF hit neg pay assms(7) cfg2 assms(2)] r show ?thesis by simp
qed

theorem load_then_hit_witness:
  "fst (fst (getOrSetWithCodec demoCodec Background (memoryCache 0) ''k'' 0 None (constLoader (Err ErrNotFound))
      FlightResult (demoWorld 0 (store (snd (getOrSetWithCodec demoCodec Background (memoryCache 0) ''k'' 0 None
        (constLoader (Ret 7)) FlightResult (demoStore id None)))) []))) = Inr 7"
proof -
  let ?w = "demoStore id None"
  let ?call = "getOrSetWithCodec demoCodec Background (memoryCache 0) ''k'' 0 None (constLoader (Ret 7)) FlightResult ?w"
  have u: "unreadable (effectiveCodec demoCodec None) (memConfig (store ?w)) (memView (store ?w) (now ?w) ''k'')"
    by (simp add: demoStore_view demoMemory_fields)
  have f: "?call = (fst ?call, snd ?call)" by simp
  from load_then_hit [where p = "[123, 7]" and ?w2.0 = "demoWorld 0 (store (snd ?call)) []" and ttl = 0
        and a = 0 and cx = Background,
      OF refl refl _ u loads_constLoader _ _ _ _ _ refl _ _ f]
  show ?thesis by (simp add: demoStore_view demoConfig effectiveCodec_def)
qed

text \<open>
  (C13) A loader error that is not a cacheable "not found", and a loader panic, are returned to the
  caller (the panic as an error), request no refresh, and leave the key without an entry.
\<close>

theorem loader_failure_not_cached:
  assumes "cfg = memConfig (store w)" "codec = effectiveCodec dflt co" "wfRuntime (rt w)"
    and "unreadable codec cfg (memView (store w) (now w) k)" "loads loader r"
    and "r = Err e \<and> \<not> (0 < sint (negativeTTL cfg) \<and> errorsIs e ErrNotFound)
       \<or> r = Panic q \<and> e = Errorf ''cachekit: loader panic: %v'' [Str q]"
  shows "\<exists>w'. getOrSetWithCodec dflt cx (memoryCache a) k ttl co loader FlightResult w = ((Inl e, None), w')
    \<and> (\<forall>t. now w' \<le> t \<longrightarrow> memView (store w') t k = None)"
proof -
  have cfg: "cfg = configOf (memoryCache a) w" using assms(1) by simp
  show ?thesis
    by (rule mem.miss_fails [where p = a and cx = cx and ttl = ttl, OF assms(4,3,5,2) cfg assms(6)]) blast
qed

theorem loader_failure_not_cached_witness:
  "\<exists>w'. getOrSetWithCodec demoCodec Background (memoryCache 0) ''k'' 0 None (constLoader (Panic ''boom''))
      FlightResult (demoStore id None) = ((Inl (Errorf ''cachekit: loader panic: %v'' [Str ''boom'']), None), w')"
proof -
  let ?w = "demoStore id None"
  have "unreadable (effectiveCodec demoCodec None) (memConfig (store ?w)) (memView (store ?w) (now ?w) ''k'')"
    by (simp add: demoStore_view demoMemory_fields)
  from loader_failure_not_cached [OF refl refl _ this loads_constLoader,
      where r = "Panic ''boom''" and cx = Background and a = 0 and ttl = 0]
  show ?thesis by auto
qed



text \<open>
  (C14) Degradation: with a cache whose reads all fail, and whatever its writes and deletes do, a
  call still returns what the loader returned.
\<close>

theorem broken_cache_still_loads:
  assumes "\<forall>cx w. \<exists>e. fst (cGet c cx k w) = Inl e" "\<forall>cx w. fst (loader cx w) = Ret v"
    and "codec = effectiveCodec dflt co" "cfg = configOf c w"
    and "Marshal codec v = Inr p" "Unmarshal codec p = Inr v"
    and "envelopeEnabled cfg \<or> \<not> isNegativeEntry p"
  shows "fst (getOrSetWithCodec dflt cx c k ttl co loader FlightResult w) = (Inr v, None)"
proof -
  obtain e1 w1 where g1: "cGet c cx k w = (Inl e1, w1)"
    using assms(1) by (metis prod.collapse)
  obtain fctx w2 where fc: "flightContext cx missOpts w1 = (fctx, w2)" by force
  obtain e2 w3 where g2: "cGet c fctx k w2 = (Inl e2, w3)"
    using assms(1) by (metis prod.collapse)
  let ?start = "w3\<lparr>reads := Suc (reads w3)\<rparr>"
  obtain w4 where ld: "loader fctx ?start = (Ret v, w4)"
    using assms(2) by (metis prod.collapse)
  obtain d w5 where tl: "timedLoad k cfg loader fctx w3 = (Ret (v, d), w5)"
    using ld by (simp add: timedLoad_def timeNow_def)
  obtain data st w6 where pk: "packForStore p ttl d cfg w5 = ((data, st), w6)" by (metis surj_pair)
  have "fst (loadAndStore cx c k ttl codec loader cfg missOpts w1) = Ret data"
    using fc g2 tl pk assms(5) by (simp add: loadAndStore_def flightRecheck_def storeLoaded_def)
  then obtain w7 where ls: "loadAndStore cx c k ttl codec loader cfg missOpts w1 = (Ret data, w7)"
    by (metis prod.collapse)
  have neg: "\<not> isNegativeEntry data" using packForStore_not_negative [OF pk assms(7)] .
  have pay: "snd (parseStored cfg data) = p" using packForStore_payload [OF pk] .
  from g1 ls neg pay assms(3,4,6) show ?thesis
    by (simp add: getOrSetWithCodec_unfold Let_def lookupPhase_def groupDo_def flightBody_def finishFlight_def)
qed

theorem broken_cache_still_loads_witness:
  "fst (getOrSetWithCodec demoCodec Background
      ((memoryCache 0)\<lparr>cGet := (\<lambda>cx k w. (Inl DeadlineExceeded, w))\<rparr>) ''k'' 0 None
      (constLoader (Ret 7)) FlightResult (demoStore id None)) = (Inr 7, None)"
  by (rule broken_cache_still_loads [OF _ _ refl refl, where p = "[123, 7]"])
    (simp_all add: constLoader_def effectiveCodec_def)

text \<open>The callbacks of a call, over any cache that reports its reads.\<close>

definition silentLoader :: "('v, 's, 'h) loader \<Rightarrow> bool" where
  "silentLoader loader \<longleftrightarrow> (\<forall>cx w. obs (snd (loader cx w)) = obs w)"

lemma silentLoader_const [simp]: "silentLoader (constLoader r)"
  by (simp add: silentLoader_def constLoader_def)

text \<open>What the callbacks of a lookup make of the observers when the entry gives nothing to serve.\<close>

definition lookupObs :: "'v Codec \<Rightarrow> 'h cacheConfig \<Rightarrow> key \<Rightarrow> bytes option \<Rightarrow> 'h \<Rightarrow> 'h" where
  "lookupObs codec cfg k entry x = (case entry of None \<Rightarrow> obsMiss (hooks cfg) k x
     | Some data \<Rightarrow> obsError (hooks cfg) OpDecode k (projl (Unmarshal codec (snd (parseStored cfg data))))
         (obsHit (hooks cfg) k x))"

context observed_cache begin

lemma lookup_observed:
  assumes "unreadable codec cfg (view (store w) (now w) k)" "cfg = configOf c w"
    and "lookupPhase cx c k ttl codec cfg w = (GoLoad, w1)"
  shows "obs w1 = lookupObs codec cfg k (view (store w) (now w) k) (obs w)"
proof (cases "view (store w) (now w) k")
  case None
  obtain e w' where g: "cGet c cx k w = (Inl e, w')" using None by (rule get_absent)
  from get_obs [OF g] g None assms(2,3) show ?thesis by (simp add: lookupPhase_def lookupObs_def)
next
  case (Some data)
  with assms(1) obtain e where u: "\<not> isNegativeEntry data"
    "Unmarshal codec (snd (parseStored cfg data)) = Inl e" by (auto simp: unreadable_def)
  obtain w' where g: "cGet c cx k w = (Inr data, w')" using Some by (rule get_present)
  obtain q w2 where d: "cDelete c cx k (hookError (hooks cfg) OpDecode k e w') = (q, w2)" by force
  from get_obs [OF g] delete_obs [OF d] g d Some u assms(2,3) show ?thesis
    by (auto simp: lookupPhase_def lookupObs_def obs_hooks split: prod.splits)
qed

lemma flight_observed:
  assumes "view (store w) (now w) k = None" "wfRuntime (rt w)" "cfg = configOf c w"
    and "loads loader (Ret v)" "silentLoader loader" "Marshal codec v = Inr p"
    and "loadAndStore cx c k ttl codec loader cfg opts w = (r, w')"
  shows "\<exists>d. obs w' = obsLoad (hooks cfg) k d None (obsMiss (hooks cfg) k (obs w))"
proof -
  obtain fctx w2 where fc: "flightContext cx opts w = (fctx, w2)" by force
  note f = flightContext_frame [OF fc]
  have "view (store w2) (now w2) k = None"
    by (rule absent_later [OF assms(1,2)]) (simp_all add: f)
  then obtain e w3 where g: "cGet c fctx k w2 = (Inl e, w3)" by (rule get_absent)
  have o3: "obs w3 = obsMiss (hooks cfg) k (obs w)"
    using get_obs [OF g] f configOf_cong [of w2 w c] assms(3) by simp
  obtain ld w4 where tl: "timedLoad k cfg loader fctx w3 = (ld, w4)" by force
  from timedLoad_outcome [OF assms(4) tl] obtain d where ld: "ld = Ret (v, d)" by auto
  obtain u w1 where l: "loader fctx (w3\<lparr>reads := Suc (reads w3)\<rparr>) = (u, w1)" by force
  with assms(4,5) have "u = Ret v" "obs w1 = obs w3" unfolding loads_def silentLoader_def by (metis fst_conv, metis snd_conv world.select_convs(5) world.surjective world.update_convs(2))
  then have o4: "\<exists>d. obs w4 = obsLoad (hooks cfg) k d None (obs w3)"
    using tl l by (auto simp: timedLoad_def timeNow_def obs_hooks)
  obtain data st w5 where pk: "packForStore p ttl d cfg w4 = ((data, st), w5)" by (metis surj_pair)
  obtain q w6 where s: "cSet c fctx k data st w5 = (q, w6)" by force
  have "w' = w6"
    using assms(7) fc g tl ld pk s assms(6) by (simp add: loadAndStore_def flightRecheck_def storeLoaded_def)
  with set_obs [OF s] packForStore_frame [OF pk] o3 o4 show ?thesis by simp
qed

text \<open>A call that loads: the lookup's callbacks, the miss of the re-check, one \<open>OnLoad\<close>.\<close>

lemma load_observed:
  assumes "cfg = configOf c w" "codec = effectiveCodec dflt co" "wfRuntime (rt w)"
    and "unreadable codec cfg (view (store w) (now w) k)" "loads loader (Ret v)" "silentLoader loader" "Marshal codec v = Inr p"
    and "getOrSetWithCodec dflt cx c k ttl co loader FlightResult w = (res, w')"
  shows "\<exists>d. obs w' = obsLoad (hooks cfg) k d None (obsMiss (hooks cfg) k
    (lookupObs codec cfg k (view (store w) (now w) k) (obs w)))"
proof -
  obtain w1 where l: "lookupPhase cx c k ttl codec cfg w = (GoLoad, w1)" and adv: "advances w w1"
    and abs: "view (store w1) (now w1) k = None" and cf: "configOf c w1 = configOf c w"
    and "\<forall>t k'. now w1 \<le> t \<longrightarrow> k' \<noteq> k \<longrightarrow> view (store w1) t k' = view (store w) t k'"
    by (rule lookup_unreadable [where cx = cx and ttl = ttl, OF assms(4,3)])
  have wf1: "wfRuntime (rt w1)" using assms(3) adv by (simp add: advances_def)
  obtain r w2 where ls: "loadAndStore cx c k ttl codec loader cfg missOpts w1 = (r, w2)" by force
  have "w' = w2"
    using assms(1,2,8) l ls
    by (auto simp: getOrSetWithCodec_unfold Let_def groupDo_def flightBody_def split: outcome.splits)
  with flight_observed [OF abs wf1 _ assms(5-7) ls] lookup_observed [OF assms(4,1) l] cf assms(1)
  show ?thesis by simp
qed

lemma hit_observed:
  assumes "cfg = configOf c w" "codec = effectiveCodec dflt co" "view (store w) (now w) k = Some data" "\<not> isNegativeEntry data"
    and "Unmarshal codec (snd (parseStored cfg data)) = Inr v"
    and "getOrSetWithCodec dflt cx c k ttl co loader sel w = (res, w')"
  shows "obs w' = obsHit (hooks cfg) k (obs w)"
proof -
  obtain w1 where g: "cGet c cx k w = (Inr data, w1)" using assms(3) by (rule get_present)
  from get_obs [OF g] g assms show ?thesis
    by (auto simp: getOrSetWithCodec_unfold Let_def lookupPhase_def timeNow_def split: prod.splits if_splits
        dest!: shouldEarlyRefresh_frame)
qed

end

text \<open>
  (C26) The events of a load, in order: a miss, or for an entry that does not decode a hit and an
  \<open>OpDecode\<close> error; then the miss of the flight's own re-check, then exactly one \<open>OnLoad\<close>.
\<close>

theorem load_events:
  fixes w :: "(('c, event list) MemoryCache, event list) world"
  assumes "cfg = memConfig (store w)" "codec = effectiveCodec dflt co" "wfRuntime (rt w)"
    and "mcHooks (store w) = recorder"
    and "unreadable codec cfg (memView (store w) (now w) k)" "Marshal codec v = Inr p"
    and "getOrSetWithCodec dflt cx (memoryCache a) k ttl co (constLoader (Ret v)) FlightResult w = (res, w')"
  shows "\<exists>d. obs w' = obs w
    @ (case memView (store w) (now w) k of None \<Rightarrow> [EMiss k]
       | Some data \<Rightarrow> [EHit k, EError OpDecode k (projl (Unmarshal codec (snd (parseStored cfg data))))])
    @ [EMiss k, ELoad k d None]"
proof -
  have "hooks cfg = recorder" using assms(1,4) by (simp add: memConfig_def)
  with memo.load_observed [OF _ assms(2,3,5) loads_constLoader silentLoader_const assms(6,7)] assms(1)
  show ?thesis by (auto simp: lookupObs_def split: option.splits)
qed

theorem load_events_witness:
  "\<exists>d. obs (snd (getOrSetWithCodec demoCodec Background (memoryCache 0) ''k'' 0 None (constLoader (Ret 7))
      FlightResult (demoStore id (Some [0])))) =
    [EHit ''k'', EError OpDecode ''k'' (New 8 ''bad value''), EMiss ''k'', ELoad ''k'' d None]"
proof -
  let ?w = "demoStore id (Some [0])"
  have v: "memView (store ?w) (now ?w) ''k'' = Some [0]" by (simp add: demoStore_view demoMemory_fields)
  have "unreadable (effectiveCodec demoCodec None) (memConfig (store ?w)) (memView (store ?w) (now ?w) ''k'')"
    unfolding v by (simp add: unreadable_def demoStore_view demoConfig effectiveCodec_def parseStored_def envelopeEnabled_def)
  from load_events [OF refl refl _ _ this _ prod.collapse [symmetric], where p = "[123, 7]" and v = 7
      and cx = Background and a = 0 and ttl = 0]
  show ?thesis unfolding v
    by (simp add: demoStore_view demoMemory_fields demoConfig effectiveCodec_def parseStored_def envelopeEnabled_def)
qed

end
