(* ===== verification/Refresh.thy ===== *)
theory Refresh
  imports GetOrSet
begin

text \<open>
  Stale-while-revalidate, as cache.go implements it: what a requested refresh flight
  (\<open>runRefresh\<close>) does to the entry that triggered it. The flight's re-check compares freshness
  deadlines, so the triggering entry itself, still fresh or already stale, never satisfies it.
\<close>

section \<open>A flight whose re-check does not settle it\<close>

lemma flight_after_recheck:
  assumes "flightContext base opts w = (fctx, w1)" "flightRecheck c k codec cfg opts fctx w1 = (None, w2)"
    and "loads loader r"
  obtains res w3 where
    "loadAndStore base c k ttl codec loader cfg opts w = storeLoaded c k ttl codec cfg fctx res w3"
    "loadedAs r res" "advances w2 w3" "store w3 = store w2"
proof -
  obtain res w3 where tl: "timedLoad k cfg loader fctx w2 = (res, w3)" by force
  note f = timedLoad_outcome [OF assms(3) tl, folded loadedAs_def]
  have "loadAndStore base c k ttl codec loader cfg opts w = storeLoaded c k ttl codec cfg fctx res w3"
    using assms(1,2) tl by (simp add: loadAndStore_def)
  then show ?thesis by (rule that) (use f in auto)
qed

lemma refreshOf_refreshOpts [simp]: "refreshOf (refreshOpts ttl cfg env) = freshUntil env"
  by (simp add: refreshOpts_def Let_def)

context reliable_cache begin

lemma recheck_not_fresher:
  assumes "view (store w) (now w) k = Some data \<or> view (store w) (now w) k = None"
    and "\<not> isNegativeEntry data" "parseStored cfg data = (env, pl)"
    and "\<not> isZero (refreshOf opts)" "freshUntil env \<le> refreshOf opts"
  obtains w' where "flightRecheck c k codec cfg opts fctx w = (None, w')" "advances w w'"
    "\<forall>t k'. now w \<le> t \<longrightarrow> view (store w') t k' = view (store w) t k'" "configOf c w' = configOf c w"
proof -
  obtain g w1 where g: "cGet c fctx k w = (g, w1)" by force
  obtain t w2 where t: "timeNow w1 = (t, w2)" by force
  let ?w = "case g of Inl _ \<Rightarrow> w1 | Inr _ \<Rightarrow> w2"
  have st: "store ?w = store w1" using timeNow_frame [OF t] by (simp split: sum.splits)
  have adv: "advances w ?w"
    using timeNow_frame [OF t] get_advances [OF g] by (auto intro: advances_trans split: sum.splits)
  have "g = Inr data \<or> (\<exists>e. g = Inl e)" using get_result [OF g] assms(1) by auto
  then have "flightRecheck c k codec cfg opts fctx w = (None, ?w)"
    using g t assms(2-5) by (auto simp: flightRecheck_def Let_def)
  then show ?thesis
    by (rule that [OF _ adv])
      (use st get_steady [OF g] get_config [OF g] configOf_cong [of ?w w1 c] in simp_all)
qed

text \<open>
  A refresh flight for the entry that triggered it reaches the loader, with the entry still in
  place.
\<close>

lemma refresh_reaches_loader:
  assumes "view (store w) (now w) k = Some data \<or> view (store w) (now w) k = None" "wfRuntime (rt w)"
    and "\<not> isNegativeEntry data" "parseStored cfg data = (env, pl)"
    and "\<not> isZero (freshUntil env)" "loads loader r" "opts = refreshOpts ttl' cfg' env"
  obtains fctx res w3 where
    "loadAndStore base c k ttl codec loader cfg opts w = storeLoaded c k ttl codec cfg fctx res w3"
    "loadedAs r res" "advances w w3" "configOf c w3 = configOf c w"
    "\<forall>t k'. now w3 \<le> t \<longrightarrow> view (store w3) t k' = view (store w) t k'"
proof -
  obtain fctx w1 where fc: "flightContext base opts w = (fctx, w1)" by force
  note f1 = flightContext_frame [OF fc]
  have le1: "now w \<le> now w1" using assms(2) f1 by (intro now_mono) auto
  have v1: "view (store w1) (now w1) k = Some data \<or> view (store w1) (now w1) k = None"
    using view_lapse [OF le1, of "store w" k] assms(1) f1 by (metis not_None_eq option.inject)
  have nz: "\<not> isZero (refreshOf opts)" "freshUntil env \<le> refreshOf opts" using assms(5,7) by simp_all
  obtain w2 where rc: "flightRecheck c k codec cfg opts fctx w1 = (None, w2)" and adv2: "advances w1 w2"
    and vw2: "\<forall>t k'. now w1 \<le> t \<longrightarrow> view (store w2) t k' = view (store w1) t k'"
    and cf2: "configOf c w2 = configOf c w1"
    by (rule recheck_not_fresher [where codec = codec and fctx = fctx, OF v1 assms(3,4) nz])
  obtain res w3 where
    ld: "loadAndStore base c k ttl codec loader cfg opts w = storeLoaded c k ttl codec cfg fctx res w3"
    and res: "loadedAs r res" and adv3: "advances w2 w3" and st: "store w3 = store w2"
    by (rule flight_after_recheck [where ttl = ttl, OF fc rc assms(6)])
  have "wfRuntime (rt w1)" using assms(2) f1 by (simp add: advances_def)
  then have le3: "now w1 \<le> now w3" using adv2 adv3 by (auto intro: now_mono advances_trans)
  have adv: "advances w w3" using f1 adv2 adv3 by (blast intro: advances_trans)
  have cf: "configOf c w3 = configOf c w"
    using cf2 configOf_cong [of w3 w2 c] configOf_cong [of w1 w c] st f1 by simp
  show ?thesis
    by (rule that [OF ld res adv cf]) (use vw2 st f1 le3 in auto)
qed

end

section \<open>A refresh over an old entry, on the memory cache\<close>

lemma refresh_serves_new:
  assumes wf2: "wfRuntime (rt w2)"
    and v2: "memView (store w2) (now w2) k = Some data \<or> memView (store w2) (now w2) k = None"
    and old: "\<not> isNegativeEntry data" "parseStored cfg data = (env, q)" and nz: "\<not> isZero (freshUntil env)"
    and cf2: "memConfig (store w2) = cfg" and codec: "codec = effectiveCodec dflt co"
    and new: "loads loader (Ret v)" "Marshal codec v = Inr p" "Unmarshal codec p = Inr v"
    and ttl: "ttlJitter cfg \<le> 0" "0 \<le> now w2" "eff = (if sint ttl \<le> 0 then defaultTTL cfg else ttl)"
      "0 \<le> sint (staleTTL cfg)" "sint eff + sint (staleTTL cfg) < 2 ^ 63"
    and flight: "runRefresh cx (memoryCache a) k ttl codec loader cfg (refreshOpts ttl cfg env) w2 = (r, w3)"
    and later: "store w4 = store w3" "now w4 < now w2 + sint eff"
  shows "fst (fst (getOrSetWithCodec dflt cx' (memoryCache a') k ttl' co loader' sel' w4)) = Inr v"
proof -
  have env: "envelopeEnabled cfg"
    using old(2) nz by (auto simp: parseStored_def emptyEnvelope_def isZero_def split: if_splits)
  obtain fctx ld w5 where
    g: "loadAndStore cx (memoryCache a) k ttl codec loader cfg (refreshOpts ttl cfg env) w2
      = storeLoaded (memoryCache a) k ttl codec cfg fctx ld w5"
    and ld: "loadedAs (Ret v) ld" and adv5: "advances w2 w5"
    and cf5: "configOf (memoryCache a) w5 = configOf (memoryCache a) w2"
    and "\<forall>t k'. now w5 \<le> t \<longrightarrow> memView (store w5) t k' = memView (store w2) t k'"
    by (rule mem.refresh_reaches_loader [where p = a and base = cx and ttl = ttl,
        OF v2 wf2 old nz new(1) refl])
  obtain d where d: "ld = Ret (v, d)" using ld by auto
  obtain data' st' w6 w7 where pk: "packForStore p ttl d cfg w5 = ((data', st'), w6)"
    and sl: "storeLoaded (memoryCache a) k ttl codec cfg fctx (Ret (v, d)) w5 = (Ret data', w7)"
    and "advances w5 w7"
    and vw7: "\<forall>t. memView (store w7) t k = (if livesUntil (memExpiry data' st' w6) t then Some data' else None)"
    and "\<forall>t k'. k' \<noteq> k \<longrightarrow> memView (store w7) t k' = memView (store w5) t k'"
    and cf7: "configOf (memoryCache a) w7 = configOf (memoryCache a) w5"
    by (rule mem.storeLoaded_ret [where p = a and ttl = ttl and d = d and cfg = cfg and w = w5
        and k = k and fctx = fctx, OF new(2)])
  have w3: "w3 = w7" using flight g d sl by (simp add: runRefresh_def refreshBody_def flightBody_def)
  have cfgs: "memConfig (store w5) = cfg" "memConfig (store w7) = cfg" using cf2 cf5 cf7 by simp_all
  have le5: "now w2 \<le> now w5" using wf2 adv5 by (rule now_mono)
  have wf5: "wfRuntime (rt w5)" using wf2 adv5 by (simp add: advances_def)
  have flds: "mcTTLJitter (store w5) \<le> 0" "mcStaleTTL (store w5) = staleTTL cfg"
    "mcDefaultTTL (store w5) = defaultTTL cfg"
    using cfgs(1) ttl(1) by (auto simp: memConfig_def)
  from memExpiry_packed [of p ttl d w5 data' st' w6 eff] pk cfgs(1) wf5 flds le5 ttl(2-5)
  have "now w4 < now w5 + sint eff \<longrightarrow> livesUntil (memExpiry data' st' w6) (now w4)" by auto
  with later le5 vw7 w3 have hit: "memView (store w4) (now w4) k = Some data'" by simp
  have cfg4: "cfg = memConfig (store w4)" using later(1) w3 cfgs(2) by simp
  have neg: "\<not> isNegativeEntry data'" using packForStore_not_negative [OF pk] env by simp
  from mem_served [OF hit neg packForStore_payload [OF pk] new(3) cfg4 codec]
  show ?thesis by simp
qed

text \<open>
  Whatever made a call ask for the refresh, staleness or the draw of the early refresh: the call serves the old value, and
  once the flight has run, callers get the new one.
\<close>

lemma served_then_refreshed:
  assumes "cfg = memConfig (store w)" "codec = effectiveCodec dflt co" "wfRuntime (rt w)"
    and "memView (store w) (now w) k = Some data" "\<not> isNegativeEntry data"
    and "parseStored cfg data = (env, q)" "Unmarshal codec q = Inr v0" "\<not> isZero (freshUntil env)"
    and "loads loader (Ret v)" "Marshal codec v = Inr p" "Unmarshal codec p = Inr v"
    and "ttlJitter cfg \<le> 0" "0 \<le> now w" "eff = (if sint ttl \<le> 0 then defaultTTL cfg else ttl)"
    and "0 \<le> sint (staleTTL cfg)" "sint eff + sint (staleTTL cfg) < 2 ^ 63"
    and call: "getOrSetWithCodec dflt cx (memoryCache a) k ttl co loader0 sel w = (res, w1)"
    and flight: "store w2 = store w1" "advances w w2"
      "runRefresh cx (memoryCache a) k ttl codec loader cfg (refreshOpts ttl cfg env) w2 = (r, w3)"
    and later: "store w4 = store w3" "now w4 < now w2 + sint eff"
  shows "fst (fst (getOrSetWithCodec dflt cx' (memoryCache a') k ttl' co loader' sel' w4)) = Inr v"
proof -
  obtain req w1' t where
    l: "lookupPhase cx (memoryCache a) k ttl codec cfg w = (Serve (Inr v0) req, w1')"
    and vw1: "\<forall>t k'. now w \<le> t \<longrightarrow> memView (store w1') t k' = memView (store w) t k'"
    and cf1: "configOf (memoryCache a) w1' = configOf (memoryCache a) w"
    by (rule mem.lookup_present [where p = a and cx = cx and ttl = ttl, OF assms(4-7)]) blast
  with call assms(1,2) have w1: "w1 = w1'" by (auto simp: getOrSetWithCodec_unfold Let_def)
  note adv2 = flight(2)
  have wf2: "wfRuntime (rt w2)" using assms(3) adv2 by (simp add: advances_def)
  have le2: "now w \<le> now w2" using assms(3) adv2 by (rule now_mono)
  have v2: "memView (store w2) (now w2) k = Some data \<or> memView (store w2) (now w2) k = None"
    using mem.view_lapse [OF le2, of "store w" k] assms(4) vw1 flight(1) w1 le2
    by (metis not_None_eq option.inject)
  have cf2: "memConfig (store w2) = cfg" using cf1 flight(1) w1 assms(1) by simp
  from refresh_serves_new [OF wf2 v2 assms(5,6,8) cf2 assms(2,9-12) _ assms(14-16) flight(3) later] le2 assms(13)
  show ?thesis by simp
qed

section \<open>A concrete stale entry\<close>

definition staleBytes :: "time \<Rightarrow> bytes" where
  "staleBytes t = wrapEnvelope [123, 7] t 0"

definition staleWorld :: "time \<Rightarrow> ((nat, event list) MemoryCache, event list) world" where
  "staleWorld t = demoStore (mcStaleTTL_update (\<lambda>_. minute)) (Some (staleBytes t))"

lemma staleWorld_simps [simp]:
  "rt (staleWorld t) = demoRuntime 0" "now (staleWorld t) = 1700000000000000000" "reads (staleWorld t) = 0"
  "memView (store (staleWorld t)) u ''k'' = Some (staleBytes t)"
  "memConfig (store (staleWorld t)) = (memConfig demoMemory)\<lparr>staleTTL := minute\<rparr>"
  by (simp_all add: staleWorld_def demoStore_view demoMemory_fields) (simp add: memConfig_def)

lemma staleBytes_simps:
  "\<not> isNegativeEntry (staleBytes t)"
  "parseStored ((memConfig demoMemory)\<lparr>staleTTL := minute\<rparr>) (staleBytes 1699999999000000000)
    = (\<lparr>freshUntil = 1699999999000000000, delta = 0\<rparr>, [123, 7])"
  "parseStored ((memConfig demoMemory)\<lparr>staleTTL := minute\<rparr>) (staleBytes 1700000050000000000)
    = (\<lparr>freshUntil = 1700000050000000000, delta = 0\<rparr>, [123, 7])"
  using marker_envelope_disjoint_core [of "[123, 7]" t 0]
  by (simp_all add: staleBytes_def parseStored_def envelopeEnabled_def demoConfig parseEnvelope_wrap_raw
      isZero_def zeroTime_def unixMilli_def ofUnixMilli_def milliseconds_def)

text \<open>A fresh entry two milliseconds before its deadline, whose load took three, and a random draw of one half.\<close>

definition earlyBytes :: bytes where
  "earlyBytes = wrapEnvelope [123, 7] 1700000000002000000 3000000"

definition earlyWorld :: "((nat, event list) MemoryCache, event list) world" where
  "earlyWorld = (demoStore (mcEarlyBeta_update (\<lambda>_. 4)) (Some earlyBytes))\<lparr>rt := demoRuntime (1 / 2)\<rparr>"

abbreviation earlyEnvelope :: envelope where
  "earlyEnvelope \<equiv> \<lparr>freshUntil = 1700000000002000000, delta = 3000000\<rparr>"

lemma earlyWorld_simps [simp]:
  "rt earlyWorld = demoRuntime (1 / 2)" "now earlyWorld = 1700000000000000000" "reads earlyWorld = 0" "draws earlyWorld = 0"
  "memView (store earlyWorld) u ''k'' = Some earlyBytes"
  "memConfig (store earlyWorld) = (memConfig demoMemory)\<lparr>earlyRefreshBeta := 4\<rparr>" "wfRuntime (demoRuntime (1 / 2))"
  using wfRuntime_demo [of "2 ^ 52"]
  by (simp_all add: earlyWorld_def demoStore_view demoMemory_fields now_def)
    (simp_all add: memConfig_def demoStore_def demoWorld_def)

lemma earlyBytes_simps:
  "\<not> isNegativeEntry earlyBytes"
  "parseStored ((memConfig demoMemory)\<lparr>earlyRefreshBeta := 4\<rparr>) earlyBytes = (earlyEnvelope, [123, 7])"
  using marker_envelope_disjoint_core [of "[123, 7]" 1700000000002000000 3000000]
  by (simp_all add: earlyBytes_def parseStored_def envelopeEnabled_def demoConfig parseEnvelope_wrap_raw
      isZero_def zeroTime_def unixMilli_def ofUnixMilli_def milliseconds_def millisecond_def)

lemma early_draw:
  assumes "rt w = demoRuntime (1 / 2)" "1700000000000000000 \<le> t"
  shows "shouldEarlyRefresh earlyEnvelope t 4 w = (True, w\<lparr>draws := Suc (draws w)\<rparr>)"
proof -
  have "durOfFloat (demoRuntime (1 / 2)) (xfetchRaw (demoRuntime (1 / 2)) (effectiveDelta earlyEnvelope) 4 (1 / 2)) = 6000000"
    by code_simp
  with assms show ?thesis
    by (simp add: shouldEarlyRefresh_def randFloat64_def isZero_def zeroTime_def tAdd_def Let_def)
qed

section \<open>Properties\<close>

text \<open>
  (C3) Stale-while-revalidate: a stale entry is served at once and a refresh is requested; the
  refresh flight, whenever it runs before the entry is rewritten, loads and stores the new value,
  and from then on, for the length of the TTL, callers get the new value.
\<close>

theorem stale_while_revalidate:
  assumes "cfg = memConfig (store w)" "codec = effectiveCodec dflt co" "wfRuntime (rt w)"
    and "memView (store w) (now w) k = Some data" "\<not> isNegativeEntry data"
    and "parseStored cfg data = (env, q)" "Unmarshal codec q = Inr v0" "stale env (now w)"
    and "loads loader (Ret v)" "Marshal codec v = Inr p" "Unmarshal codec p = Inr v"
    and "ttlJitter cfg \<le> 0" "0 \<le> now w" "eff = (if sint ttl \<le> 0 then defaultTTL cfg else ttl)"
    and "0 \<le> sint (staleTTL cfg)" "sint eff + sint (staleTTL cfg) < 2 ^ 63"
    and call: "getOrSetWithCodec dflt cx (memoryCache a) k ttl co loader0 sel w = (res, w1)"
    and flight: "store w2 = store w1" "advances w w2"
      "runRefresh cx (memoryCache a) k ttl codec loader cfg (refreshOpts ttl cfg env) w2 = (r, w3)"
    and later: "store w4 = store w3" "now w4 < now w2 + sint eff"
  shows "res = (Inr v0, Some (refreshOpts ttl cfg env))
    \<and> fst (fst (getOrSetWithCodec dflt cx' (memoryCache a') k ttl' co loader' sel' w4)) = Inr v"
proof -
  obtain req w1' t where
    l: "lookupPhase cx (memoryCache a) k ttl codec cfg w = (Serve (Inr v0) req, w1')"
    and adv1: "advances w w1'"
    and vw1: "\<forall>t k'. now w \<le> t \<longrightarrow> memView (store w1') t k' = memView (store w) t k'"
    and cf1: "configOf (memoryCache a) w1' = configOf (memoryCache a) w"
    and st: "stale env t \<longrightarrow> req = Some (refreshOpts ttl cfg env)"
    and "req = None \<or> req = Some (refreshOpts ttl cfg env)"
    and "earlyRefreshBeta cfg \<le> 0 \<or> isZero (freshUntil env) \<longrightarrow> \<not> stale env t \<longrightarrow> req = None"
    and late: "wfRuntime (rt w) \<longrightarrow> now w \<le> t"
    by (rule mem.lookup_present [where p = a and cx = cx and ttl = ttl, OF assms(4-7)])
  have "req = Some (refreshOpts ttl cfg env)" using st late assms(3,8) by (auto simp: stale_def)
  with l call assms(1,2) have res: "res = (Inr v0, Some (refreshOpts ttl cfg env))"
    by (auto simp: getOrSetWithCodec_unfold Let_def)
  have nz: "\<not> isZero (freshUntil env)" using assms(8) by (simp add: stale_def)
  from served_then_refreshed [OF assms(1-7) nz assms(9-16) call flight later] res show ?thesis by simp
qed

theorem stale_while_revalidate_witness:
  "let call = getOrSetWithCodec demoCodec Background (memoryCache 0) ''k'' 0 None (constLoader (Ret 9)) FlightResult
         (staleWorld 1699999999000000000);
       opts = refreshOpts 0 (memConfig (store (staleWorld 0))) \<lparr>freshUntil = 1699999999000000000, delta = 0\<rparr>;
       flight = runRefresh Background (memoryCache 0) ''k'' 0 demoCodec (constLoader (Ret 8))
         (memConfig (store (staleWorld 0))) opts (demoWorld 0 (store (snd call)) [])
   in fst call = (Inr 7, Some opts)
     \<and> fst (fst (getOrSetWithCodec demoCodec Background (memoryCache 0) ''k'' 0 None (constLoader (Ret 9)) FlightResult
         (demoWorld 0 (store (snd flight)) []))) = Inr 8"
proof -
  let ?w = "staleWorld 1699999999000000000" and ?env = "\<lparr>freshUntil = 1699999999000000000, delta = 0\<rparr>"
  let ?cfg = "(memConfig demoMemory)\<lparr>staleTTL := minute\<rparr>"
  let ?call = "getOrSetWithCodec demoCodec Background (memoryCache 0) ''k'' 0 None (constLoader (Ret 9)) FlightResult ?w"
  let ?flight = "runRefresh Background (memoryCache 0) ''k'' 0 demoCodec (constLoader (Ret 8)) ?cfg
    (refreshOpts 0 ?cfg ?env) (demoWorld 0 (store (snd ?call)) [])"
  have c: "?call = (fst ?call, snd ?call)" and f: "?flight = (fst ?flight, snd ?flight)" by simp_all
  have codec: "demoCodec = effectiveCodec demoCodec None" by (simp add: effectiveCodec_def)
  have adv: "advances ?w (demoWorld 0 (store (snd ?call)) [])"
    by (simp add: advances_def staleWorld_def demoStore_def)
  note r = stale_while_revalidate [where cfg = ?cfg and p = "[123, 8]" and data = "staleBytes 1699999999000000000"
      and q = "[123, 7]" and ?w4.0 = "demoWorld 0 (store (snd ?flight)) []" and eff = minute,
    OF _ codec _ _ staleBytes_simps(1,2) _ _ loads_constLoader _ _ _ _ _ _ _ c _ adv f]
  show ?thesis
    using r by (simp add: Let_def stale_def isZero_def zeroTime_def demoConfig)
qed


text \<open>
  (C7) Early refresh, end to end: when the draw fires for an entry that is still fresh, the call serves the entry and
  requests a refresh, and that refresh does reload, although its re-check finds a fresh
  entry: the entry it finds is the one that triggered it. From then on, for the length of the TTL, callers get the new value.
\<close>

theorem early_refresh_reloads:
  assumes "cfg = memConfig (store w)" "codec = effectiveCodec dflt co" "wfRuntime (rt w)"
    and "memView (store w) (now w) k = Some data" "\<not> isNegativeEntry data"
    and "parseStored cfg data = (env, q)" "Unmarshal codec q = Inr v0"
    and "memGet cx k w = (g, wg)" "timeNow wg = (t, wt)" "\<not> stale env t"
    and "shouldEarlyRefresh env t (earlyRefreshBeta cfg) wt = (True, we)"
    and "loads loader (Ret v)" "Marshal codec v = Inr p" "Unmarshal codec p = Inr v"
    and "ttlJitter cfg \<le> 0" "0 \<le> now w" "eff = (if sint ttl \<le> 0 then defaultTTL cfg else ttl)"
    and "0 \<le> sint (staleTTL cfg)" "sint eff + sint (staleTTL cfg) < 2 ^ 63"
    and flight: "store w2 = store we" "advances w w2"
      "runRefresh cx (memoryCache a) k ttl codec loader cfg (refreshOpts ttl cfg env) w2 = (r, w3)"
    and later: "store w4 = store w3" "now w4 < now w2 + sint eff"
  shows "getOrSetWithCodec dflt cx (memoryCache a) k ttl co loader0 sel w = ((Inr v0, Some (refreshOpts ttl cfg env)), we)
    \<and> fst (fst (getOrSetWithCodec dflt cx' (memoryCache a') k ttl' co loader' sel' w4)) = Inr v"
proof -
  have "g = Inr data" using memGet_result [OF assms(8)] assms(4) by simp
  then have "lookupPhase cx (memoryCache a) k ttl codec cfg w = (Serve (Inr v0) (Some (refreshOpts ttl cfg env)), we)"
    using assms(5-11) by (simp add: lookupPhase_def)
  then have call: "getOrSetWithCodec dflt cx (memoryCache a) k ttl co loader0 sel w = ((Inr v0, Some (refreshOpts ttl cfg env)), we)"
    using assms(1,2) by (simp add: getOrSetWithCodec_unfold Let_def)
  have nz: "\<not> isZero (freshUntil env)" using assms(11) by (auto simp: shouldEarlyRefresh_def)
  from served_then_refreshed [OF assms(1-7) nz assms(12-19) call flight later] call show ?thesis by simp
qed

theorem early_refresh_reloads_witness:
  "let call = getOrSetWithCodec demoCodec Background (memoryCache 0) ''k'' 0 None (constLoader (Ret 9)) FlightResult earlyWorld;
       opts = refreshOpts 0 (memConfig (store earlyWorld)) earlyEnvelope;
       flight = runRefresh Background (memoryCache 0) ''k'' 0 demoCodec (constLoader (Ret 8)) (memConfig (store earlyWorld)) opts (snd call)
   in fst call = (Inr 7, Some opts)
     \<and> fst (fst (getOrSetWithCodec demoCodec Background (memoryCache 0) ''k'' 0 None (constLoader (Ret 9)) FlightResult
         (demoWorld 0 (store (snd flight)) []))) = Inr 8"
proof -
  let ?cfg = "(memConfig demoMemory)\<lparr>earlyRefreshBeta := 4\<rparr>"
  obtain g wg where g: "memGet Background ''k'' earlyWorld = (g, wg)" by force
  obtain t wt where t: "timeNow wg = (t, wt)" by force
  have adv1: "advances earlyWorld wg" using memGet_frame [OF g] by simp
  then have adv: "advances earlyWorld wt" using timeNow_frame [OF t] by (blast intro: advances_trans)
  have rt: "rt wt = demoRuntime (1 / 2)" "rt wg = demoRuntime (1 / 2)"
    using advances_rt [OF adv] advances_rt [OF adv1] by simp_all
  have lo: "1700000000000000000 \<le> t" using timeNow_frame [OF t] now_mono [OF _ adv1] by simp
  have "t = clock (rt wg) (reads wg) \<or> t = clock (rt wg) (Suc (reads wg))" using t by (auto simp: timeNow_def now_def)
  then have "t \<le> 1700000000000002000" using memGet_reads [OF g] rt by auto
  then have fresh: "\<not> stale earlyEnvelope t" by (simp add: stale_def)
  note d = early_draw [OF rt(1) lo]
  let ?we = "wt\<lparr>draws := Suc (draws wt)\<rparr>"
  have adv': "advances earlyWorld ?we" using adv by (simp add: advances_def)
  obtain r w3 where f: "runRefresh Background (memoryCache 0) ''k'' 0 demoCodec (constLoader (Ret 8)) ?cfg
      (refreshOpts 0 ?cfg earlyEnvelope) ?we = (r, w3)" by force
  have codec: "demoCodec = effectiveCodec demoCodec None" by (simp add: effectiveCodec_def)
  have "now earlyWorld \<le> now ?we" using now_mono [OF _ adv'] by simp
  then have late: "now (demoWorld 0 (store w3) []) < now ?we + sint minute" by simp
  note r = early_refresh_reloads [where cfg = ?cfg and w = earlyWorld and t = t and data = earlyBytes and p = "[123, 8]" and q = "[123, 7]"
      and v = 8 and ?v0.0 = 7 and eff = minute and loader = "constLoader (Ret 8)" and ?loader0.0 = "constLoader (Ret 9)"
      and loader' = "constLoader (Ret 9)", OF _ codec _ _ earlyBytes_simps _ g t fresh _ _ _ _ _ _ _ _ _ _ adv' f _ late]
  have "getOrSetWithCodec demoCodec Background (memoryCache 0) ''k'' 0 None (constLoader (Ret 9)) sel earlyWorld
      = ((Inr 7, Some (refreshOpts 0 ?cfg earlyEnvelope)), ?we)
    \<and> fst (fst (getOrSetWithCodec demoCodec Background (memoryCache 0) ''k'' 0 None (constLoader (Ret 9)) FlightResult
        (demoWorld 0 (store w3) []))) = Inr 8" for sel
    by (rule r) (simp_all add: demoConfig d)
  then show ?thesis using f by (simp add: Let_def)
qed



text \<open>
  (C24) A refresh flight that finds an entry strictly fresher than the one that triggered it does
  not call the loader: whatever the loader is, it returns the bytes of that entry, and the
  content of the cache does not change.
\<close>

theorem fresher_entry_ends_refresh:
  assumes "wfRuntime (rt w)" "memView (store w) (clock (rt w) (Suc (reads w))) k = Some data"
    and "\<not> isNegativeEntry data" "parseStored cfg data = (env', q)" "Unmarshal codec q = Inr v"
    and "freshUntil env < freshUntil env'" "clock (rt w) (reads w + 2) \<le> freshUntil env'"
  shows "\<exists>w'. (\<forall>loader. runRefresh cx (memoryCache a) k ttl codec loader cfg (refreshOpts ttl cfg env) w
      = (Inr data, w')) \<and> (\<forall>t k'. now w' \<le> t \<longrightarrow> memView (store w') t k' = memView (store w) t k')"
proof -
  let ?opts = "refreshOpts ttl cfg env"
  let ?w1 = "w\<lparr>reads := Suc (reads w)\<rparr>"
  obtain fctx where fc: "flightContext cx ?opts w = (fctx, ?w1)"
    using refreshOpts_timeout_pos [of ttl cfg env]
    by (simp add: flightContext_def withTimeout_def timeNow_def Let_def)
  have "memView (store ?w1) (now ?w1) k = Some data" using assms(2) by (simp add: now_def)
  from memGet_present [OF this, of fctx] obtain w2 where g: "memGet fctx k ?w1 = (Inr data, w2)" ..
  note f2 = memGet_frame [OF g]
  have "now w2 \<le> clock (rt w) (reads w + 2)"
    using assms(1) f2 memGet_reads [OF g] by (auto simp: now_def wfRuntime_def advances_def intro: monoD)
  then have fresh: "\<not> stale env' (now w2)" using assms(7) by (simp add: stale_def)
  have "loadAndStore cx (memoryCache a) k ttl codec loader cfg ?opts w
      = (Ret data, w2\<lparr>reads := Suc (reads w2)\<rparr>)" for loader
    using fc g assms(3-6) fresh by (simp add: loadAndStore_def flightRecheck_def timeNow_def)
  then have "runRefresh cx (memoryCache a) k ttl codec loader cfg ?opts w
      = (Inr data, w2\<lparr>reads := Suc (reads w2)\<rparr>)" for loader
    by (simp add: runRefresh_def refreshBody_def flightBody_def)
  moreover have "memView (store w2) t k' = memView (store w) t k'"
    if "now (w2\<lparr>reads := Suc (reads w2)\<rparr>) \<le> t" for t k'
  proof -
    have "rt w2 = rt w" "Suc (reads w) \<le> Suc (reads w2)" using f2 by (auto simp: advances_def)
    then have "now ?w1 \<le> now (w2\<lparr>reads := Suc (reads w2)\<rparr>)"
      using assms(1) by (auto simp: now_def wfRuntime_def intro: monoD)
    with memGet_view [OF g, of t k'] that show ?thesis by simp
  qed
  ultimately show ?thesis by (intro exI [of _ "w2\<lparr>reads := Suc (reads w2)\<rparr>"]) simp
qed

theorem fresher_entry_ends_refresh_witness:
  "fst (runRefresh Background (memoryCache 0) ''k'' 0 demoCodec (constLoader (Ret 9))
      (memConfig (store (staleWorld 0)))
      (refreshOpts 0 (memConfig (store (staleWorld 0))) \<lparr>freshUntil = 1699999999000000000, delta = 0\<rparr>)
      (staleWorld 1700000050000000000)) = Inr (staleBytes 1700000050000000000)"
proof -
  let ?cfg = "(memConfig demoMemory)\<lparr>staleTTL := minute\<rparr>"
  have "Unmarshal demoCodec [123, 7] = Inr 7" by simp
  from fresher_entry_ends_refresh [where w = "staleWorld 1700000050000000000" and k = "''k''",
      OF _ _ staleBytes_simps(1,3) this, of "\<lparr>freshUntil = 1699999999000000000, delta = 0\<rparr>" Background 0 0]
  obtain w' where "\<forall>loader. runRefresh Background (memoryCache 0) ''k'' 0 demoCodec loader ?cfg
      (refreshOpts 0 ?cfg \<lparr>freshUntil = 1699999999000000000, delta = 0\<rparr>) (staleWorld 1700000050000000000)
      = (Inr (staleBytes 1700000050000000000), w')" by auto
  then show ?thesis by simp
qed

end
