(* ===== verification/Flights.thy ===== *)
theory Flights
  imports Loading
begin

text \<open>
  group.go with its goroutines: callers of \<open>do\<close> and \<open>doAsync\<close> run concurrently, and so do the flights they
  start or join. The state machine has one step per atomic event: a call registers with
  singleflight, a flight's function returns (its deferred recover and \<open>Forget\<close> have run), the call
  completes, a waiting caller's \<open>select\<close> picks the result or its own context.

  golang.org/x/sync/singleflight is third-party code and is a parameter: operations on a state
  \<open>'g\<close> whose documented behaviour is \<open>singleflight\<close>. A flight is identified by the number its
  registration got.
\<close>

section \<open>singleflight\<close>

text \<open>
  \<open>sfDoChan k i g\<close> registers a call for \<open>k\<close>, to be numbered \<open>i\<close> if it is a new one, and returns the number
  of the call it joined; \<open>sfForget\<close> is \<open>Forget\<close>; \<open>sfComplete\<close> is what singleflight does itself when
  the function of call \<open>i\<close> has returned. \<open>inflight\<close> is the call later callers would join.
\<close>

record 'g sfOps =
  sfDoChan :: "string \<Rightarrow> nat \<Rightarrow> 'g \<Rightarrow> nat \<times> 'g"
  sfForget :: "string \<Rightarrow> 'g \<Rightarrow> 'g"
  sfComplete :: "string \<Rightarrow> nat \<Rightarrow> 'g \<Rightarrow> 'g"

definition singleflight :: "'g sfOps \<Rightarrow> ('g \<Rightarrow> string \<rightharpoonup> nat) \<Rightarrow> bool" where
  "singleflight sf inflight \<longleftrightarrow>
     (\<forall>k i g j g'. sfDoChan sf k i g = (j, g') \<longrightarrow> (case inflight g k of
        Some j0 \<Rightarrow> j = j0 \<and> inflight g' = inflight g
      | None \<Rightarrow> j = i \<and> inflight g' = (inflight g)(k \<mapsto> i)))
   \<and> (\<forall>k g. inflight (sfForget sf k g) = (inflight g)(k := None))
   \<and> (\<forall>k i g. inflight (sfComplete sf k i g)
        = (if inflight g k = Some i then (inflight g)(k := None) else inflight g))"

section \<open>The machine\<close>

datatype phase = Running | Returned "gerror + bytes" | Finished "gerror + bytes"

record flight =
  fKey :: string
  fPhase :: phase

datatype caller = Waiting nat | Received nat "gerror + bytes" | GaveUp nat gerror

record 'g gstate =
  sfState :: 'g
  flights :: "nat \<rightharpoonup> flight"
  callers :: "nat \<rightharpoonup> caller"
  nextId :: nat

definition emptyGroup :: "'g \<Rightarrow> 'g gstate" where
  "emptyGroup g = \<lparr>sfState = g, flights = Map.empty, callers = Map.empty, nextId = 0\<rparr>"

text \<open>\<open>start\<close>: the function runs only when singleflight made a new call for the key.\<close>

definition groupStart :: "'g sfOps \<Rightarrow> string \<Rightarrow> 'g gstate \<Rightarrow> nat \<times> 'g gstate" where
  "groupStart sf k s = (case sfDoChan sf k (nextId s) (sfState s) of (j, g') \<Rightarrow>
     (j, s\<lparr>sfState := g', nextId := Suc (nextId s),
       flights := (if j = nextId s then (flights s)(j \<mapsto> \<lparr>fKey = k, fPhase = Running\<rparr>) else flights s)\<rparr>))"

text \<open>A caller \<open>a\<close> of \<open>do\<close> up to its \<open>select\<close>, and a caller of \<open>doAsync\<close>.\<close>

definition callDo :: "'g sfOps \<Rightarrow> nat \<Rightarrow> string \<Rightarrow> 'g gstate \<Rightarrow> 'g gstate" where
  "callDo sf a k s = (case groupStart sf k s of (j, s') \<Rightarrow> s'\<lparr>callers := (callers s')(a \<mapsto> Waiting j)\<rparr>)"

definition callDoAsync :: "'g sfOps \<Rightarrow> string \<Rightarrow> 'g gstate \<Rightarrow> 'g gstate" where
  "callDoAsync sf k s = snd (groupStart sf k s)"

text \<open>What the deferred functions of \<open>start\<close> make of the outcome of \<open>fn\<close>.\<close>

definition recovered :: "bytes outcome \<Rightarrow> gerror + bytes" where
  "recovered out = (case out of Ret x \<Rightarrow> Inr x | Err e \<Rightarrow> Inl e
     | Panic p \<Rightarrow> Inl (Errorf ''cachekit: loader panic: %v'' [Str p]))"

definition setPhase :: "nat \<Rightarrow> flight \<Rightarrow> phase \<Rightarrow> 'g gstate \<Rightarrow> 'g gstate" where
  "setPhase i f p s = s\<lparr>flights := (flights s)(i \<mapsto> f\<lparr>fPhase := p\<rparr>)\<rparr>"

text \<open>The steps. Labels name the event and who takes part in it.\<close>

datatype groupEvent = DoCalled nat string | AsyncCalled string | FnReturned nat "bytes outcome" | CallCompleted nat
  | ResultChosen nat | CtxChosen nat gerror

inductive gstep :: "'g sfOps \<Rightarrow> 'g gstate \<Rightarrow> groupEvent \<Rightarrow> 'g gstate \<Rightarrow> bool" for sf where
  do_called: "callers s a = None \<Longrightarrow> gstep sf s (DoCalled a k) (callDo sf a k s)"
| async_called: "gstep sf s (AsyncCalled k) (callDoAsync sf k s)"
| fn_returned: "flights s i = Some f \<Longrightarrow> fPhase f = Running \<Longrightarrow>
    gstep sf s (FnReturned i out)
      (setPhase i f (Returned (recovered out)) (s\<lparr>sfState := sfForget sf (fKey f) (sfState s)\<rparr>))"
| call_completed: "flights s i = Some f \<Longrightarrow> fPhase f = Returned r \<Longrightarrow>
    gstep sf s (CallCompleted i) (setPhase i f (Finished r) (s\<lparr>sfState := sfComplete sf (fKey f) i (sfState s)\<rparr>))"
| result_chosen: "callers s a = Some (Waiting j) \<Longrightarrow> flights s j = Some f \<Longrightarrow> fPhase f = Finished r \<Longrightarrow>
    gstep sf s (ResultChosen a) (s\<lparr>callers := (callers s)(a \<mapsto> Received j r)\<rparr>)"
| ctx_chosen: "callers s a = Some (Waiting j) \<Longrightarrow>
    gstep sf s (CtxChosen a e) (s\<lparr>callers := (callers s)(a \<mapsto> GaveUp j e)\<rparr>)"

inductive_cases resultE: "gstep sf s (ResultChosen a) s'"
inductive_cases ctxE: "gstep sf s (CtxChosen a e) s'"

inductive greach :: "'g sfOps \<Rightarrow> 'g gstate \<Rightarrow> 'g gstate \<Rightarrow> bool" for sf s0 where
  init: "greach sf s0 s0"
| step: "greach sf s0 s \<Longrightarrow> gstep sf s ev s' \<Longrightarrow> greach sf s0 s'"

section \<open>The invariant\<close>

text \<open>
  singleflight's registered calls are exactly the flights whose function is running; flights are
  numbered below \<open>nextId\<close>; a caller waits for an existing flight and received what it returned.
\<close>

definition gInv :: "('g \<Rightarrow> string \<rightharpoonup> nat) \<Rightarrow> 'g gstate \<Rightarrow> bool" where
  "gInv inflight s \<longleftrightarrow>
     (\<forall>k i. inflight (sfState s) k = Some i \<longleftrightarrow> flights s i = Some \<lparr>fKey = k, fPhase = Running\<rparr>)
   \<and> (\<forall>i. flights s i \<noteq> None \<longrightarrow> i < nextId s)
   \<and> (\<forall>a j. callers s a = Some (Waiting j) \<longrightarrow> flights s j \<noteq> None)
   \<and> (\<forall>a j r. callers s a = Some (Received j r) \<longrightarrow> (\<exists>f. flights s j = Some f \<and> fPhase f = Finished r))"

lemma gInvD:
  assumes "gInv inflight s"
  shows "inflight (sfState s) k = Some i \<longleftrightarrow> flights s i = Some \<lparr>fKey = k, fPhase = Running\<rparr>"
    and "flights s i = Some f \<Longrightarrow> i < nextId s"
    and "callers s a = Some (Waiting j) \<Longrightarrow> \<exists>f. flights s j = Some f"
    and "callers s a = Some (Received j r) \<Longrightarrow> \<exists>f. flights s j = Some f \<and> fPhase f = Finished r"
  using assms unfolding gInv_def by blast+

lemma gInvI:
  assumes "\<And>k i. inflight (sfState s) k = Some i \<longleftrightarrow> flights s i = Some \<lparr>fKey = k, fPhase = Running\<rparr>"
    and "\<And>i f. flights s i = Some f \<Longrightarrow> i < nextId s"
    and "\<And>a j. callers s a = Some (Waiting j) \<Longrightarrow> \<exists>f. flights s j = Some f"
    and "\<And>a j r. callers s a = Some (Received j r) \<Longrightarrow> \<exists>f. flights s j = Some f \<and> fPhase f = Finished r"
  shows "gInv inflight s"
  unfolding gInv_def using assms by blast

lemma singleflightD:
  assumes "singleflight sf inflight"
  shows "sfDoChan sf k i g = (j, g') \<Longrightarrow> inflight g k = Some j0 \<Longrightarrow> j = j0 \<and> inflight g' = inflight g"
    and "sfDoChan sf k i g = (j, g') \<Longrightarrow> inflight g k = None \<Longrightarrow> j = i \<and> inflight g' = (inflight g)(k \<mapsto> i)"
    and "inflight (sfForget sf k g) = (inflight g)(k := None)"
    and "inflight (sfComplete sf k i g) = (if inflight g k = Some i then (inflight g)(k := None) else inflight g)"
proof -
  note l = assms [unfolded singleflight_def]
  show "sfDoChan sf k i g = (j, g') \<Longrightarrow> inflight g k = Some j0 \<Longrightarrow> j = j0 \<and> inflight g' = inflight g"
    using l [THEN conjunct1, rule_format, of k i g j g'] by simp
  show "sfDoChan sf k i g = (j, g') \<Longrightarrow> inflight g k = None \<Longrightarrow> j = i \<and> inflight g' = (inflight g)(k \<mapsto> i)"
    using l [THEN conjunct1, rule_format, of k i g j g'] by simp
  show "inflight (sfForget sf k g) = (inflight g)(k := None)" using l by blast
  show "inflight (sfComplete sf k i g) = (if inflight g k = Some i then (inflight g)(k := None) else inflight g)"
    using l by blast
qed

lemma flight_split: "fKey f = k \<Longrightarrow> fPhase f = p \<Longrightarrow> f = \<lparr>fKey = k, fPhase = p\<rparr>"
  by (cases f) simp

lemma groupStart_inv:
  assumes sf: "singleflight sf inflight" and inv: "gInv inflight s" and st: "groupStart sf k s = (j, s')"
  shows "gInv inflight s' \<and> flights s' j = Some \<lparr>fKey = k, fPhase = Running\<rparr> \<and> callers s' = callers s"
proof -
  obtain g' where d: "sfDoChan sf k (nextId s) (sfState s) = (j, g')"
    using st by (auto simp: groupStart_def split: prod.splits)
  have s': "s' = s\<lparr>sfState := g', nextId := Suc (nextId s),
       flights := (if j = nextId s then (flights s)(j \<mapsto> \<lparr>fKey = k, fPhase = Running\<rparr>) else flights s)\<rparr>"
    using st d by (simp add: groupStart_def)
  have fresh: "flights s (nextId s) = None" using gInvD(2) [OF inv, of "nextId s"] by fastforce
  show ?thesis
  proof (cases "inflight (sfState s) k")
    case (Some j0)
    with singleflightD(1) [OF sf d] have j: "j = j0" "inflight g' = inflight (sfState s)" by simp_all
    with Some gInvD(1) [OF inv, of k j] have f: "flights s j = Some \<lparr>fKey = k, fPhase = Running\<rparr>" by simp
    with fresh have "j \<noteq> nextId s" by auto
    then have eq: "flights s' = flights s" "callers s' = callers s" "nextId s' = Suc (nextId s)" "sfState s' = g'"
      using s' by simp_all
    have "gInv inflight s'"
      by (rule gInvI; unfold eq j(2)) (use gInvD [OF inv] in \<open>auto simp: less_SucI\<close>)
    with f eq show ?thesis by simp
  next
    case None
    with singleflightD(2) [OF sf d] have j: "j = nextId s" "inflight g' = (inflight (sfState s))(k \<mapsto> nextId s)"
      by simp_all
    have eq: "flights s' = (flights s)(nextId s \<mapsto> \<lparr>fKey = k, fPhase = Running\<rparr>)" "callers s' = callers s"
      "nextId s' = Suc (nextId s)" "sfState s' = g'" using s' j by simp_all
    have nr: "flights s i \<noteq> Some \<lparr>fKey = k, fPhase = Running\<rparr>" for i using gInvD(1) [OF inv, of k i] None by simp
    have "gInv inflight s'"
    proof (rule gInvI; unfold eq)
      show "inflight g' k' = Some i \<longleftrightarrow>
          ((flights s)(nextId s \<mapsto> \<lparr>fKey = k, fPhase = Running\<rparr>)) i = Some \<lparr>fKey = k', fPhase = Running\<rparr>" for k' i
        using gInvD(1) [OF inv, of k' i] nr [of i] fresh j(2) by (cases "i = nextId s"; cases "k' = k") auto
      show "((flights s)(nextId s \<mapsto> \<lparr>fKey = k, fPhase = Running\<rparr>)) i = Some f \<Longrightarrow> i < Suc (nextId s)" for i f
        using gInvD(2) [OF inv, of i f] by (auto split: if_splits)
      show "callers s a = Some (Waiting i) \<Longrightarrow>
          \<exists>f. ((flights s)(nextId s \<mapsto> \<lparr>fKey = k, fPhase = Running\<rparr>)) i = Some f" for a i
        using gInvD(3) [OF inv, of a i] by auto
      show "callers s a = Some (Received i r) \<Longrightarrow>
          \<exists>f. ((flights s)(nextId s \<mapsto> \<lparr>fKey = k, fPhase = Running\<rparr>)) i = Some f \<and> fPhase f = Finished r" for a i r
        using gInvD(4) [OF inv, of a i r] fresh by auto
    qed
    with eq j show ?thesis by simp
  qed
qed

text \<open>A registration joins the running flight of the key, or starts a new one when there is none.\<close>

lemma groupStart_cases:
  assumes sf: "singleflight sf inflight" and inv: "gInv inflight s" and st: "groupStart sf k s = (j, s')"
  obtains (join) "flights s j = Some \<lparr>fKey = k, fPhase = Running\<rparr>" "j \<noteq> nextId s" "flights s' = flights s"
      "flights s (nextId s) = None" "callers s' = callers s"
  | (start) "j = nextId s" "\<forall>i. flights s i \<noteq> Some \<lparr>fKey = k, fPhase = Running\<rparr>" "flights s (nextId s) = None"
      "flights s' = (flights s)(nextId s \<mapsto> \<lparr>fKey = k, fPhase = Running\<rparr>)" "callers s' = callers s"
proof -
  obtain g' where d: "sfDoChan sf k (nextId s) (sfState s) = (j, g')"
    using st by (auto simp: groupStart_def split: prod.splits)
  have s': "s' = s\<lparr>sfState := g', nextId := Suc (nextId s),
       flights := (if j = nextId s then (flights s)(j \<mapsto> \<lparr>fKey = k, fPhase = Running\<rparr>) else flights s)\<rparr>"
    using st d by (simp add: groupStart_def)
  have fresh: "flights s (nextId s) = None" using gInvD(2) [OF inv, of "nextId s"] by fastforce
  show thesis
  proof (cases "inflight (sfState s) k")
    case (Some j0)
    with singleflightD(1) [OF sf d] gInvD(1) [OF inv, of k j] 
    have f: "flights s j = Some \<lparr>fKey = k, fPhase = Running\<rparr>" by simp
    with fresh have "j \<noteq> nextId s" by auto
    with f s' fresh show thesis by (intro join) simp_all
  next
    case None
    with singleflightD(2) [OF sf d] have "j = nextId s" by simp
    moreover have "\<forall>i. flights s i \<noteq> Some \<lparr>fKey = k, fPhase = Running\<rparr>" using gInvD(1) [OF inv, of k] None by simp
    ultimately show thesis using s' fresh by (intro start) simp_all
  qed
qed

lemma setPhase_sel [simp]: "flights (setPhase i f p s) = (flights s)(i \<mapsto> f\<lparr>fPhase := p\<rparr>)"
  "callers (setPhase i f p s) = callers s" "nextId (setPhase i f p s) = nextId s"
  "sfState (setPhase i f p s) = sfState s"
  by (simp_all add: setPhase_def)

lemma fnReturned_inv:
  assumes sf: "singleflight sf inflight" and inv: "gInv inflight s"
    and f: "flights s i = Some f" "fPhase f = Running"
  shows "gInv inflight (setPhase i f (Returned r) (s\<lparr>sfState := sfForget sf (fKey f) (sfState s)\<rparr>))" (is "gInv _ ?s")
proof (rule gInvI)
  have own: "inflight (sfState s) (fKey f) = Some i"
    using gInvD(1) [OF inv, of "fKey f" i] f flight_split [of f] by simp
  show "inflight (sfState ?s) k = Some i' \<longleftrightarrow> flights ?s i' = Some \<lparr>fKey = k, fPhase = Running\<rparr>" for k i'
  proof (cases "i' = i")
    case True
    have "inflight (sfState s) k = Some i \<Longrightarrow> k = fKey f" using gInvD(1) [OF inv, of k i] f by simp
    with True show ?thesis by (cases f) (auto simp: singleflightD(3) [OF sf])
  next
    case False
    with own gInvD(1) [OF inv, of k i'] gInvD(1) [OF inv, of "fKey f" i'] show ?thesis
      by (auto simp: singleflightD(3) [OF sf])
  qed
qed (use f gInvD(2-4) [OF inv] in \<open>auto split: if_splits\<close>, metis phase.distinct(3) option.inject f)

lemma completed_inv:
  assumes sf: "singleflight sf inflight" and inv: "gInv inflight s"
    and f: "flights s i = Some f" "fPhase f = Returned r"
  shows "gInv inflight (setPhase i f (Finished r) (s\<lparr>sfState := sfComplete sf (fKey f) i (sfState s)\<rparr>))" (is "gInv _ ?s")
proof (rule gInvI)
  have own: "inflight (sfState s) (fKey f) \<noteq> Some i"
    using gInvD(1) [OF inv, of "fKey f" i] f by (cases f) auto
  show "inflight (sfState ?s) k = Some i' \<longleftrightarrow> flights ?s i' = Some \<lparr>fKey = k, fPhase = Running\<rparr>" for k i'
    using own gInvD(1) [OF inv, of k i'] f
    by (cases f) (auto simp: singleflightD(4) [OF sf])
qed (use f gInvD(2-4) [OF inv] in \<open>auto split: if_splits\<close>, metis phase.distinct(5) option.inject f)

lemma gstep_inv:
  assumes sf: "singleflight sf inflight" and inv: "gInv inflight s" and st: "gstep sf s ev s'"
  shows "gInv inflight s'"
  using st inv
proof (induction rule: gstep.induct)
  case (do_called s a k)
  obtain j s1 where g: "groupStart sf k s = (j, s1)" by force
  note i = groupStart_inv [OF sf do_called(2) g]
  have "gInv inflight (s1\<lparr>callers := (callers s1)(a \<mapsto> Waiting j)\<rparr>)"
    by (rule gInvI) (use i gInvD [of inflight s1] in \<open>auto split: if_splits\<close>)
  with g show ?case by (simp add: callDo_def)
next
  case (async_called s k)
  obtain j s1 where g: "groupStart sf k s = (j, s1)" by force
  with groupStart_inv [OF sf async_called g] show ?case by (simp add: callDoAsync_def)
next
  case (fn_returned s i f out)
  from fnReturned_inv [OF sf fn_returned(3,1,2)] show ?case .
next
  case (call_completed s i f r)
  from completed_inv [OF sf call_completed(3,1,2)] show ?case .
next
  case (result_chosen s a j f r)
  show ?case by (rule gInvI) (use gInvD [OF result_chosen(4)] result_chosen(2,3) in \<open>auto split: if_splits\<close>)
next
  case (ctx_chosen s a j e)
  show ?case by (rule gInvI) (use gInvD [OF ctx_chosen(2)] in \<open>auto split: if_splits\<close>)
qed

lemma greach_inv:
  assumes "singleflight sf inflight" "greach sf (emptyGroup g0) s" "inflight g0 = Map.empty"
  shows "gInv inflight s"
  using assms(2)
proof (induction rule: greach.induct)
  case init
  show ?case by (rule gInvI) (simp_all add: emptyGroup_def assms(3))
qed (rule gstep_inv [OF assms(1)])

lemma single_flight_per_key_core:
  assumes "singleflight sf inflight" "inflight g0 = Map.empty" "greach sf (emptyGroup g0) s"
    and "flights s i = Some f" "fPhase f = Running" "flights s j = Some f'" "fPhase f' = Running" "fKey f = fKey f'"
  shows "i = j"
proof -
  note inv = greach_inv [OF assms(1,3,2)]
  from gInvD(1) [OF inv, of "fKey f" i] gInvD(1) [OF inv, of "fKey f" j] assms(4-8) show ?thesis
    by (cases f; cases f') simp
qed

section \<open>Progress\<close>

lemma finish_flight:
  assumes "flights s i = Some f"
  shows "\<exists>s' f' r. greach sf s s' \<and> callers s' = callers s \<and> flights s' i = Some f' \<and> fPhase f' = Finished r"
proof (cases "fPhase f")
  case Running
  let ?r = "recovered (Err Canceled)"
  let ?s1 = "setPhase i f (Returned ?r) (s\<lparr>sfState := sfForget sf (fKey f) (sfState s)\<rparr>)"
  let ?f1 = "f\<lparr>fPhase := Returned ?r\<rparr>"
  have 1: "gstep sf s (FnReturned i (Err Canceled)) ?s1" using assms Running by (rule fn_returned)
  have f1: "flights ?s1 i = Some ?f1" "fPhase ?f1 = Returned ?r" by simp_all
  have 2: "gstep sf ?s1 (CallCompleted i) (setPhase i ?f1 (Finished ?r)
      (?s1\<lparr>sfState := sfComplete sf (fKey ?f1) i (sfState ?s1)\<rparr>))" (is "gstep _ _ _ ?s2")
    using f1 by (rule call_completed)
  have "greach sf s ?s2" by (rule greach.step [OF greach.step [OF greach.init 1] 2])
  moreover have "callers ?s2 = callers s" "flights ?s2 i = Some (?f1\<lparr>fPhase := Finished ?r\<rparr>)" by simp_all
  moreover have "fPhase (?f1\<lparr>fPhase := Finished ?r\<rparr>) = Finished ?r" by simp
  ultimately show ?thesis by blast
next
  case (Returned r)
  let ?s2 = "setPhase i f (Finished r) (s\<lparr>sfState := sfComplete sf (fKey f) i (sfState s)\<rparr>)"
  have "gstep sf s (CallCompleted i) ?s2" using assms Returned by (rule call_completed)
  then have "greach sf s ?s2" by (rule greach.step [OF greach.init])
  moreover have "callers ?s2 = callers s" "flights ?s2 i = Some (f\<lparr>fPhase := Finished r\<rparr>)" by simp_all
  moreover have "fPhase (f\<lparr>fPhase := Finished r\<rparr>) = Finished r" by simp
  ultimately show ?thesis by blast
next
  case (Finished r)
  with assms show ?thesis by (blast intro: greach.init)
qed

section \<open>A reference singleflight\<close>

definition mapFlights :: "(string \<rightharpoonup> nat) sfOps" where
  "mapFlights = \<lparr>sfDoChan = (\<lambda>k i g. case g k of Some j \<Rightarrow> (j, g) | None \<Rightarrow> (i, g(k \<mapsto> i))),
     sfForget = (\<lambda>k g. g(k := None)),
     sfComplete = (\<lambda>k i g. if g k = Some i then g(k := None) else g)\<rparr>"

lemma mapFlights_singleflight: "singleflight mapFlights (\<lambda>g. g)"
  by (auto simp: singleflight_def mapFlights_def split: option.splits)

text \<open>Two callers of one key.\<close>

definition twoCallers :: "(string \<rightharpoonup> nat) gstate" where
  "twoCallers = callDo mapFlights 2 ''k'' (callDo mapFlights 1 ''k'' (emptyGroup Map.empty))"

lemma twoCallers_reach: "greach mapFlights (emptyGroup Map.empty) twoCallers"
proof -
  let ?s1 = "callDo mapFlights 1 ''k'' (emptyGroup Map.empty)"
  have "greach mapFlights (emptyGroup Map.empty) ?s1"
    by (rule greach.step [OF greach.init do_called]) (simp add: emptyGroup_def)
  moreover have "callers ?s1 2 = None"
    by (simp add: callDo_def groupStart_def emptyGroup_def mapFlights_def)
  ultimately show ?thesis unfolding twoCallers_def by (rule greach.step [OF _ do_called])
qed

lemma twoCallers_simps:
  "flights twoCallers 0 = Some \<lparr>fKey = ''k'', fPhase = Running\<rparr>"
  "callers twoCallers 1 = Some (Waiting 0)" "callers twoCallers 2 = Some (Waiting 0)"
  by (simp_all add: twoCallers_def callDo_def groupStart_def emptyGroup_def mapFlights_def)

text \<open>Both callers served: the flight's function panics, and both receive the error.\<close>

definition servedCallers :: "(string \<rightharpoonup> nat) gstate" where
  "servedCallers = (let f = \<lparr>fKey = ''k'', fPhase = Running\<rparr>; r = recovered (Panic ''boom'');
       s1 = setPhase 0 f (Returned r) (twoCallers\<lparr>sfState := sfForget mapFlights ''k'' (sfState twoCallers)\<rparr>);
       s2 = setPhase 0 (f\<lparr>fPhase := Returned r\<rparr>) (Finished r)
              (s1\<lparr>sfState := sfComplete mapFlights ''k'' 0 (sfState s1)\<rparr>)
     in s2\<lparr>callers := (callers s2)(1 \<mapsto> Received 0 r, 2 \<mapsto> Received 0 r)\<rparr>)"

lemma servedCallers_reach: "greach mapFlights (emptyGroup Map.empty) servedCallers"
proof -
  let ?f = "\<lparr>fKey = ''k'', fPhase = Running\<rparr>" and ?r = "recovered (Panic ''boom'')"
  let ?f1 = "?f\<lparr>fPhase := Returned ?r\<rparr>"
  let ?s1 = "setPhase 0 ?f (Returned ?r) (twoCallers\<lparr>sfState := sfForget mapFlights (fKey ?f) (sfState twoCallers)\<rparr>)"
  let ?s2 = "setPhase 0 ?f1 (Finished ?r) (?s1\<lparr>sfState := sfComplete mapFlights (fKey ?f1) 0 (sfState ?s1)\<rparr>)"
  let ?s3 = "?s2\<lparr>callers := (callers ?s2)(1 \<mapsto> Received 0 ?r)\<rparr>"
  let ?s4 = "?s3\<lparr>callers := (callers ?s3)(2 \<mapsto> Received 0 ?r)\<rparr>"
  have 1: "gstep mapFlights twoCallers (FnReturned 0 (Panic ''boom'')) ?s1"
    by (rule fn_returned [OF twoCallers_simps(1)]) simp
  have 2: "gstep mapFlights ?s1 (CallCompleted 0) ?s2"
    by (rule call_completed) (simp_all add: setPhase_def)
  have 3: "gstep mapFlights ?s2 (ResultChosen 1) ?s3"
    by (rule result_chosen [where f = "?f1\<lparr>fPhase := Finished ?r\<rparr>"]) (simp_all add: setPhase_def twoCallers_simps [simplified])
  have 4: "gstep mapFlights ?s3 (ResultChosen 2) ?s4"
    by (rule result_chosen [where f = "?f1\<lparr>fPhase := Finished ?r\<rparr>"]) (simp_all add: setPhase_def twoCallers_simps [simplified])
  note greach.step [OF greach.step [OF greach.step [OF greach.step [OF twoCallers_reach 1] 2] 3] 4]
  then show ?thesis by (simp add: servedCallers_def Let_def)
qed

section \<open>Properties\<close>

text \<open>
  (C8) Single flight: in every reachable state of any interleaving, at most one load function runs
  per flight key.
\<close>

theorem single_flight_per_key:
  assumes "singleflight sf inflight" "inflight g0 = Map.empty" "greach sf (emptyGroup g0) s"
    and "flights s i = Some f" "fPhase f = Running" "flights s j = Some f'" "fPhase f' = Running" "fKey f = fKey f'"
  shows "i = j"
  using assms by (rule single_flight_per_key_core)

theorem single_flight_per_key_witness:
  "\<exists>s. greach mapFlights (emptyGroup Map.empty) s
     \<and> (\<forall>j f. flights s j = Some f \<longrightarrow> fPhase f = Running \<longrightarrow> fKey f = ''k'' \<longrightarrow> j = 0)"
proof -
  have "j = 0" if "flights twoCallers j = Some f" "fPhase f = Running" "fKey f = ''k''" for j f
    using single_flight_per_key [OF mapFlights_singleflight refl twoCallers_reach that(1,2) twoCallers_simps(1)] that(3)
    by simp
  with twoCallers_reach show ?thesis by blast
qed

text \<open>
  A call for a key whose function is running joins that flight and starts nothing; otherwise it
  starts exactly one new flight, for which it waits.
\<close>

theorem call_joins_or_starts:
  assumes "singleflight sf inflight" "inflight g0 = Map.empty" "greach sf (emptyGroup g0) s"
  shows "(\<exists>i. flights s i = Some \<lparr>fKey = k, fPhase = Running\<rparr> \<and> callers (callDo sf a k s) a = Some (Waiting i)
        \<and> flights (callDo sf a k s) = flights s)
    \<or> ((\<forall>i. flights s i \<noteq> Some \<lparr>fKey = k, fPhase = Running\<rparr>)
        \<and> callers (callDo sf a k s) a = Some (Waiting (nextId s)) \<and> flights s (nextId s) = None
        \<and> flights (callDo sf a k s) = (flights s)(nextId s \<mapsto> \<lparr>fKey = k, fPhase = Running\<rparr>))"
proof -
  note inv = greach_inv [OF assms(1,3,2)]
  obtain j s' where g: "groupStart sf k s = (j, s')" by force
  from assms(1) inv g show ?thesis
  proof (cases rule: groupStart_cases)
    case join
    with g show ?thesis by (intro disjI1 exI [of _ j]) (simp add: callDo_def)
  next
    case start
    with g show ?thesis by (intro disjI2) (simp add: callDo_def)
  qed
qed

theorem call_joins_or_starts_witness:
  "callers (callDo mapFlights 3 ''k'' twoCallers) 3 = Some (Waiting 0)"
proof -
  from call_joins_or_starts [OF mapFlights_singleflight refl twoCallers_reach, of "''k''" 3]
    single_flight_per_key_core [OF mapFlights_singleflight refl twoCallers_reach _ _ twoCallers_simps(1)]
  show ?thesis using twoCallers_simps(1) by fastforce
qed

text \<open>
  A waiter that gives up on its own context disturbs nobody: the flights and the other waiters
  are as before, and every other waiting caller can still receive the result of its flight.
\<close>

theorem waiters_are_served:
  assumes "singleflight sf inflight" "inflight g0 = Map.empty" "greach sf (emptyGroup g0) s"
    and "callers s a = Some (Waiting i)" "gstep sf s (CtxChosen b e) s1" "b \<noteq> a"
  shows "flights s1 = flights s \<and> callers s1 a = Some (Waiting i)
    \<and> (\<exists>s' r. greach sf s1 s' \<and> callers s' a = Some (Received i r))"
proof -
  have s1: "flights s1 = flights s" "callers s1 a = Some (Waiting i)"
    using assms(5) assms(4,6) by (auto elim: ctxE)
  obtain f where "flights s1 i = Some f" using gInvD(3) [OF greach_inv [OF assms(1,3,2)] assms(4)] s1 by auto
  from finish_flight [OF this, of sf] obtain s2 f' r where s2: "greach sf s1 s2" "callers s2 = callers s1"
    "flights s2 i = Some f'" "fPhase f' = Finished r" by blast
  have "gstep sf s2 (ResultChosen a) (s2\<lparr>callers := (callers s2)(a \<mapsto> Received i r)\<rparr>)"
    using s1(2) s2 by (intro result_chosen [of s2 a i f' r]) simp_all
  with s2(1) have "greach sf s1 (s2\<lparr>callers := (callers s2)(a \<mapsto> Received i r)\<rparr>)" by (rule greach.step)
  with s1 show ?thesis by (metis fun_upd_same gstate.select_convs(3) gstate.surjective gstate.update_convs(3))
qed

theorem waiters_are_served_witness:
  "\<exists>s' r. greach mapFlights (twoCallers\<lparr>callers := (callers twoCallers)(2 \<mapsto> GaveUp 0 Canceled)\<rparr>) s'
     \<and> callers s' 1 = Some (Received 0 r)"
  using waiters_are_served [OF mapFlights_singleflight refl twoCallers_reach twoCallers_simps(2)
      ctx_chosen [OF twoCallers_simps(3)]] by simp

text \<open>
  Callers that received the result of the same flight received the same result.
\<close>

theorem waiters_share_result:
  assumes "singleflight sf inflight" "inflight g0 = Map.empty" "greach sf (emptyGroup g0) s"
    and "callers s a = Some (Received i r)" "callers s b = Some (Received i r')"
  shows "r = r'"
proof -
  note inv = greach_inv [OF assms(1,3,2)]
  from gInvD(4) [OF inv assms(4)] gInvD(4) [OF inv assms(5)] show ?thesis by auto
qed

theorem waiters_share_result_witness:
  "\<exists>r. callers servedCallers 1 = Some (Received 0 r) \<and> callers servedCallers 2 = Some (Received 0 r)"
proof -
  obtain r r' where c: "callers servedCallers 1 = Some (Received 0 r)" "callers servedCallers 2 = Some (Received 0 r')"
    by (simp add: servedCallers_def Let_def)
  from waiters_share_result [OF mapFlights_singleflight refl servedCallers_reach this] c show ?thesis by simp
qed

end
