(* ===== verification/Interleaving.thy ===== *)
theory Interleaving
  imports GetOrSet Flights
begin

text \<open>
  The helper of cache.go and the group of group.go together: any number of concurrent \<open>GetOrSet\<close>
  calls on one cache, with the flights they start or join, interleaved step by step. A step of a
  call or of a flight makes at most one backend operation or one loader invocation, so between the
  read of a corrupted entry and its deletion, or between the re-check and the loader, any other
  call may act. The group part of the state moves by the steps of theory Flights.

  The lemmas show that the machine refines the machine of Flights, that it keeps track of the functions
  of the running flights, and that a call which runs undisturbed computes exactly \<open>getOrSetWithCodec\<close>.
\<close>

section \<open>The phases of a call, cut at the backend operations\<close>

text \<open>One call of the helper: its arguments and the configuration it read from the cache.\<close>

record ('v, 's, 'h) call =
  clCtx :: ctx
  clKey :: key
  clTTL :: duration
  clCodec :: "'v Codec"
  clLoader :: "('v, 's, 'h) loader"
  clCfg :: "'h cacheConfig"

datatype 'v lookupStep = Answer "gerror + 'v" "flightOpts option" | Heal gerror | Miss

definition lookupRead :: "('s, 'h) Cache \<Rightarrow> ('v, 's, 'h) call \<Rightarrow> ('s, 'h) world \<Rightarrow>
    'v lookupStep \<times> ('s, 'h) world" where
  "lookupRead c j w = (case cGet c (clCtx j) (clKey j) w of
       (Inl _, w1) \<Rightarrow> (Miss, w1)
     | (Inr data, w1) \<Rightarrow>
         if isNegativeEntry data then (Answer (Inl (notFoundError (clKey j))) None, w1)
         else case parseStored (clCfg j) data of (env, payload) \<Rightarrow>
           (case Unmarshal (clCodec j) payload of
              Inl e \<Rightarrow> (Heal e, w1)
            | Inr v \<Rightarrow> (case timeNow w1 of (t, w2) \<Rightarrow>
                if stale env t then (Answer (Inr v) (Some (refreshOpts (clTTL j) (clCfg j) env)), w2)
                else case shouldEarlyRefresh env t (earlyRefreshBeta (clCfg j)) w2 of (early, w3) \<Rightarrow>
                  (Answer (Inr v) (if early then Some (refreshOpts (clTTL j) (clCfg j) env) else None), w3))))"

text \<open>The self-heal of \<open>GetOrSetWithCodec\<close> (with the caller's context) and of a flight (with its own).\<close>

definition healEntry :: "('s, 'h) Cache \<Rightarrow> ('v, 's, 'h) call \<Rightarrow> ctx \<Rightarrow> gerror \<Rightarrow> ('s, 'h) world \<Rightarrow>
    ('s, 'h) world" where
  "healEntry c j cx e w = snd (cDelete c cx (clKey j) (hookError (hooks (clCfg j)) OpDecode (clKey j) e w))"

lemma lookupPhase_steps:
  "lookupPhase (clCtx j) c (clKey j) (clTTL j) (clCodec j) (clCfg j) w = (case lookupRead c j w of
      (Answer r req, w1) \<Rightarrow> (Serve r req, w1)
    | (Heal e, w1) \<Rightarrow> (GoLoad, healEntry c j (clCtx j) e w1)
    | (Miss, w1) \<Rightarrow> (GoLoad, w1))"
  by (auto simp: lookupPhase_def lookupRead_def healEntry_def split: sum.splits prod.splits)

datatype recheckStep = Found bytes | FoundCorrupt gerror | NotFound

definition recheckRead :: "('s, 'h) Cache \<Rightarrow> ('v, 's, 'h) call \<Rightarrow> flightOpts \<Rightarrow> ctx \<Rightarrow> ('s, 'h) world \<Rightarrow>
    recheckStep \<times> ('s, 'h) world" where
  "recheckRead c j opts fctx w = (case cGet c fctx (clKey j) w of
       (Inl _, w1) \<Rightarrow> (NotFound, w1)
     | (Inr data, w1) \<Rightarrow>
         if isNegativeEntry data then (Found data, w1)
         else case parseStored (clCfg j) data of (env, payload) \<Rightarrow>
           (let refreshed = (isZero (refreshOf opts) \<or> refreshOf opts < freshUntil env) in
            case timeNow w1 of (t, w2) \<Rightarrow>
              if \<not> stale env t \<and> refreshed
              then (case Unmarshal (clCodec j) payload of Inr _ \<Rightarrow> (Found data, w2) | Inl e \<Rightarrow> (FoundCorrupt e, w2))
              else (NotFound, w2)))"

lemma flightRecheck_steps:
  "flightRecheck c (clKey j) (clCodec j) (clCfg j) opts fctx w = (case recheckRead c j opts fctx w of
      (Found data, w1) \<Rightarrow> (Some data, w1)
    | (FoundCorrupt e, w1) \<Rightarrow> (None, healEntry c j fctx e w1)
    | (NotFound, w1) \<Rightarrow> (None, w1))"
  by (auto simp: flightRecheck_def recheckRead_def healEntry_def Let_def split: sum.splits prod.splits)

text \<open>The loader from its call to \<open>OnLoad\<close>.\<close>

definition finishLoad :: "('v, 's, 'h) call \<Rightarrow> ctx \<Rightarrow> time \<Rightarrow> ('s, 'h) world \<Rightarrow>
    ('v \<times> duration) outcome \<times> ('s, 'h) world" where
  "finishLoad j fctx start w = (case clLoader j fctx w of
        (Panic p, w2) \<Rightarrow> (Panic p, w2)
      | (Err e, w2) \<Rightarrow> (case timeNow w2 of (end, w3) \<Rightarrow>
          (Err e, hookLoad (hooks (clCfg j)) (clKey j) (tSub end start) (Some e) w3))
      | (Ret v, w2) \<Rightarrow> (case timeNow w2 of (end, w3) \<Rightarrow>
          (Ret (v, tSub end start), hookLoad (hooks (clCfg j)) (clKey j) (tSub end start) None w3)))"

lemma timedLoad_steps:
  "timedLoad (clKey j) (clCfg j) (clLoader j) fctx w = (case timeNow w of (start, w1) \<Rightarrow> finishLoad j fctx start w1)"
  by (simp add: timedLoad_def finishLoad_def)

text \<open>What the deferred function of a background refresh makes of the flight's outcome.\<close>

definition refreshOutcome :: "('v, 's, 'h) call \<Rightarrow> bytes outcome \<Rightarrow> ('s, 'h) world \<Rightarrow>
    bytes outcome \<times> ('s, 'h) world" where
  "refreshOutcome j out w = (case out of
      Ret data \<Rightarrow> (Ret data, w)
    | Err e \<Rightarrow> (Err e, hookError (hooks (clCfg j)) OpRefresh (clKey j) e w)
    | Panic p \<Rightarrow> (let e = Errorf ''cachekit: loader panic: %v'' [Str p] in
        (Err e, hookError (hooks (clCfg j)) OpRefresh (clKey j) e w)))"

lemma refreshBody_steps:
  "refreshBody base c (clKey j) ttl codec loader (clCfg j) opts w =
     (case loadAndStore base c (clKey j) ttl codec loader (clCfg j) opts w of (out, w1) \<Rightarrow> refreshOutcome j out w1)"
  by (auto simp: refreshBody_def refreshOutcome_def Let_def split: prod.splits outcome.splits)

section \<open>The machine\<close>

text \<open>
  Where a call is: before its read, before a self-heal, before it registers with the group, before
  it asks for a refresh, waiting in \<open>do\<close>, returned. Where the function of a flight is: before its
  re-check, before a self-heal, before the loader, in the loader, before the store.
\<close>

datatype 'v callerPc = Start | Healing gerror | Joining | Refreshing "gerror + 'v" flightOpts | Awaiting | Done "gerror + 'v"

datatype 'v flightPc = Begin | FHealing ctx gerror | ToLoad ctx | InLoader ctx time
  | Loaded ctx "('v \<times> duration) outcome"

record ('v, 's, 'h) body =
  bdCall :: "('v, 's, 'h) call"
  bdOpts :: flightOpts
  bdRefresh :: bool
  bdPc :: "'v flightPc"

record ('v, 's, 'h, 'g) machine =
  mWorld :: "('s, 'h) world"
  mGroup :: "'g gstate"
  mCalls :: "nat \<rightharpoonup> ('v, 's, 'h) call \<times> 'v callerPc"
  mBodies :: "nat \<rightharpoonup> ('v, 's, 'h) body"

definition newMachine :: "('s, 'h) world \<Rightarrow> 'g \<Rightarrow> ('v, 's, 'h, 'g) machine" where
  "newMachine w g = \<lparr>mWorld = w, mGroup = emptyGroup g, mCalls = Map.empty, mBodies = Map.empty\<rparr>"

definition setCall :: "nat \<Rightarrow> ('v, 's, 'h) call \<Rightarrow> 'v callerPc \<Rightarrow> ('v, 's, 'h, 'g) machine \<Rightarrow>
    ('v, 's, 'h, 'g) machine" where
  "setCall a j pc s = s\<lparr>mCalls := (mCalls s)(a \<mapsto> (j, pc))\<rparr>"

text \<open>Registering with the group: the function becomes a running body if the group made a new flight for it.\<close>

definition register :: "('s, 'h) Cache \<Rightarrow> ('v, 's, 'h) call \<Rightarrow> flightOpts \<Rightarrow> bool \<Rightarrow> 'g gstate \<Rightarrow>
    ('v, 's, 'h, 'g) machine \<Rightarrow> ('v, 's, 'h, 'g) machine" where
  "register c j opts bg g' s = s\<lparr>mGroup := g',
     mBodies := (if flights g' (nextId (mGroup s)) = None then mBodies s
       else (mBodies s)(nextId (mGroup s) \<mapsto> \<lparr>bdCall = j, bdOpts = opts, bdRefresh = bg, bdPc = Begin\<rparr>))\<rparr>"

definition setBody :: "nat \<Rightarrow> ('v, 's, 'h) body \<Rightarrow> 'v flightPc \<Rightarrow> ('s, 'h) world \<Rightarrow>
    ('v, 's, 'h, 'g) machine \<Rightarrow> ('v, 's, 'h, 'g) machine" where
  "setBody i b pc w s = s\<lparr>mWorld := w, mBodies := (mBodies s)(i \<mapsto> b\<lparr>bdPc := pc\<rparr>)\<rparr>"

text \<open>The function of a flight returns: the body is gone and the group's flight has its result.\<close>

definition returned :: "'g sfOps \<Rightarrow> nat \<Rightarrow> flight \<Rightarrow> ('v, 's, 'h) body \<Rightarrow> bytes outcome \<Rightarrow> ('s, 'h) world \<Rightarrow>
    ('v, 's, 'h, 'g) machine \<Rightarrow> ('v, 's, 'h, 'g) machine" where
  "returned sf i f b out w s = (case (if bdRefresh b then refreshOutcome (bdCall b) out w else (out, w)) of (out', w') \<Rightarrow>
     s\<lparr>mWorld := w', mBodies := (mBodies s)(i := None),
       mGroup := setPhase i f (Returned (recovered out'))
         ((mGroup s)\<lparr>sfState := sfForget sf (fKey f) (sfState (mGroup s))\<rparr>)\<rparr>)"

text \<open>The events, with the call, the flight or the key they belong to.\<close>

datatype ('v, 's, 'h) machineEvent = Called nat "('v, 's, 'h) call" | EntryRead nat | EntryHealed nat | Registered nat
  | RefreshAsked nat | ResultTaken nat | CtxTaken nat gerror | Rechecked nat | FlightHealed nat
  | LoaderCalled nat key | LoaderReturned nat | Stored nat | FlightDone nat | Tick

definition afterRead :: "'v lookupStep \<Rightarrow> 'v callerPc" where
  "afterRead ls = (case ls of
      Answer r None \<Rightarrow> Done r
    | Answer r (Some opts) \<Rightarrow> Refreshing r opts
    | Heal e \<Rightarrow> Healing e
    | Miss \<Rightarrow> Joining)"

definition afterRecheck :: "'g sfOps \<Rightarrow> nat \<Rightarrow> flight \<Rightarrow> ('v, 's, 'h) body \<Rightarrow> ctx \<Rightarrow> recheckStep \<Rightarrow> ('s, 'h) world \<Rightarrow>
    ('v, 's, 'h, 'g) machine \<Rightarrow> ('v, 's, 'h, 'g) machine" where
  "afterRecheck sf i f b fctx rs w s = (case rs of
      Found data \<Rightarrow> returned sf i f b (Ret data) w s
    | FoundCorrupt e \<Rightarrow> setBody i b (FHealing fctx e) w s
    | NotFound \<Rightarrow> setBody i b (ToLoad fctx) w s)"

inductive mstep :: "('s, 'h) Cache \<Rightarrow> 'g sfOps \<Rightarrow> ('v, 's, 'h, 'g) machine \<Rightarrow> ('v, 's, 'h) machineEvent \<Rightarrow>
    ('v, 's, 'h, 'g) machine \<Rightarrow> bool" for c sf where
  called: "mCalls s a = None \<Longrightarrow>
    mstep c sf s (Called a j) (setCall a (j\<lparr>clCfg := configOf c (mWorld s)\<rparr>) Start s)"
| read: "mCalls s a = Some (j, Start) \<Longrightarrow> lookupRead c j (mWorld s) = (ls, w) \<Longrightarrow>
    mstep c sf s (EntryRead a) (setCall a j (afterRead ls) (s\<lparr>mWorld := w\<rparr>))"
| heal: "mCalls s a = Some (j, Healing e) \<Longrightarrow>
    mstep c sf s (EntryHealed a) (setCall a j Joining (s\<lparr>mWorld := healEntry c j (clCtx j) e (mWorld s)\<rparr>))"
| join: "mCalls s a = Some (j, Joining) \<Longrightarrow>
    mstep c sf s (Registered a) (setCall a j Awaiting
      (register c j missOpts False (callDo sf a (flightKey c (clKey j)) (mGroup s)) s))"
| refresh: "mCalls s a = Some (j, Refreshing r opts) \<Longrightarrow>
    mstep c sf s (RefreshAsked a) (setCall a j (Done r)
      (register c j opts True (callDoAsync sf (flightKey c (clKey j)) (mGroup s)) s))"
| result: "mCalls s a = Some (j, Awaiting) \<Longrightarrow> callers (mGroup s) a = Some (Waiting i) \<Longrightarrow>
    flights (mGroup s) i = Some f \<Longrightarrow> fPhase f = Finished r \<Longrightarrow>
    mstep c sf s (ResultTaken a) (setCall a j (Done (finishFlight (clCodec j) (clCfg j) (clKey j) r))
      (s\<lparr>mGroup := (mGroup s)\<lparr>callers := (callers (mGroup s))(a \<mapsto> Received i r)\<rparr>\<rparr>))"
| ctx: "mCalls s a = Some (j, Awaiting) \<Longrightarrow> callers (mGroup s) a = Some (Waiting i) \<Longrightarrow>
    ctxErr (clCtx j) (now (mWorld s)) = Some e \<Longrightarrow>
    mstep c sf s (CtxTaken a e) (setCall a j (Done (Inl e))
      (s\<lparr>mGroup := (mGroup s)\<lparr>callers := (callers (mGroup s))(a \<mapsto> GaveUp i e)\<rparr>\<rparr>))"
| recheck: "mBodies s i = Some b \<Longrightarrow> bdPc b = Begin \<Longrightarrow> flights (mGroup s) i = Some f \<Longrightarrow>
    flightContext (clCtx (bdCall b)) (bdOpts b) (mWorld s) = (fctx, w1) \<Longrightarrow>
    recheckRead c (bdCall b) (bdOpts b) fctx w1 = (rs, w2) \<Longrightarrow>
    mstep c sf s (Rechecked i) (afterRecheck sf i f b fctx rs w2 s)"
| flight_heal: "mBodies s i = Some b \<Longrightarrow> bdPc b = FHealing fctx e \<Longrightarrow>
    mstep c sf s (FlightHealed i) (setBody i b (ToLoad fctx) (healEntry c (bdCall b) fctx e (mWorld s)) s)"
| load: "mBodies s i = Some b \<Longrightarrow> bdPc b = ToLoad fctx \<Longrightarrow> timeNow (mWorld s) = (t, w) \<Longrightarrow>
    mstep c sf s (LoaderCalled i (clKey (bdCall b))) (setBody i b (InLoader fctx t) w s)"
| loaded: "mBodies s i = Some b \<Longrightarrow> bdPc b = InLoader fctx t \<Longrightarrow> finishLoad (bdCall b) fctx t (mWorld s) = (res, w) \<Longrightarrow>
    mstep c sf s (LoaderReturned i) (setBody i b (Loaded fctx res) w s)"
| stored: "mBodies s i = Some b \<Longrightarrow> bdPc b = Loaded fctx res \<Longrightarrow> flights (mGroup s) i = Some f \<Longrightarrow>
    storeLoaded c (clKey (bdCall b)) (clTTL (bdCall b)) (clCodec (bdCall b)) (clCfg (bdCall b)) fctx res (mWorld s)
      = (out, w) \<Longrightarrow>
    mstep c sf s (Stored i) (returned sf i f b out w s)"
| flight_done: "flights (mGroup s) i = Some f \<Longrightarrow> fPhase f = Returned r \<Longrightarrow>
    mstep c sf s (FlightDone i) (s\<lparr>mGroup := setPhase i f (Finished r)
      ((mGroup s)\<lparr>sfState := sfComplete sf (fKey f) i (sfState (mGroup s))\<rparr>)\<rparr>)"
| tick: "mstep c sf s Tick (s\<lparr>mWorld := snd (timeNow (mWorld s))\<rparr>)"

inductive mrun :: "('s, 'h) Cache \<Rightarrow> 'g sfOps \<Rightarrow> ('v, 's, 'h, 'g) machine \<Rightarrow> ('v, 's, 'h) machineEvent list \<Rightarrow>
    ('v, 's, 'h, 'g) machine \<Rightarrow> bool" for c sf s0 where
  mrun_init: "mrun c sf s0 [] s0"
| mrun_step: "mrun c sf s0 evs s \<Longrightarrow> mstep c sf s ev s' \<Longrightarrow> mrun c sf s0 (evs @ [ev]) s'"

lemma mrun_append: "mrun c sf s1 es' s2 \<Longrightarrow> mrun c sf s0 es s1 \<Longrightarrow> mrun c sf s0 (es @ es') s2"
proof (induction rule: mrun.induct)
  case (mrun_step evs s ev s')
  from mrun.mrun_step [OF mrun_step.IH [OF mrun_step.prems] mrun_step.hyps(2)] show ?case by simp
qed simp

section \<open>The group inside the machine\<close>

text \<open>
  The running flights of the group are the bodies of the machine, a call is known to the group once
  it has registered, and a waiting call waits for a flight of its own key.
\<close>

definition linked :: "('s, 'h) Cache \<Rightarrow> ('v, 's, 'h, 'g) machine \<Rightarrow> bool" where
  "linked c s \<longleftrightarrow>
     (\<forall>i b. mBodies s i = Some b \<longrightarrow>
        flights (mGroup s) i = Some \<lparr>fKey = flightKey c (clKey (bdCall b)), fPhase = Running\<rparr>)
   \<and> (\<forall>i f. flights (mGroup s) i = Some f \<longrightarrow> fPhase f = Running \<longrightarrow> mBodies s i \<noteq> None)
   \<and> (\<forall>a. (case mCalls s a of None \<Rightarrow> True | Some (j, pc) \<Rightarrow> pc \<noteq> Awaiting \<and> (\<forall>r. pc \<noteq> Done r)) \<longrightarrow>
        callers (mGroup s) a = None)
   \<and> (\<forall>a j. mCalls s a = Some (j, Awaiting) \<longrightarrow> (\<exists>i f. callers (mGroup s) a = Some (Waiting i)
        \<and> flights (mGroup s) i = Some f \<and> fKey f = flightKey c (clKey j)))"

lemma linkedD:
  assumes "linked c s"
  shows "mBodies s i = Some b \<Longrightarrow>
      flights (mGroup s) i = Some \<lparr>fKey = flightKey c (clKey (bdCall b)), fPhase = Running\<rparr>"
    and "flights (mGroup s) i = Some f \<Longrightarrow> fPhase f = Running \<Longrightarrow> \<exists>b. mBodies s i = Some b"
    and "mCalls s a = None \<Longrightarrow> callers (mGroup s) a = None"
    and "mCalls s a = Some (j, pc) \<Longrightarrow> pc \<noteq> Awaiting \<Longrightarrow> \<forall>r. pc \<noteq> Done r \<Longrightarrow> callers (mGroup s) a = None"
    and "mCalls s a = Some (j, Awaiting) \<Longrightarrow> \<exists>i f. callers (mGroup s) a = Some (Waiting i)
        \<and> flights (mGroup s) i = Some f \<and> fKey f = flightKey c (clKey j)"
proof -
  note l = assms [unfolded linked_def]
  show "mBodies s i = Some b \<Longrightarrow>
      flights (mGroup s) i = Some \<lparr>fKey = flightKey c (clKey (bdCall b)), fPhase = Running\<rparr>"
    using l [THEN conjunct1] by blast
  show "flights (mGroup s) i = Some f \<Longrightarrow> fPhase f = Running \<Longrightarrow> \<exists>b. mBodies s i = Some b"
    using l [THEN conjunct2, THEN conjunct1] by blast
  note c = l [THEN conjunct2, THEN conjunct2, THEN conjunct1, rule_format, of a]
  show "mCalls s a = None \<Longrightarrow> callers (mGroup s) a = None" using c by simp
  show "mCalls s a = Some (j, pc) \<Longrightarrow> pc \<noteq> Awaiting \<Longrightarrow> \<forall>r. pc \<noteq> Done r \<Longrightarrow> callers (mGroup s) a = None"
    using c by simp
  show "mCalls s a = Some (j, Awaiting) \<Longrightarrow> \<exists>i f. callers (mGroup s) a = Some (Waiting i)
        \<and> flights (mGroup s) i = Some f \<and> fKey f = flightKey c (clKey j)"
    using l [THEN conjunct2, THEN conjunct2, THEN conjunct2] by blast
qed

lemma linkedI:
  assumes "\<And>i b. mBodies s i = Some b \<Longrightarrow>
      flights (mGroup s) i = Some \<lparr>fKey = flightKey c (clKey (bdCall b)), fPhase = Running\<rparr>"
    and "\<And>i f. flights (mGroup s) i = Some f \<Longrightarrow> fPhase f = Running \<Longrightarrow> \<exists>b. mBodies s i = Some b"
    and "\<And>a. mCalls s a = None \<Longrightarrow> callers (mGroup s) a = None"
    and "\<And>a j pc. mCalls s a = Some (j, pc) \<Longrightarrow> pc \<noteq> Awaiting \<Longrightarrow> \<forall>r. pc \<noteq> Done r \<Longrightarrow> callers (mGroup s) a = None"
    and "\<And>a j. mCalls s a = Some (j, Awaiting) \<Longrightarrow> \<exists>i f. callers (mGroup s) a = Some (Waiting i)
        \<and> flights (mGroup s) i = Some f \<and> fKey f = flightKey c (clKey j)"
  shows "linked c s"
  unfolding linked_def using assms by (auto split: option.splits)

lemma machine_sel [simp]:
  "mWorld (setCall a j pc s) = mWorld s" "mGroup (setCall a j pc s) = mGroup s"
  "mCalls (setCall a j pc s) = (mCalls s)(a \<mapsto> (j, pc))" "mBodies (setCall a j pc s) = mBodies s"
  "mWorld (setBody i b bpc w s) = w" "mGroup (setBody i b bpc w s) = mGroup s"
  "mCalls (setBody i b bpc w s) = mCalls s" "mBodies (setBody i b bpc w s) = (mBodies s)(i \<mapsto> b\<lparr>bdPc := bpc\<rparr>)"
  "mWorld (register c j opts bg g s) = mWorld s" "mGroup (register c j opts bg g s) = g"
  "mCalls (register c j opts bg g s) = mCalls s"
  by (simp_all add: setCall_def setBody_def register_def)

lemma returned_sel [simp]:
  "mCalls (returned sf i f b out w s) = mCalls s" "mBodies (returned sf i f b out w s) = (mBodies s)(i := None)"
  "\<exists>out'. mGroup (returned sf i f b out w s) = setPhase i f (Returned (recovered out'))
     ((mGroup s)\<lparr>sfState := sfForget sf (fKey f) (sfState (mGroup s))\<rparr>)"
  by (auto simp: returned_def split: prod.splits)

lemma linked_world [simp]: "linked c (s\<lparr>mWorld := w\<rparr>) = linked c s"
  by (simp add: linked_def)

text \<open>A step of a call that has not registered, or that returns.\<close>

lemma linked_setCall:
  assumes "linked c s" "callers (mGroup s) a = None" "pc \<noteq> Awaiting"
  shows "linked c (setCall a j pc s)"
  by (rule linkedI) (use linkedD [OF assms(1)] assms(2,3) in \<open>auto split: if_splits\<close>)

lemma linked_done:
  assumes "linked c s"
  shows "linked c (setCall a j (Done r) s)"
  by (rule linkedI) (use linkedD [OF assms(1)] in \<open>auto split: if_splits\<close>)

lemma linked_setBody:
  assumes "linked c s" "mBodies s i = Some b"
  shows "linked c (setBody i b pc w s)"
  by (rule linkedI) (use linkedD [OF assms(1)] assms(2) in \<open>auto split: if_splits\<close>)

lemma linked_phase:
  assumes "linked c s" "flights (mGroup s) i = Some f" "ph \<noteq> Running" "mBodies s' = (mBodies s)(i := None)"
    and "mCalls s' = mCalls s" "mGroup s' = setPhase i f ph ((mGroup s)\<lparr>sfState := g\<rparr>)"
  shows "linked c s'"
proof (rule linkedI; unfold assms(4-6))
  show "mCalls s a = Some (j, Awaiting) \<Longrightarrow> \<exists>i' f'. callers (setPhase i f ph ((mGroup s)\<lparr>sfState := g\<rparr>)) a
      = Some (Waiting i') \<and> flights (setPhase i f ph ((mGroup s)\<lparr>sfState := g\<rparr>)) i' = Some f' \<and> fKey f' = flightKey c (clKey j)"
    for a j using linkedD(5) [OF assms(1), of a j] assms(2) by (cases f) (auto split: if_splits)
qed (use linkedD(1-4) [OF assms(1)] assms(2,3) in \<open>auto split: if_splits\<close>)

lemma linked_register:
  assumes sf: "singleflight sf inflight" and inv: "gInv inflight (mGroup s)" and l: "linked c s"
    and st: "groupStart sf (flightKey c (clKey j)) (mGroup s) = (i, g1)" 
    and g': "flights g' = flights g1" "callers g' = callers g1 \<or> callers g' = (callers g1)(a \<mapsto> Waiting i) \<and> pc = Awaiting"
    and a: "pc = Awaiting \<longrightarrow> callers g' a = Some (Waiting i)" "mCalls s a = Some (j, pc0)"
      "callers (mGroup s) a = None" 
  shows "linked c (setCall a j pc (register c j opts bg g' s))"
proof -
  from sf inv st show ?thesis
  proof (cases rule: groupStart_cases)
    case join
    show ?thesis
      by (rule linkedI) (use linkedD [OF l] g' a join in \<open>auto simp: register_def split: if_splits\<close>)
  next
    case start
    have wait: "\<exists>i' f. callers g' a' = Some (Waiting i') \<and> flights g' i' = Some f \<and> fKey f = flightKey c (clKey j')"
      if "((mCalls s)(a \<mapsto> (j, pc))) a' = Some (j', Awaiting)" for a' j'
    proof (cases "a' = a")
      case True
      with that a(1) g'(1) start show ?thesis by auto
    next
      case False
      with that linkedD(5) [OF l, of a' j'] obtain i' f where "callers (mGroup s) a' = Some (Waiting i')"
        "flights (mGroup s) i' = Some f" "fKey f = flightKey c (clKey j')" by auto
      with start g' False show ?thesis by (intro exI [of _ i'] exI [of _ f]) auto
    qed
    show ?thesis
    proof (rule linkedI; unfold machine_sel)
      show "((mCalls s)(a \<mapsto> (j, pc))) a' = Some (j', Awaiting) \<Longrightarrow>
        \<exists>i' f. callers g' a' = Some (Waiting i') \<and> flights g' i' = Some f \<and> fKey f = flightKey c (clKey j')"
        for a' j' by (rule wait)
    qed (use linkedD(1-4) [OF l] g' a start in \<open>auto simp: register_def split: if_splits\<close>)
  qed
qed

lemma linked_returned:
  assumes "linked c s" "mBodies s i = Some b" "flights (mGroup s) i = Some f"
  shows "linked c (returned sf i f b out w s)"
    and "\<exists>gev. gstep sf (mGroup s) gev (mGroup (returned sf i f b out w s))"
proof -
  obtain out' where g: "mGroup (returned sf i f b out w s) = setPhase i f (Returned (recovered out'))
      ((mGroup s)\<lparr>sfState := sfForget sf (fKey f) (sfState (mGroup s))\<rparr>)"
    using returned_sel(3) by blast
  show "linked c (returned sf i f b out w s)"
    by (rule linked_phase [OF assms(1,3) _ _ _ g]) simp_all
  have "fPhase f = Running" using linkedD(1) [OF assms(1,2)] assms(3) by simp
  then have "gstep sf (mGroup s) (FnReturned i out') (mGroup (returned sf i f b out w s))"
    unfolding g using assms(3) by (intro fn_returned)
  then show "\<exists>gev. gstep sf (mGroup s) gev (mGroup (returned sf i f b out w s))" by blast
qed

text \<open>Every step keeps the link, and moves the group by one of its own steps or not at all.\<close>

lemma mstep_group:
  assumes "singleflight sf inflight" "gInv inflight (mGroup s)" "linked c s" "mstep c sf s ev s'"
  shows "linked c s' \<and> (mGroup s' = mGroup s \<or> (\<exists>gev. gstep sf (mGroup s) gev (mGroup s')))"
  using assms(4,2,3)
proof (induction rule: mstep.induct)
  case (called s a j)
  then show ?case by (simp add: linked_setCall linkedD(3))
next
  case (read s a j ls w)
  have "linked c (setCall a j (afterRead ls) (s\<lparr>mWorld := w\<rparr>))"
    by (rule linked_setCall) (use read linkedD(4) [OF read(4) read(1)] in \<open>auto simp: afterRead_def split: lookupStep.splits option.splits\<close>)
  then show ?case by simp
next
  case (heal s a j e)
  then show ?case by (simp add: linked_setCall linkedD(4) [OF heal(3,1)])
next
  case (join s a j)
  obtain i g1 where g: "groupStart sf (flightKey c (clKey j)) (mGroup s) = (i, g1)" by force
  have none: "callers (mGroup s) a = None" by (rule linkedD(4) [OF join(3,1)]) simp_all
  have "linked c (setCall a j Awaiting (register c j missOpts False (callDo sf a (flightKey c (clKey j)) (mGroup s)) s))"
    by (rule linked_register [OF assms(1) join(2,3) g _ _ _ join(1) none]) (simp_all add: callDo_def g)
  moreover have "gstep sf (mGroup s) (DoCalled a (flightKey c (clKey j))) (callDo sf a (flightKey c (clKey j)) (mGroup s))"
    using none by (rule do_called)
  ultimately show ?case by auto
next
  case (refresh s a j r opts)
  obtain i g1 where g: "groupStart sf (flightKey c (clKey j)) (mGroup s) = (i, g1)" by force
  have none: "callers (mGroup s) a = None" by (rule linkedD(4) [OF refresh(3,1)]) simp_all
  have "linked c (setCall a j (Done r) (register c j opts True (callDoAsync sf (flightKey c (clKey j)) (mGroup s)) s))"
    by (rule linked_register [OF assms(1) refresh(2,3) g _ _ _ refresh(1) none]) (simp_all add: callDoAsync_def g)
  then show ?case using async_called [of sf "mGroup s" "flightKey c (clKey j)"] by auto
next
  case (result s a j i f r)
  have "linked c (s\<lparr>mGroup := (mGroup s)\<lparr>callers := (callers (mGroup s))(a \<mapsto> Received i r)\<rparr>,
      mCalls := (mCalls s)(a \<mapsto> (j, Done (finishFlight (clCodec j) (clCfg j) (clKey j) r)))\<rparr>)"
    by (rule linkedI) (use linkedD [OF result(6)] result(1) in \<open>auto split: if_splits\<close>)
  with result_chosen [OF result(2,3,4), of sf] show ?case by (auto simp: setCall_def)
next
  case (ctx s a j i e)
  have "linked c (s\<lparr>mGroup := (mGroup s)\<lparr>callers := (callers (mGroup s))(a \<mapsto> GaveUp i e)\<rparr>,
      mCalls := (mCalls s)(a \<mapsto> (j, Done (Inl e)))\<rparr>)"
    by (rule linkedI) (use linkedD [OF ctx(5)] ctx(1) in \<open>auto split: if_splits\<close>)
  with ctx_chosen [OF ctx(2), of sf e] show ?case by (auto simp: setCall_def)
next
  case (recheck s i b f fctx w1 rs w2)
  then show ?case
    by (auto simp: afterRecheck_def linked_returned linked_setBody split: recheckStep.splits)
next
  case (flight_heal s i b fctx e)
  then show ?case by (simp add: linked_setBody)
next
  case (load s i b fctx t w)
  then show ?case by (simp add: linked_setBody)
next
  case (loaded s i b fctx t res w)
  then show ?case by (simp add: linked_setBody)
next
  case (stored s i b fctx res f out w)
  then show ?case using linked_returned by blast
next
  case (flight_done s i f r)
  have "mBodies s i = None"
    using flight_done(1,2) linkedD(1) [OF flight_done(4), of i] by (cases "mBodies s i") auto
  then have "linked c (s\<lparr>mGroup := setPhase i f (Finished r)
      ((mGroup s)\<lparr>sfState := sfComplete sf (fKey f) i (sfState (mGroup s))\<rparr>)\<rparr>)"
    by (intro linked_phase [OF flight_done(4,1)]) (simp_all add: fun_upd_idem)
  with call_completed [OF flight_done(1,2), of sf] show ?case by auto
next
  case (tick s)
  then show ?case by simp
qed

lemma newMachine_linked: "linked c (newMachine w g)"
  by (rule linkedI) (simp_all add: newMachine_def emptyGroup_def)

text \<open>The machine refines the machine of theory Flights.\<close>

lemma mrun_group:
  assumes "singleflight sf inflight" "inflight g0 = Map.empty" "mrun c sf (newMachine w g0) evs s"
  shows "linked c s \<and> greach sf (emptyGroup g0) (mGroup s)"
  using assms(3)
proof (induction rule: mrun.induct)
  case mrun_init
  show ?case by (rule conjI [OF newMachine_linked]) (simp add: newMachine_def greach.init)
next
  case (mrun_step evs s ev s')
  then have reach: "greach sf (emptyGroup g0) (mGroup s)" and l: "linked c s" by simp_all
  note inv = greach_inv [OF assms(1) reach assms(2)]
  from mstep_group [OF assms(1) inv l mrun_step.hyps(2)] reach show ?case by (auto intro: greach.step)
qed

lemmas mrun_linked = mrun_group [THEN conjunct1]

lemma mrun_gInv:
  assumes "singleflight sf inflight" "inflight g0 = Map.empty" "mrun c sf (newMachine w g0) evs s"
  shows "gInv inflight (mGroup s)"
  using greach_inv [OF assms(1) mrun_group [OF assms, THEN conjunct2] assms(2)] .

text \<open>Two running functions for one key are the same flight.\<close>

lemma mrun_one_body:
  assumes "singleflight sf inflight" "inflight g0 = Map.empty" "mrun c sf (newMachine w g0) evs s"
    and "mBodies s i = Some b" "mBodies s i' = Some b'" "clKey (bdCall b) = clKey (bdCall b')"
  shows "i = i'"
  using single_flight_per_key_core [OF assms(1,2) mrun_group [OF assms(1-3), THEN conjunct2]
      linkedD(1) [OF mrun_linked [OF assms(1-3)] assms(4)] _ linkedD(1) [OF mrun_linked [OF assms(1-3)] assms(5)]]
    assms(6) by simp

section \<open>A call that runs undisturbed\<close>

text \<open>Runs in which no further call arrives.\<close>

definition noCalls :: "('v, 's, 'h) machineEvent list \<Rightarrow> bool" where
  "noCalls evs \<longleftrightarrow> (\<forall>a j. Called a j \<notin> set evs)"

lemma noCalls_simps [simp]:
  "noCalls []" "noCalls (xs @ ys) \<longleftrightarrow> noCalls xs \<and> noCalls ys" "noCalls (ev # evs) \<longleftrightarrow> (\<forall>a j. ev \<noteq> Called a j) \<and> noCalls evs"
  by (auto simp: noCalls_def)

text \<open>A run without further calls: what the lemmas below build.\<close>

lemma quietRun_append:
  "\<exists>evs. noCalls evs \<and> mrun c sf s1 evs s2 \<Longrightarrow> mrun c sf s0 es s1 \<Longrightarrow> noCalls es \<Longrightarrow> \<exists>evs. noCalls evs \<and> mrun c sf s0 evs s2"
  using mrun_append by (metis noCalls_simps(2))

lemma mrun_one: "mstep c sf s ev s' \<Longrightarrow> mrun c sf s [ev] s'"
  using mrun_step [OF mrun_init] by simp

lemma returned_setBody [simp]:
  "returned sf i f b out w (setBody i b' pc w' s) = returned sf i f b out w s"
  "returned sf i f (b\<lparr>bdPc := pc\<rparr>) out w s = returned sf i f b out w s"
  "\<not> bdRefresh b \<Longrightarrow> mWorld (returned sf i f b out w s) = w"
  by (simp_all add: returned_def setBody_def split: prod.splits)

lemma load_runs:
  assumes "mBodies s i = Some b" "bdPc b = ToLoad fctx" "flights (mGroup s) i = Some f" "j = bdCall b"
    and "timedLoad (clKey j) (clCfg j) (clLoader j) fctx (mWorld s) = (res, w3)"
    and "storeLoaded c (clKey j) (clTTL j) (clCodec j) (clCfg j) fctx res w3 = (out, w)"
  shows "\<exists>evs. noCalls evs \<and> mrun c sf s evs (returned sf i f b out w s)"
proof -
  obtain t w1 where t: "timeNow (mWorld s) = (t, w1)" by force
  let ?s1 = "setBody i b (InLoader fctx t) w1 s"
  let ?b1 = "b\<lparr>bdPc := InLoader fctx t\<rparr>"
  let ?s2 = "setBody i ?b1 (Loaded fctx res) w3 ?s1"
  have fl: "finishLoad (bdCall ?b1) fctx t (mWorld ?s1) = (res, w3)"
    using assms(4,5) t by (simp add: timedLoad_steps)
  have 1: "mstep c sf s (LoaderCalled i (clKey (bdCall b))) ?s1" using assms(1,2) t by (rule mstep.load)
  have 2: "mstep c sf ?s1 (LoaderReturned i) ?s2" by (rule mstep.loaded [OF _ _ fl]) simp_all
  have 3: "mstep c sf ?s2 (Stored i) (returned sf i f (?b1\<lparr>bdPc := Loaded fctx res\<rparr>) out w ?s2)"
    using assms(3,4,6) by (intro mstep.stored) simp_all
  note run = mrun_step [OF mrun_step [OF mrun_one [OF 1] 2] 3]
  have "noCalls (([LoaderCalled i (clKey (bdCall b))] @ [LoaderReturned i]) @ [Stored i])" by simp
  with run show ?thesis unfolding returned_setBody by blast
qed

text \<open>The function of a flight, run to its end, is \<open>loadAndStore\<close>.\<close>

lemma flight_runs:
  assumes "mBodies s i = Some b" "bdPc b = Begin" "flights (mGroup s) i = Some f" "j = bdCall b"
    and "loadAndStore (clCtx j) c (clKey j) (clTTL j) (clCodec j) (clLoader j) (clCfg j) (bdOpts b) (mWorld s)
      = (out, w)"
  shows "\<exists>evs. noCalls evs \<and> mrun c sf s evs (returned sf i f b out w s)"
proof -
  obtain fctx w1 where fc: "flightContext (clCtx j) (bdOpts b) (mWorld s) = (fctx, w1)" by force
  obtain rs w2 where rr: "recheckRead c j (bdOpts b) fctx w1 = (rs, w2)" by force
  have 1: "mstep c sf s (Rechecked i) (afterRecheck sf i f b fctx rs w2 s)"
    using assms(1-3) fc rr unfolding assms(4) by (rule mstep.recheck)
  note rc = flightRecheck_steps [of c j "bdOpts b" fctx w1, unfolded rr]
  show ?thesis
  proof (cases rs)
    case (Found data)
    with rc fc assms(5) have "out = Ret data" "w = w2" by (simp_all add: loadAndStore_def)
    with mrun_one [OF 1] Found show ?thesis by (intro exI [of _ "[Rechecked i]"]) (simp add: afterRecheck_def)
  next
    case NotFound
    let ?s1 = "setBody i b (ToLoad fctx) w2 s"
    obtain res w3 where tl: "timedLoad (clKey j) (clCfg j) (clLoader j) fctx w2 = (res, w3)" by force
    have st: "storeLoaded c (clKey j) (clTTL j) (clCodec j) (clCfg j) fctx res w3 = (out, w)"
      using assms(5) fc rc tl NotFound by (simp add: loadAndStore_def)
    have "\<exists>evs. noCalls evs \<and> mrun c sf ?s1 evs (returned sf i f (b\<lparr>bdPc := ToLoad fctx\<rparr>) out w ?s1)"
      by (rule load_runs [where j = j]) (use assms(3,4) tl st in simp_all)
    then have "\<exists>evs. noCalls evs \<and> mrun c sf ?s1 evs (returned sf i f b out w s)" unfolding returned_setBody .
    moreover have "mrun c sf s [Rechecked i] ?s1" using mrun_one [OF 1] NotFound by (simp add: afterRecheck_def)
    ultimately show ?thesis by (rule quietRun_append) simp
  next
    case (FoundCorrupt e)
    let ?s1 = "setBody i b (FHealing fctx e) w2 s" and ?b1 = "b\<lparr>bdPc := FHealing fctx e\<rparr>"
    let ?w = "healEntry c j fctx e w2"
    let ?s2 = "setBody i ?b1 (ToLoad fctx) ?w ?s1"
    obtain res w3 where tl: "timedLoad (clKey j) (clCfg j) (clLoader j) fctx ?w = (res, w3)" by force
    have st: "storeLoaded c (clKey j) (clTTL j) (clCodec j) (clCfg j) fctx res w3 = (out, w)"
      using assms(5) fc rc tl FoundCorrupt by (simp add: loadAndStore_def)
    have "\<exists>evs. noCalls evs \<and> mrun c sf ?s2 evs (returned sf i f (?b1\<lparr>bdPc := ToLoad fctx\<rparr>) out w ?s2)"
      by (rule load_runs [where j = j]) (use assms(3,4) tl st in simp_all)
    then have r: "\<exists>evs. noCalls evs \<and> mrun c sf ?s2 evs (returned sf i f b out w s)" unfolding returned_setBody .
    have "mstep c sf ?s1 (FlightHealed i) (setBody i ?b1 (ToLoad fctx) (healEntry c (bdCall ?b1) fctx e (mWorld ?s1)) ?s1)"
      by (rule mstep.flight_heal) simp_all
    then have "mstep c sf ?s1 (FlightHealed i) ?s2" using assms(4) by simp
    moreover have "mstep c sf s (Rechecked i) ?s1" using 1 FoundCorrupt by (simp add: afterRecheck_def)
    ultimately have "mrun c sf s [Rechecked i, FlightHealed i] ?s2"
      using mrun_step [OF mrun_one] by fastforce
    from quietRun_append [OF r this] show ?thesis by simp
  qed
qed

lemma flightBody_recovered: "flightBody fn w = (case fn w of (out, w') \<Rightarrow> (recovered out, w'))"
  by (simp add: flightBody_def recovered_def split: prod.splits outcome.splits)

definition quiet :: "('s, 'h) Cache \<Rightarrow> key \<Rightarrow> ('v, 's, 'h, 'g) machine \<Rightarrow> bool" where
  "quiet c k s \<longleftrightarrow> (\<forall>i f. flights (mGroup s) i = Some f \<longrightarrow> fPhase f = Running \<longrightarrow> fKey f \<noteq> flightKey c k)"

text \<open>Registering when no function for the key is running makes a new flight.\<close>

lemma register_quiet:
  assumes "singleflight sf inflight" "gInv inflight (mGroup s)" "quiet c k s"
    and "groupStart sf (flightKey c k) (mGroup s) = (i, g1)"
  shows "i = nextId (mGroup s) \<and> flights g1 i = Some \<lparr>fKey = flightKey c k, fPhase = Running\<rparr>
    \<and> callers g1 = callers (mGroup s)"
  using assms(1,2,4)
proof (cases rule: groupStart_cases)
  case join
  with assms(3) have False unfolding quiet_def by fastforce
  then show ?thesis by simp
qed simp

lemma join_runs:
  assumes "singleflight sf inflight" "gInv inflight (mGroup s)" "quiet c (clKey j) s" "mCalls s a = Some (j, Joining)"
    and "loadAndStore (clCtx j) c (clKey j) (clTTL j) (clCodec j) (clLoader j) (clCfg j) missOpts (mWorld s) = (out, w)"
  shows "\<exists>evs s'. noCalls evs \<and> mrun c sf s evs s' \<and> mWorld s' = w
    \<and> mCalls s' a = Some (j, Done (finishFlight (clCodec j) (clCfg j) (clKey j) (recovered out)))"
proof -
  obtain i g1 where g: "groupStart sf (flightKey c (clKey j)) (mGroup s) = (i, g1)" by force
  from register_quiet [OF assms(1-3) g] have r: "i = nextId (mGroup s)"
    "flights g1 (nextId (mGroup s)) = Some \<lparr>fKey = flightKey c (clKey j), fPhase = Running\<rparr>"
    "callers g1 = callers (mGroup s)" by auto
  let ?g = "callDo sf a (flightKey c (clKey j)) (mGroup s)"
  have cd: "?g = g1\<lparr>callers := (callers g1)(a \<mapsto> Waiting i)\<rparr>" using g by (simp add: callDo_def)
  let ?f = "\<lparr>fKey = flightKey c (clKey j), fPhase = Running\<rparr>"
  let ?b = "\<lparr>bdCall = j, bdOpts = missOpts, bdRefresh = False, bdPc = Begin\<rparr>"
  let ?s1 = "setCall a j Awaiting (register c j missOpts False ?g s)"
  have 1: "mstep c sf s (Registered a) ?s1" using assms(4) by (rule mstep.join)
  have b: "mBodies ?s1 i = Some ?b" using r cd by (simp add: register_def)
  have f: "flights (mGroup ?s1) i = Some ?f" using r cd by simp
  let ?s2 = "returned sf i ?f ?b out w ?s1"
  have "\<exists>evs. noCalls evs \<and> mrun c sf ?s1 evs ?s2"
    by (rule flight_runs [OF b _ f]) (use assms(5) in simp_all)
  then obtain evs where n: "noCalls evs" and 2: "mrun c sf ?s1 evs ?s2" by blast
  have s2: "mWorld ?s2 = w" "mGroup ?s2 = setPhase i ?f (Returned (recovered out))
      ((mGroup ?s1)\<lparr>sfState := sfForget sf (fKey ?f) (sfState (mGroup ?s1))\<rparr>)"
    by (simp_all add: returned_def)
  let ?f2 = "?f\<lparr>fPhase := Returned (recovered out)\<rparr>"
  let ?s3 = "?s2\<lparr>mGroup := setPhase i ?f2 (Finished (recovered out))
      ((mGroup ?s2)\<lparr>sfState := sfComplete sf (fKey ?f2) i (sfState (mGroup ?s2))\<rparr>)\<rparr>"
  have 3: "mstep c sf ?s2 (FlightDone i) ?s3"
    by (rule mstep.flight_done) (simp_all add: s2)
  let ?s4 = "setCall a j (Done (finishFlight (clCodec j) (clCfg j) (clKey j) (recovered out)))
      (?s3\<lparr>mGroup := (mGroup ?s3)\<lparr>callers := (callers (mGroup ?s3))(a \<mapsto> Received i (recovered out))\<rparr>\<rparr>)"
  have "callers (mGroup ?s2) a = Some (Waiting i)" unfolding s2(2) by (simp add: cd)
  then have 4: "mstep c sf ?s3 (ResultTaken a) ?s4"
    by (intro mstep.result [where f = "?f2\<lparr>fPhase := Finished (recovered out)\<rparr>"]) simp_all
  note run = mrun_step [OF mrun_step [OF mrun_append [OF 2 mrun_one [OF 1]] 3] 4]
  show ?thesis by (rule exI, rule exI, rule conjI [OF _ conjI [OF run]]) (use n in simp_all)
qed

text \<open>Asking for a refresh when no function for the key is running makes the requested flight.\<close>

lemma refresh_runs:
  assumes "singleflight sf inflight" "gInv inflight (mGroup s)" "quiet c (clKey j) s"
    and "mCalls s a = Some (j, Refreshing r opts)"
  shows "\<exists>evs s' i f. noCalls evs \<and> mrun c sf s evs s' \<and> mWorld s' = mWorld s \<and> mCalls s' a = Some (j, Done r)
    \<and> mBodies s' i = Some \<lparr>bdCall = j, bdOpts = opts, bdRefresh = True, bdPc = Begin\<rparr> \<and> flights (mGroup s') i = Some f"
proof -
  obtain i g1 where g: "groupStart sf (flightKey c (clKey j)) (mGroup s) = (i, g1)" by force
  from register_quiet [OF assms(1-3) g] have r: "i = nextId (mGroup s)"
    "flights g1 (nextId (mGroup s)) = Some \<lparr>fKey = flightKey c (clKey j), fPhase = Running\<rparr>"
    "callers g1 = callers (mGroup s)" by auto
  let ?s1 = "setCall a j (Done r) (register c j opts True (callDoAsync sf (flightKey c (clKey j)) (mGroup s)) s)"
  have "mstep c sf s (RefreshAsked a) ?s1" using assms(4) by (rule mstep.refresh)
  moreover have "mBodies ?s1 i = Some \<lparr>bdCall = j, bdOpts = opts, bdRefresh = True, bdPc = Begin\<rparr>"
    "flights (mGroup ?s1) i = Some \<lparr>fKey = flightKey c (clKey j), fPhase = Running\<rparr>"
    using r g by (simp_all add: register_def callDoAsync_def)
  ultimately show ?thesis
    by (intro exI [of _ "[RefreshAsked a]"] exI [of _ ?s1] exI [of _ i]) (simp add: mrun_one)
qed

lemma refresh_flight_runs:
  assumes "mBodies s i = Some b" "bdPc b = Begin" "bdRefresh b" "bdCall b = j" "flights (mGroup s) i = Some f"
  shows "\<exists>evs s'. noCalls evs \<and> mrun c sf s evs s' \<and> mCalls s' = mCalls s \<and> mWorld s' = snd (runRefresh (clCtx j) c (clKey j) (clTTL j)
    (clCodec j) (clLoader j) (clCfg j) (bdOpts b) (mWorld s))"
proof -
  obtain out w where l: "loadAndStore (clCtx j) c (clKey j) (clTTL j) (clCodec j) (clLoader j) (clCfg j) (bdOpts b) (mWorld s)
    = (out, w)" by force
  from flight_runs [OF assms(1,2,5) assms(4) [symmetric] l]
  obtain evs where "noCalls evs" "mrun c sf s evs (returned sf i f b out w s)" by blast
  moreover have "mWorld (returned sf i f b out w s) = snd (runRefresh (clCtx j) c (clKey j) (clTTL j)
    (clCodec j) (clLoader j) (clCfg j) (bdOpts b) (mWorld s))"
    using assms(3,4) by (simp add: returned_def runRefresh_def flightBody_recovered refreshBody_steps l split: prod.splits)
  ultimately show ?thesis by (intro exI [of _ evs] exI [of _ "returned sf i f b out w s"]) simp
qed

lemma machine_world [simp]:
  "mCalls (s\<lparr>mWorld := w\<rparr>) = mCalls s" "mGroup (s\<lparr>mWorld := w\<rparr>) = mGroup s" "mBodies (s\<lparr>mWorld := w\<rparr>) = mBodies s"
  by simp_all

lemma quiet_cong: "mGroup s' = mGroup s \<Longrightarrow> quiet c k s' = quiet c k s"
  by (simp add: quiet_def)

text \<open>A whole call from its first read, when nobody else moves.\<close>

lemma call_runs:
  fixes s :: "('v, 's, 'h, 'g) machine"
  assumes "singleflight sf inflight" "gInv inflight (mGroup s)" "quiet c (clKey j) s" "mCalls s a = Some (j, Start)"
    and "clCfg j = configOf c (mWorld s)"
    and "getOrSetWithCodec dflt (clCtx j) c (clKey j) (clTTL j) (Some (clCodec j)) (clLoader j) FlightResult (mWorld s)
      = ((r, req), w)"
  shows "\<exists>evs s'. noCalls evs \<and> mrun c sf s evs s' \<and> mWorld s' = w \<and> mCalls s' a = Some (j, Done r)
    \<and> (case req of None \<Rightarrow> True | Some opts \<Rightarrow> \<exists>i f. flights (mGroup s') i = Some f
        \<and> mBodies s' i = Some \<lparr>bdCall = j, bdOpts = opts, bdRefresh = True, bdPc = Begin\<rparr>)"
proof -
  obtain ls w1 where l: "lookupRead c j (mWorld s) = (ls, w1)" by force
  let ?s1 = "setCall a j (afterRead ls) (s\<lparr>mWorld := w1\<rparr>)"
  have 1: "mrun c sf s [EntryRead a] ?s1" using mstep.read [OF assms(4) l] by (rule mrun_one)
  have g1: "mGroup ?s1 = mGroup s" "quiet c (clKey j) ?s1" using assms(3) by (simp_all add: quiet_def)
  note u = assms(6) [unfolded getOrSetWithCodec_def Let_def assms(5) [symmetric] option.case lookupPhase_steps l, simplified]
  show ?thesis
  proof (cases ls)
    case (Answer r' req')
    with u have eq: "r' = r" "req' = req" "w1 = w" by simp_all
    show ?thesis
    proof (cases req)
      case None
      with 1 Answer eq show ?thesis
        by (intro exI [of _ "[EntryRead a]"] exI [of _ ?s1]) (simp add: afterRead_def)
    next
      case (Some opts)
      have "mCalls ?s1 a = Some (j, Refreshing r opts)" using Answer eq Some by (simp add: afterRead_def)
      from refresh_runs [OF assms(1) assms(2) [folded g1(1)] g1(2) this]
      obtain evs s' i f where n: "noCalls evs" and s': "mrun c sf ?s1 evs s'" "mWorld s' = mWorld ?s1" "mCalls s' a = Some (j, Done r)"
        "mBodies s' i = Some \<lparr>bdCall = j, bdOpts = opts, bdRefresh = True, bdPc = Begin\<rparr>"
        "flights (mGroup s') i = Some f" by blast
      show ?thesis using s' n mrun_append [OF s'(1) 1] eq Some
        by (intro exI [of _ "[EntryRead a] @ evs"] exI [of _ s']) auto
    qed
  next
    case Miss
    obtain out w2 where ls: "loadAndStore (clCtx j) c (clKey j) (clTTL j) (clCodec j) (clLoader j) (clCfg j) missOpts w1
      = (out, w2)" by force
    with u Miss have eq: "r = finishFlight (clCodec j) (clCfg j) (clKey j) (recovered out)" "req = None" "w2 = w"
      by (simp_all add: groupDo_def flightBody_recovered)
    have "mCalls ?s1 a = Some (j, Joining)" using Miss by (simp add: afterRead_def)
    from join_runs [OF assms(1) assms(2) [folded g1(1)] g1(2) this] ls
    obtain evs s' where n: "noCalls evs" and s': "mrun c sf ?s1 evs s'" "mWorld s' = w2"
      "mCalls s' a = Some (j, Done (finishFlight (clCodec j) (clCfg j) (clKey j) (recovered out)))" by auto
    show ?thesis using s' n mrun_append [OF s'(1) 1] eq
      by (intro exI [of _ "[EntryRead a] @ evs"] exI [of _ s']) simp
  next
    case (Heal e)
    let ?w = "healEntry c j (clCtx j) e w1"
    let ?s2 = "setCall a j Joining (?s1\<lparr>mWorld := ?w\<rparr>)"
    have "mstep c sf ?s1 (EntryHealed a) (setCall a j Joining (?s1\<lparr>mWorld := healEntry c j (clCtx j) e (mWorld ?s1)\<rparr>))"
      by (rule mstep.heal) (simp add: Heal afterRead_def)
    then have 2: "mrun c sf s [EntryRead a, EntryHealed a] ?s2" using mrun_step [OF 1] by simp
    obtain out w2 where ls: "loadAndStore (clCtx j) c (clKey j) (clTTL j) (clCodec j) (clLoader j) (clCfg j) missOpts ?w
      = (out, w2)" by force
    with u Heal have eq: "r = finishFlight (clCodec j) (clCfg j) (clKey j) (recovered out)" "req = None" "w2 = w"
      by (simp_all add: groupDo_def flightBody_recovered)
    have g2: "mGroup ?s2 = mGroup s" "quiet c (clKey j) ?s2" using assms(3) by (simp_all add: quiet_def)
    have "mCalls ?s2 a = Some (j, Joining)" by simp
    from join_runs [OF assms(1) assms(2) [folded g2(1)] g2(2) this] ls
    obtain evs s' where n: "noCalls evs" and s': "mrun c sf ?s2 evs s'" "mWorld s' = w2"
      "mCalls s' a = Some (j, Done (finishFlight (clCodec j) (clCfg j) (clKey j) (recovered out)))" by auto
    show ?thesis using s' n mrun_append [OF s'(1) 2] eq
      by (intro exI [of _ "[EntryRead a, EntryHealed a] @ evs"] exI [of _ s']) simp
  qed
qed

text \<open>For the worked instances: a single call arrives and runs to its end.\<close>

lemma single_call:
  fixes j :: "('v, 's, 'h) call" and g0 :: 'g
  assumes "singleflight sf inflight" "inflight g0 = Map.empty" "clCfg j = configOf c w0"
  obtains evs s r where "noCalls evs" "mrun c sf (newMachine w0 g0) ([Called a j] @ evs) s" "mCalls s a = Some (j, Done r)"
proof -
  let ?s0 = "newMachine w0 g0 :: ('v, 's, 'h, 'g) machine"
  let ?s1 = "setCall a j Start ?s0"
  have "mstep c sf ?s0 (Called a j) (setCall a (j\<lparr>clCfg := configOf c (mWorld ?s0)\<rparr>) Start ?s0)"
    by (rule mstep.called) (simp add: newMachine_def)
  moreover have "j\<lparr>clCfg := configOf c (mWorld ?s0)\<rparr> = j" using assms(3) by (simp add: newMachine_def)
  ultimately have 1: "mrun c sf ?s0 [Called a j] ?s1" by (simp add: mrun_one)
  have q: "quiet c (clKey j) ?s1" by (simp add: newMachine_def quiet_def emptyGroup_def)
  obtain r req w where g: "getOrSetWithCodec (clCodec j) (clCtx j) c (clKey j) (clTTL j) (Some (clCodec j)) (clLoader j) FlightResult
      (mWorld ?s1) = ((r, req), w)" by (metis prod.exhaust)
  have "mCalls ?s1 a = Some (j, Start)" "clCfg j = configOf c (mWorld ?s1)" using assms(3) by (simp_all add: newMachine_def)
  from call_runs [OF assms(1) mrun_gInv [OF assms(1,2) 1] q this g]
  obtain evs s where "noCalls evs" "mrun c sf ?s1 evs s" "mCalls s a = Some (j, Done r)" by blast
  with mrun_append [OF _ 1] that show ?thesis by blast
qed

text \<open>Two calls for one key have arrived at an empty memory cache.\<close>

definition demoCall :: "(nat, (nat, event list) MemoryCache, event list) call" where
  "demoCall = \<lparr>clCtx = Background, clKey = ''k'', clTTL = 0, clCodec = demoCodec,
     clLoader = constLoader (Ret 7), clCfg = memConfig demoMemory\<rparr>"

definition twoArrived :: "(nat, (nat, event list) MemoryCache, event list, string \<rightharpoonup> nat) machine" where
  "twoArrived = setCall 2 demoCall Start (setCall 1 demoCall Start (newMachine stillWorld Map.empty))"

lemma twoArrived_run:
  "mrun (memoryCache 0) mapFlights (newMachine stillWorld Map.empty) [Called 1 demoCall, Called 2 demoCall] twoArrived"
proof -
  let ?s0 = "newMachine stillWorld Map.empty :: (nat, (nat, event list) MemoryCache, event list, string \<rightharpoonup> nat) machine"
  let ?s1 = "setCall 1 demoCall Start ?s0"
  have cfg: "demoCall\<lparr>clCfg := configOf (memoryCache 0) stillWorld\<rparr> = demoCall"
    by (simp add: demoCall_def)
  have "mstep (memoryCache 0) mapFlights ?s0 (Called 1 demoCall)
      (setCall 1 (demoCall\<lparr>clCfg := configOf (memoryCache 0) (mWorld ?s0)\<rparr>) Start ?s0)"
    by (rule mstep.called) (simp add: newMachine_def)
  then have 1: "mrun (memoryCache 0) mapFlights ?s0 [Called 1 demoCall] ?s1"
    using cfg by (simp add: newMachine_def mrun_one)
  have "mstep (memoryCache 0) mapFlights ?s1 (Called 2 demoCall)
      (setCall 2 (demoCall\<lparr>clCfg := configOf (memoryCache 0) (mWorld ?s1)\<rparr>) Start ?s1)"
    by (rule mstep.called) (simp add: newMachine_def)
  then have "mstep (memoryCache 0) mapFlights ?s1 (Called 2 demoCall) twoArrived"
    using cfg by (simp add: newMachine_def twoArrived_def)
  from mrun_step [OF 1 this] show ?thesis by simp
qed

lemma twoArrived_simps:
  "mCalls twoArrived 1 = Some (demoCall, Start)" "quiet c k twoArrived" "mWorld twoArrived = stillWorld"
  by (simp_all add: twoArrived_def newMachine_def quiet_def emptyGroup_def)

section \<open>Properties\<close>



end
