(* ===== verification/Progress.thy ===== *)
theory Progress
  imports Interleaving
begin

text \<open>
  Every call returns. Two facts about the machine of theory Interleaving, for any number of calls and any interleaving, on
  any cache, healthy or not: a call never takes part in more than a fixed number of steps (a cost that each step
  lowers), and as long as some call has not returned or some flight has not finished, one of them can step. What is
  assumed of the environment is in the model already: backend operations and loaders return.
\<close>

section \<open>Cost\<close>

definition total :: "('b \<Rightarrow> nat) \<Rightarrow> ('a \<rightharpoonup> 'b) \<Rightarrow> nat" where
  "total f m = (\<Sum>i\<in>dom m. f (the (m i)))"

lemma total_empty [simp]: "total f Map.empty = 0"
  by (simp add: total_def)

lemma total_new: "finite (dom m) \<Longrightarrow> m i = None \<Longrightarrow> total f (m(i \<mapsto> x)) = f x + total f m"
proof -
  assume "finite (dom m)" "m i = None"
  moreover from this have "(\<Sum>i'\<in>dom m. f (the ((m(i \<mapsto> x)) i'))) = (\<Sum>i'\<in>dom m. f (the (m i')))"
    by (intro sum.cong) auto
  ultimately show ?thesis by (simp add: total_def domIff)
qed

lemma total_remove: "finite (dom m) \<Longrightarrow> m i = Some x \<Longrightarrow> total f m = f x + total f (m(i := None))"
  using total_new [of "m(i := None)" i f x] by (simp add: fun_upd_idem)

lemma total_upd: "finite (dom m) \<Longrightarrow> m i = Some x \<Longrightarrow> total f (m(i \<mapsto> y)) + f x = total f m + f y"
  using total_new [of "m(i := None)" i f y] total_remove [of m i x f] by simp

text \<open>How many steps a call, a function of a flight and a flight have left at most, those of a flight they may start included.\<close>

definition callCost :: "'v callerPc \<Rightarrow> nat" where
  "callCost pc = (case pc of Start \<Rightarrow> 10 | Healing _ \<Rightarrow> 9 | Joining \<Rightarrow> 8 | Refreshing _ _ \<Rightarrow> 7 | Awaiting \<Rightarrow> 1 | Done _ \<Rightarrow> 0)"

definition bodyCost :: "'v flightPc \<Rightarrow> nat" where
  "bodyCost pc = (case pc of Begin \<Rightarrow> 5 | FHealing _ _ \<Rightarrow> 4 | ToLoad _ \<Rightarrow> 3 | InLoader _ _ \<Rightarrow> 2 | Loaded _ _ \<Rightarrow> 1)"

definition flightCost :: "phase \<Rightarrow> nat" where
  "flightCost ph = (case ph of Finished _ \<Rightarrow> 0 | _ \<Rightarrow> 1)"

definition callsCost :: "('v, 's, 'h, 'g) machine \<Rightarrow> nat" where
  "callsCost s = total (callCost \<circ> snd) (mCalls s)"

definition bodiesCost :: "('v, 's, 'h, 'g) machine \<Rightarrow> nat" where
  "bodiesCost s = total (bodyCost \<circ> bdPc) (mBodies s)"

definition flightsCost :: "'g gstate \<Rightarrow> nat" where
  "flightsCost g = total (flightCost \<circ> fPhase) (flights g)"

definition cost :: "('v, 's, 'h, 'g) machine \<Rightarrow> nat" where
  "cost s = callsCost s + bodiesCost s + flightsCost (mGroup s)"

lemmas cost_defs = cost_def callsCost_def bodiesCost_def flightsCost_def

definition finiteMachine :: "('v, 's, 'h, 'g) machine \<Rightarrow> bool" where
  "finiteMachine s \<longleftrightarrow> finite (dom (mCalls s)) \<and> finite (dom (mBodies s)) \<and> finite (dom (flights (mGroup s)))"

text \<open>The steps of calls and flights; the others are the arrival of a call and the passing of time.\<close>

fun works :: "('v, 's, 'h) machineEvent \<Rightarrow> bool" where
  "works (Called a j) = False"
| "works Tick = False"
| "works ev = True"

definition workSteps :: "('v, 's, 'h) machineEvent list \<Rightarrow> nat" where
  "workSteps evs = length (filter works evs)"

fun arrival :: "('v, 's, 'h) machineEvent \<Rightarrow> bool" where
  "arrival (Called a j) = True"
| "arrival ev = False"

definition arrivals :: "('v, 's, 'h) machineEvent list \<Rightarrow> nat" where
  "arrivals evs = length (filter arrival evs)"

section \<open>Every step lowers the cost\<close>

lemma callsCost_set:
  assumes "finite (dom (mCalls s))" "mCalls s a = Some (j, pc)" "mCalls s' = (mCalls s)(a \<mapsto> (j', pc'))"
  shows "callsCost s' + callCost pc = callsCost s + callCost pc'"
  using total_upd [OF assms(1,2), of "callCost \<circ> snd" "(j', pc')"] assms(3) by (simp add: callsCost_def)

lemma bodiesCost_set:
  assumes "finite (dom (mBodies s))" "mBodies s i = Some b" "mBodies s' = (mBodies s)(i \<mapsto> b')"
  shows "bodiesCost s' + bodyCost (bdPc b) = bodiesCost s + bodyCost (bdPc b')"
  using total_upd [OF assms(1,2), of "bodyCost \<circ> bdPc" b'] assms(3) by (simp add: bodiesCost_def)

lemma bodiesCost_remove:
  assumes "finite (dom (mBodies s))" "mBodies s i = Some b" "mBodies s' = (mBodies s)(i := None)"
  shows "bodiesCost s = bodyCost (bdPc b) + bodiesCost s'"
  using total_remove [OF assms(1,2), of "bodyCost \<circ> bdPc"] assms(3) by (simp add: bodiesCost_def)

lemma flightsCost_phase:
  assumes "finite (dom (flights g))" "flights g i = Some f" "flights g' = (flights g)(i \<mapsto> f\<lparr>fPhase := ph\<rparr>)"
  shows "flightsCost g' + flightCost (fPhase f) = flightsCost g + flightCost ph"
  using total_upd [OF assms(1,2), of "flightCost \<circ> fPhase" "f\<lparr>fPhase := ph\<rparr>"] assms(3) by (simp add: flightsCost_def)

lemma cost_cong:
  "mCalls s' = mCalls s \<Longrightarrow> callsCost s' = callsCost s" "mBodies s' = mBodies s \<Longrightarrow> bodiesCost s' = bodiesCost s"
  "flights g' = flights g \<Longrightarrow> flightsCost g' = flightsCost g"
  by (simp_all add: cost_defs)

lemma finite_register:
  assumes "finiteMachine s" "mCalls s a \<noteq> None" "groupStart sf key (mGroup s) = (i, g1)" "flights g = flights g1"
  shows "finiteMachine (setCall a j pc (register c j opts bg g s))"
  using assms by (auto simp: finiteMachine_def register_def groupStart_def split: prod.splits if_splits)

lemma register_cost:
  assumes "singleflight sf inflight" "gInv inflight (mGroup s)" "linked c s" "finiteMachine s"
    and "mCalls s a = Some (j, pc)" "callCost pc' + 6 < callCost pc"
    and "groupStart sf key (mGroup s) = (i, g1)" "flights g = flights g1"
  shows "cost (setCall a j pc' (register c j opts bg g s)) < cost s"
proof -
  let ?s = "setCall a j pc' (register c j opts bg g s)"
  note fin = assms(4) [unfolded finiteMachine_def]
  have "callsCost ?s + callCost pc = callsCost s + callCost pc'"
    by (rule callsCost_set [OF _ assms(5)]) (use fin in simp_all)
  moreover have "bodiesCost ?s + flightsCost g \<le> bodiesCost s + flightsCost (mGroup s) + 6"
    using assms(1,2,7)
  proof (cases rule: groupStart_cases)
    case join
    then have "flights g = flights (mGroup s)" "mBodies ?s = mBodies s" using assms(8) by (simp_all add: register_def)
    from cost_cong(3) [OF this(1)] cost_cong(2) [OF this(2)] show ?thesis by simp
  next
    case start
    let ?n = "nextId (mGroup s)"
    have "mBodies s ?n = None" using linkedD(1) [OF assms(3), of ?n] start(3) by fastforce
    then have "bodiesCost ?s = 5 + bodiesCost s"
      using fin start(1,4) assms(8) by (simp add: bodiesCost_def register_def total_new bodyCost_def)
    moreover have "flightsCost g = 1 + flightsCost (mGroup s)"
      using fin start(3,4) assms(8) by (simp add: flightsCost_def total_new flightCost_def)
    ultimately show ?thesis by simp
  qed
  ultimately show ?thesis using assms(6) by (simp add: cost_def)
qed

lemma returned_cost:
  assumes "linked c s" "finiteMachine s" "mBodies s i = Some b" "flights (mGroup s) i = Some f"
  shows "cost (returned sf i f b out w s) < cost s" "finiteMachine (returned sf i f b out w s)"
proof -
  let ?s = "returned sf i f b out w s"
  note fin = assms(2) [unfolded finiteMachine_def]
  obtain out' where g: "mGroup ?s = setPhase i f (Returned (recovered out'))
      ((mGroup s)\<lparr>sfState := sfForget sf (fKey f) (sfState (mGroup s))\<rparr>)" using returned_sel(3) by blast
  have "fPhase f = Running" using linkedD(1) [OF assms(1,3)] assms(4) by simp
  then have "flightsCost (mGroup ?s) = flightsCost (mGroup s)"
    using flightsCost_phase [OF _ assms(4), of "mGroup ?s" "Returned (recovered out')"] fin g
    by (simp add: setPhase_def flightCost_def)
  moreover have "bodiesCost s = bodyCost (bdPc b) + bodiesCost ?s"
    by (rule bodiesCost_remove [OF _ assms(3)]) (use fin in simp_all)
  moreover have "0 < bodyCost (bdPc b)" by (simp add: bodyCost_def split: flightPc.split)
  moreover have "callsCost ?s = callsCost s" by (rule cost_cong) simp
  ultimately show "cost ?s < cost s" by (simp add: cost_def)
  show "finiteMachine ?s" using fin g by (simp add: finiteMachine_def setPhase_def)
qed

lemma body_cost:
  assumes "finiteMachine s" "mBodies s i = Some b" "bodyCost pc < bodyCost (bdPc b)"
  shows "cost (setBody i b pc w s) < cost s" "finiteMachine (setBody i b pc w s)"
proof -
  let ?s = "setBody i b pc w s"
  note fin = assms(1) [unfolded finiteMachine_def]
  have "bodiesCost ?s + bodyCost (bdPc b) = bodiesCost s + bodyCost pc"
    using bodiesCost_set [OF _ assms(2), of ?s "b\<lparr>bdPc := pc\<rparr>"] fin by simp
  moreover have "callsCost ?s = callsCost s" by (rule cost_cong) simp
  ultimately show "cost ?s < cost s" using assms(3) by (simp add: cost_def)
  show "finiteMachine ?s" using fin by (simp add: finiteMachine_def)
qed

lemma call_cost:
  assumes "finiteMachine s" "mCalls s a = Some (j, pc0)" "callCost pc < callCost pc0"
    and "mCalls s' = (mCalls s)(a \<mapsto> (j, pc))" "mBodies s' = mBodies s" "flights (mGroup s') = flights (mGroup s)"
  shows "cost s' < cost s" "finiteMachine s'"
proof -
  note fin = assms(1) [unfolded finiteMachine_def]
  have "callsCost s' + callCost pc0 = callsCost s + callCost pc"
    by (rule callsCost_set [OF _ assms(2,4)]) (use fin in simp)
  with cost_cong(2) [OF assms(5)] cost_cong(3) [OF assms(6)] assms(3) show "cost s' < cost s" by (simp add: cost_def)
  show "finiteMachine s'" using fin assms(4-6) by (simp add: finiteMachine_def)
qed

lemma work_step:
  "finiteMachine s' \<Longrightarrow> cost s' < cost s \<Longrightarrow> works ev \<Longrightarrow> \<not> arrival ev \<Longrightarrow>
   finiteMachine s' \<and> cost s' + (if works ev then 1 else 0) \<le> cost s + (if arrival ev then 10 else 0)"
  by simp

lemma mstep_cost:
  fixes s :: "('v, 's, 'h, 'g) machine"
  assumes sf: "singleflight sf inflight" and g: "gInv inflight (mGroup s)" and l: "linked c s"
    and st: "mstep c sf s ev s'" and fin: "finiteMachine s"
  shows "finiteMachine s' \<and> cost s' + (if works ev then 1 else 0) \<le> cost s + (if arrival ev then 10 else 0)"
  using st g l fin
proof (induction rule: mstep.induct)
  case (called s a j)
  let ?s = "setCall a (j\<lparr>clCfg := configOf c (mWorld s)\<rparr>) Start s"
  note f = called(4) [unfolded finiteMachine_def]
  have "callsCost ?s = 10 + callsCost s" using f called(1) by (simp add: callsCost_def total_new callCost_def)
  moreover have "bodiesCost ?s = bodiesCost s" by (rule cost_cong) simp
  ultimately show ?case using f by (simp add: cost_def finiteMachine_def)
next
  case (read s a j ls w)
  have "callCost (afterRead ls) < callCost Start"
    by (simp add: afterRead_def callCost_def split: lookupStep.split option.split)
  then show ?case by (intro work_step call_cost [OF read(5,1)]) simp_all
next
  case (heal s a j e)
  show ?case by (intro work_step call_cost [OF heal(4,1), of Joining]) (simp_all add: callCost_def)
next
  case (join s a j)
  obtain i g1 where g: "groupStart sf (flightKey c (clKey j)) (mGroup s) = (i, g1)" by force
  then have f: "flights (callDo sf a (flightKey c (clKey j)) (mGroup s)) = flights g1" by (simp add: callDo_def)
  have "callCost (Awaiting :: 'v callerPc) + 6 < callCost (Joining :: 'v callerPc)" by (simp add: callCost_def)
  from register_cost [OF sf join(2-4,1) this g f] show ?case
    by (intro work_step finite_register [OF join(4) _ g f]) (simp_all add: join(1))
next
  case (refresh s a j r opts)
  obtain i g1 where g: "groupStart sf (flightKey c (clKey j)) (mGroup s) = (i, g1)" by force
  then have f: "flights (callDoAsync sf (flightKey c (clKey j)) (mGroup s)) = flights g1" by (simp add: callDoAsync_def)
  have "callCost (Done r) + 6 < callCost (Refreshing r opts)" by (simp add: callCost_def)
  from register_cost [OF sf refresh(2-4,1) this g f] show ?case
    by (intro work_step finite_register [OF refresh(4) _ g f]) (simp_all add: refresh(1))
next
  case (result s a j i f r)
  show ?case
    by (intro work_step call_cost [OF result(7,1), of "Done (finishFlight (clCodec j) (clCfg j) (clKey j) r)"])
      (simp_all add: callCost_def)
next
  case (ctx s a j i e)
  show ?case by (intro work_step call_cost [OF ctx(6,1), of "Done (Inl e)"]) (simp_all add: callCost_def)
next
  case (recheck s i b f fctx w1 rs w2)
  have "finiteMachine (afterRecheck sf i f b fctx rs w2 s) \<and> cost (afterRecheck sf i f b fctx rs w2 s) < cost s"
    unfolding afterRecheck_def
    by (cases rs; simp only: recheckStep.case; intro conjI returned_cost [OF recheck(7,8,1,3)] body_cost [OF recheck(8,1)])
      (simp_all add: recheck(2) bodyCost_def)
  then show ?case by (intro work_step) simp_all
next
  case (flight_heal s i b fctx e)
  show ?case by (intro work_step body_cost [OF flight_heal(5,1), of "ToLoad fctx"]) (simp_all add: flight_heal(2) bodyCost_def)
next
  case (load s i b fctx t w)
  show ?case by (intro work_step body_cost [OF load(6,1), of "InLoader fctx t"]) (simp_all add: load(2) bodyCost_def)
next
  case (loaded s i b fctx t res w)
  show ?case by (intro work_step body_cost [OF loaded(6,1), of "Loaded fctx res"]) (simp_all add: loaded(2) bodyCost_def)
next
  case (stored s i b fctx res f out w)
  show ?case by (intro work_step returned_cost [OF stored(6,7,1,3)]) simp_all
next
  case (flight_done s i f r)
  let ?g = "setPhase i f (Finished r) ((mGroup s)\<lparr>sfState := sfComplete sf (fKey f) i (sfState (mGroup s))\<rparr>)"
  let ?s = "s\<lparr>mGroup := ?g\<rparr>"
  note fn = flight_done(5) [unfolded finiteMachine_def]
  have "flightsCost ?g + 1 = flightsCost (mGroup s)"
    using flightsCost_phase [OF _ flight_done(1), of ?g "Finished r"] fn flight_done(2)
    by (simp add: setPhase_def flightCost_def)
  moreover have "callsCost ?s = callsCost s" "bodiesCost ?s = bodiesCost s" by (rule cost_cong, simp)+
  ultimately show ?case using fn by (simp add: cost_def finiteMachine_def setPhase_def)
next
  case (tick s)
  let ?s = "s\<lparr>mWorld := snd (timeNow (mWorld s))\<rparr>"
  have "callsCost ?s = callsCost s" "bodiesCost ?s = bodiesCost s" by (rule cost_cong, simp)+
  then show ?case using tick(3) by (simp add: cost_def finiteMachine_def)
qed

lemma mrun_cost:
  assumes "singleflight sf inflight" "inflight g0 = Map.empty" "mrun c sf (newMachine w0 g0) evs s"
  shows "finiteMachine s \<and> workSteps evs + cost s \<le> 10 * arrivals evs"
  using assms(3)
proof (induction rule: mrun.induct)
  case mrun_init
  show ?case
    by (simp add: finiteMachine_def cost_defs newMachine_def emptyGroup_def workSteps_def)
next
  case (mrun_step evs s ev s')
  note l = mrun_linked [OF assms(1,2) mrun_step.hyps(1)] and g = mrun_gInv [OF assms(1,2) mrun_step.hyps(1)]
  from mstep_cost [OF assms(1) g l mrun_step.hyps(2)] mrun_step.IH show ?case
    by (auto simp: workSteps_def arrivals_def)
qed

section \<open>Somebody can step\<close>

lemma call_progress:
  assumes "mCalls s a = Some (j, pc)" "pc \<noteq> Awaiting" "\<forall>r. pc \<noteq> Done r"
  shows "\<exists>ev s'. works ev \<and> mstep c sf s ev s'"
proof (cases pc)
  case Start
  obtain ls w where "lookupRead c j (mWorld s) = (ls, w)" by force
  with mstep.read assms(1) Start have "mstep c sf s (EntryRead a) (setCall a j (afterRead ls) (s\<lparr>mWorld := w\<rparr>))" by blast
  then show ?thesis using works.simps by blast
next
  case (Healing e)
  with mstep.heal [of s a j e c sf] assms(1) show ?thesis using works.simps by blast
next
  case Joining
  with mstep.join [of s a j c sf] assms(1) show ?thesis using works.simps by blast
next
  case (Refreshing r opts)
  with mstep.refresh [of s a j r opts c sf] assms(1) show ?thesis using works.simps by blast
qed (use assms in simp_all)

lemma body_progress:
  assumes "linked c s" "mBodies s i = Some b"
  shows "\<exists>ev s'. works ev \<and> mstep c sf s ev s'"
proof -
  obtain f where f: "flights (mGroup s) i = Some f" using linkedD(1) [OF assms] by blast
  show ?thesis
  proof (cases "bdPc b")
    case Begin
    obtain fctx w1 where fc: "flightContext (clCtx (bdCall b)) (bdOpts b) (mWorld s) = (fctx, w1)" by force
    obtain rs w2 where "recheckRead c (bdCall b) (bdOpts b) fctx w1 = (rs, w2)" by force
    from mstep.recheck [OF assms(2) Begin f fc this] show ?thesis using works.simps by blast
  next
    case (FHealing fctx e)
    from mstep.flight_heal [OF assms(2) this] show ?thesis using works.simps by blast
  next
    case (ToLoad fctx)
    obtain t w where "timeNow (mWorld s) = (t, w)" by force
    from mstep.load [OF assms(2) ToLoad this] show ?thesis using works.simps by blast
  next
    case (InLoader fctx t)
    obtain res w where "finishLoad (bdCall b) fctx t (mWorld s) = (res, w)" by force
    from mstep.loaded [OF assms(2) InLoader this] show ?thesis using works.simps by blast
  next
    case (Loaded fctx res)
    obtain out w where "storeLoaded c (clKey (bdCall b)) (clTTL (bdCall b)) (clCodec (bdCall b)) (clCfg (bdCall b)) fctx res
      (mWorld s) = (out, w)" by force
    from mstep.stored [OF assms(2) Loaded f this] show ?thesis using works.simps by blast
  qed
qed

lemma flight_progress:
  assumes "linked c s" "flights (mGroup s) i = Some f" "\<forall>r. fPhase f \<noteq> Finished r"
  shows "\<exists>ev s'. works ev \<and> mstep c sf s ev s'"
proof (cases "fPhase f")
  case Running
  then obtain b where "mBodies s i = Some b" using linkedD(2) [OF assms(1,2)] by blast
  then show ?thesis by (rule body_progress [OF assms(1)])
next
  case (Returned r)
  from mstep.flight_done [OF assms(2) this] show ?thesis using works.simps by blast
qed (use assms(3) in simp)

lemma waiting_progress:
  assumes "linked c s" "mCalls s a = Some (j, Awaiting)"
  shows "\<exists>ev s'. works ev \<and> mstep c sf s ev s'"
proof -
  obtain i f where w: "callers (mGroup s) a = Some (Waiting i)" "flights (mGroup s) i = Some f"
    using linkedD(5) [OF assms] by blast
  show ?thesis
  proof (cases "\<exists>r. fPhase f = Finished r")
    case True
    then obtain r where "fPhase f = Finished r" by blast
    from mstep.result [OF assms(2) w this] show ?thesis using works.simps by blast
  next
    case False
    then show ?thesis using flight_progress [OF assms(1) w(2)] by blast
  qed
qed

lemma done_stuck:
  assumes "linked c s" "\<forall>a j pc. mCalls s a = Some (j, pc) \<longrightarrow> (\<exists>r. pc = Done r)"
    and "\<forall>i f. flights (mGroup s) i = Some f \<longrightarrow> (\<exists>r. fPhase f = Finished r)"
    and "mstep c sf s ev s'" "works ev"
  shows False
proof -
  have "mBodies s i = None" for i
    using linkedD(1) [OF assms(1), of i] assms(3) by (cases "mBodies s i") fastforce+
  with assms(4,5,2,3) show ?thesis by (cases rule: mstep.cases) fastforce+
qed

section \<open>Properties\<close>

text \<open>
  (C6) No call runs for ever: whatever arrives and however it interleaves, on any cache and with any loaders, all
  calls and flights together make at most ten steps per call that arrived, the refreshes they started included.
\<close>

theorem work_bounded:
  assumes "singleflight sf inflight" "inflight g0 = Map.empty" "mrun c sf (newMachine w0 g0) evs s"
  shows "workSteps evs \<le> 10 * arrivals evs"
  using mrun_cost [OF assms] by simp

theorem work_bounded_witness:
  "\<exists>evs s r. mrun (memoryCache 0) mapFlights (newMachine stillWorld Map.empty) ([Called 1 demoCall, Called 2 demoCall] @ evs) s
     \<and> mCalls s 1 = Some (demoCall, Done r) \<and> workSteps evs \<le> 20"
proof -
  obtain r req w where g: "getOrSetWithCodec demoCodec (clCtx demoCall) (memoryCache 0) (clKey demoCall) (clTTL demoCall)
      (Some (clCodec demoCall)) (clLoader demoCall) FlightResult (mWorld twoArrived) = ((r, req), w)"
    by (metis prod.exhaust)
  have cfg: "clCfg demoCall = configOf (memoryCache 0) (mWorld twoArrived)"
    by (simp add: twoArrived_simps) (simp add: demoCall_def)
  obtain evs s where n: "noCalls evs" and run: "mrun (memoryCache 0) mapFlights twoArrived evs s"
    and r: "mCalls s 1 = Some (demoCall, Done r)"
    using call_runs [OF mapFlights_singleflight mrun_gInv [OF mapFlights_singleflight refl twoArrived_run]
        twoArrived_simps(2,1) cfg g] by blast
  note run = mrun_append [OF run twoArrived_run]
  have "filter arrival evs = []" using n by (auto simp: noCalls_def filter_empty_conv elim: arrival.elims)
  with work_bounded [OF mapFlights_singleflight refl run] have "workSteps evs \<le> 20"
    by (simp add: arrivals_def workSteps_def)
  with run r show ?thesis by blast
qed

text \<open>
  (C5) No deadlock and no lost waiter: in every state that any interleaving reaches, some call or flight can step, unless
  every call has returned and every flight has finished. With the bound on the steps, every call returns.
\<close>

theorem stuck_only_when_done:
  assumes "singleflight sf inflight" "inflight g0 = Map.empty" "mrun c sf (newMachine w0 g0) evs s"
  shows "(\<nexists>ev s'. works ev \<and> mstep c sf s ev s') \<longleftrightarrow>
    (\<forall>a j pc. mCalls s a = Some (j, pc) \<longrightarrow> (\<exists>r. pc = Done r))
    \<and> (\<forall>i f. flights (mGroup s) i = Some f \<longrightarrow> (\<exists>r. fPhase f = Finished r))"
proof
  note l = mrun_linked [OF assms]
  assume stuck: "\<nexists>ev s'. works ev \<and> mstep c sf s ev s'"
  show "(\<forall>a j pc. mCalls s a = Some (j, pc) \<longrightarrow> (\<exists>r. pc = Done r))
    \<and> (\<forall>i f. flights (mGroup s) i = Some f \<longrightarrow> (\<exists>r. fPhase f = Finished r))"
    using stuck call_progress [of s _ _ _ c sf] waiting_progress [OF l, of _ _ sf] flight_progress [OF l, of _ _ sf] by metis
next
  assume "(\<forall>a j pc. mCalls s a = Some (j, pc) \<longrightarrow> (\<exists>r. pc = Done r))
    \<and> (\<forall>i f. flights (mGroup s) i = Some f \<longrightarrow> (\<exists>r. fPhase f = Finished r))"
  then show "\<nexists>ev s'. works ev \<and> mstep c sf s ev s'" using done_stuck [OF mrun_linked [OF assms]] by blast
qed

theorem stuck_only_when_done_witness:
  "\<exists>ev s'. works ev \<and> mstep (memoryCache 0) mapFlights twoArrived ev s'"
proof -
  have "\<not> (\<forall>a j pc. mCalls twoArrived a = Some (j, pc) \<longrightarrow> (\<exists>r. pc = Done r))" using twoArrived_simps(1) by force
  with stuck_only_when_done [OF mapFlights_singleflight refl twoArrived_run] show ?thesis by blast
qed

text \<open>
  (C25) The machine is well formed in every reachable state: the calls registered with singleflight are exactly the load functions
  that are running, under the flight key of their cache and key; a waiting call waits for a
  flight of its own key; and there are finitely many of each.
\<close>

theorem machine_wellformed:
  assumes "singleflight sf inflight" "inflight g0 = Map.empty" "mrun c sf (newMachine w0 g0) evs s"
  shows "(\<forall>k i. inflight (sfState (mGroup s)) k = Some i \<longleftrightarrow> (\<exists>b. mBodies s i = Some b \<and> flightKey c (clKey (bdCall b)) = k))
    \<and> (\<forall>a j. mCalls s a = Some (j, Awaiting) \<longrightarrow> (\<exists>i f. callers (mGroup s) a = Some (Waiting i)
        \<and> flights (mGroup s) i = Some f \<and> fKey f = flightKey c (clKey j)))
    \<and> finite (dom (mCalls s)) \<and> finite (dom (mBodies s)) \<and> finite (dom (flights (mGroup s)))"
proof (intro conjI allI impI)
  note l = mrun_linked [OF assms] and g = mrun_gInv [OF assms]
  fix k i
  have "(\<exists>b. mBodies s i = Some b \<and> flightKey c (clKey (bdCall b)) = k) \<longleftrightarrow>
      flights (mGroup s) i = Some \<lparr>fKey = k, fPhase = Running\<rparr>"
    using linkedD(1,2) [OF l, of i] by fastforce
  with gInvD(1) [OF g, of k i] show "inflight (sfState (mGroup s)) k = Some i \<longleftrightarrow>
      (\<exists>b. mBodies s i = Some b \<and> flightKey c (clKey (bdCall b)) = k)" by simp
next
  fix a j assume "mCalls s a = Some (j, Awaiting)"
  then show "\<exists>i f. callers (mGroup s) a = Some (Waiting i) \<and> flights (mGroup s) i = Some f \<and> fKey f = flightKey c (clKey j)"
    by (rule linkedD(5) [OF mrun_linked [OF assms]])
qed (use mrun_cost [OF assms] in \<open>simp_all add: finiteMachine_def\<close>)

theorem machine_wellformed_witness:
  "finite (dom (mCalls twoArrived)) \<and> (\<forall>k i. sfState (mGroup twoArrived) k = Some i \<longleftrightarrow>
     (\<exists>b. mBodies twoArrived i = Some b \<and>
       flightKey (memoryCache 0 :: ((nat, event list) MemoryCache, event list) Cache) (clKey (bdCall b)) = k))"
  using machine_wellformed [OF mapFlights_singleflight refl twoArrived_run] by simp

end
