(* ===== verification/Redis.thy ===== *)
theory Redis
  imports CacheAPI
begin

text \<open>
  redis.go: \<open>RedisCache\<close>, the cache on top of a go-redis client. The client is third-party code: it
  is a record of operations, a parameter of every definition here, on the store \<open>'s\<close> (the
  server). What the cache relies on is stated by \<open>redisReads\<close>, \<open>redisWrites\<close> and \<open>redisHealthy\<close>: the client is a client of a
  key-value server with expiry, and \<open>redis.Nil\<close> means absent.

  The lemmas show that, on such a client, the cache keeps the contract of CacheAPI under its key
  prefix, that infrastructure errors and misses are never confused, and which hooks a batch read
  fires.
\<close>

section \<open>The client\<close>

text \<open>
  \<open>rcGet\<close> is \<open>client.Get(...).Bytes()\<close>; an element of the \<open>MGet\<close> result is a string or, for a missing
  key, nil; \<open>rcPipeSet\<close> is a pipeline of \<open>Set\<close> commands and its \<open>Exec\<close>.
\<close>

record ('s, 'h) redisClient =
  rcNil :: gerror
  rcGet :: "ctx \<Rightarrow> key \<Rightarrow> ('s, 'h) world \<Rightarrow> (gerror + bytes) \<times> ('s, 'h) world"
  rcSet :: "ctx \<Rightarrow> key \<Rightarrow> bytes \<Rightarrow> duration \<Rightarrow> ('s, 'h) world \<Rightarrow> gerror option \<times> ('s, 'h) world"
  rcDel :: "ctx \<Rightarrow> key \<Rightarrow> ('s, 'h) world \<Rightarrow> gerror option \<times> ('s, 'h) world"
  rcPing :: "ctx \<Rightarrow> ('s, 'h) world \<Rightarrow> gerror option \<times> ('s, 'h) world"
  rcMGet :: "ctx \<Rightarrow> key list \<Rightarrow> ('s, 'h) world \<Rightarrow> (gerror + bytes option list) \<times> ('s, 'h) world"
  rcPipeSet :: "ctx \<Rightarrow> (key \<times> bytes \<times> duration) list \<Rightarrow> ('s, 'h) world \<Rightarrow> gerror option \<times> ('s, 'h) world"
  rcClose :: "('s, 'h) world \<Rightarrow> gerror option \<times> ('s, 'h) world"

record redisOptions =
  roAddr :: string
  roUsername :: string
  roPassword :: string
  roDB :: int

section \<open>State and construction\<close>

record ('c, 's, 'h) RedisCache =
  rdClient :: "('s, 'h) redisClient"
  rdPrefix :: string
  rdDefaultTTL :: duration
  rdCodec :: "'c Codec option"
  rdHooks :: "'h Hooks"
  rdTTLJitter :: rat
  rdNegativeTTL :: duration
  rdOpTimeout :: duration
  rdStaleTTL :: duration
  rdEarlyBeta :: rat
  rdOwnsClient :: bool

definition newFromClient :: "('s, 'h) redisClient \<Rightarrow> ('c, 'h) Options \<Rightarrow> ('c, 's, 'h) RedisCache" where
  "newFromClient client opt = \<lparr>rdClient = client, rdPrefix = Prefix opt, rdDefaultTTL = DefaultTTL opt,
     rdCodec = CodecOpt opt, rdHooks = HooksOpt opt, rdTTLJitter = TTLJitter opt,
     rdNegativeTTL = NegativeTTL opt, rdOpTimeout = OpTimeout opt, rdStaleTTL = StaleTTL opt,
     rdEarlyBeta = EarlyRefreshBeta opt, rdOwnsClient = False\<rparr>"

text \<open>\<open>newClient\<close> is \<open>redis.NewClient\<close>.\<close>

definition New_redis :: "'c Codec \<Rightarrow> (redisOptions \<Rightarrow> ('s, 'h) redisClient) \<Rightarrow> ('c, 'h) Option list \<Rightarrow>
    ('c, 's, 'h) RedisCache" where
  "New_redis defaultCodec newClient opts =
     (let opt = buildOptions defaultCodec opts;
          client = newClient \<lparr>roAddr = Addr opt, roUsername = Username opt, roPassword = Password opt, roDB = DB opt\<rparr>
      in (newFromClient client opt)\<lparr>rdOwnsClient := True\<rparr>)"

definition NewWithClient :: "'c Codec \<Rightarrow> ('s, 'h) redisClient \<Rightarrow> ('c, 'h) Option list \<Rightarrow>
    ('c, 's, 'h) RedisCache" where
  "NewWithClient defaultCodec client opts = newFromClient client (buildOptions defaultCodec opts)"

definition redisConfig :: "('c, 's, 'h) RedisCache \<Rightarrow> 'h cacheConfig" where
  "redisConfig c = \<lparr>hooks = rdHooks c, negativeTTL = rdNegativeTTL c, defaultTTL = rdDefaultTTL c,
     staleTTL = rdStaleTTL c, earlyRefreshBeta = rdEarlyBeta c, ttlJitter = rdTTLJitter c\<rparr>"

section \<open>Operations\<close>

definition redisTTLFor :: "('c, 's, 'h) RedisCache \<Rightarrow> duration \<Rightarrow> bytes \<Rightarrow> ('s, 'h) world \<Rightarrow>
    duration \<times> ('s, 'h) world" where
  "redisTTLFor c ttl v w = (let ttl1 = (if sint ttl \<le> 0 then rdDefaultTTL c else ttl) in
     if hasEnvelope v then (ttl1, w) else applyJitter ttl1 (rdTTLJitter c) w)"

definition redisKey :: "('c, 's, 'h) RedisCache \<Rightarrow> key \<Rightarrow> key" where
  "redisKey c k = rdPrefix c @ k"

definition redisGet :: "('c, 's, 'h) RedisCache \<Rightarrow> ctx \<Rightarrow> key \<Rightarrow> ('s, 'h) world \<Rightarrow>
    (gerror + bytes) \<times> ('s, 'h) world" where
  "redisGet c cx k w = (case opContext cx (rdOpTimeout c) w of (cx', w1) \<Rightarrow>
     (case rcGet (rdClient c) cx' (redisKey c k) w1 of
        (Inl e, w2) \<Rightarrow>
          if errorsIs e (rcNil (rdClient c)) then (Inl (missError k), hookMiss (rdHooks c) k w2)
          else (Inl (Wrapf ''cachekit: get %q: %w'' [Str k] e), hookError (rdHooks c) OpGet k e w2)
      | (Inr data, w2) \<Rightarrow> (Inr data, hookHit (rdHooks c) k w2)))"

definition redisSet :: "('c, 's, 'h) RedisCache \<Rightarrow> ctx \<Rightarrow> key \<Rightarrow> bytes \<Rightarrow> duration \<Rightarrow> ('s, 'h) world \<Rightarrow>
    gerror option \<times> ('s, 'h) world" where
  "redisSet c cx k v ttl w = (case opContext cx (rdOpTimeout c) w of (cx', w1) \<Rightarrow>
     (case redisTTLFor c ttl v w1 of (d, w2) \<Rightarrow>
       (case rcSet (rdClient c) cx' (redisKey c k) v d w2 of
          (Some e, w3) \<Rightarrow> (Some (Wrapf ''cachekit: set %q: %w'' [Str k] e), hookError (rdHooks c) OpSet k e w3)
        | (None, w3) \<Rightarrow> (None, w3))))"

definition redisDelete :: "('c, 's, 'h) RedisCache \<Rightarrow> ctx \<Rightarrow> key \<Rightarrow> ('s, 'h) world \<Rightarrow>
    gerror option \<times> ('s, 'h) world" where
  "redisDelete c cx k w = (case opContext cx (rdOpTimeout c) w of (cx', w1) \<Rightarrow>
     (case rcDel (rdClient c) cx' (redisKey c k) w1 of
        (Some e, w2) \<Rightarrow> (Some (Wrapf ''cachekit: delete %q: %w'' [Str k] e), hookError (rdHooks c) OpDelete k e w2)
      | (None, w2) \<Rightarrow> (None, w2)))"

definition redisCodec :: "('c, 's, 'h) RedisCache \<Rightarrow> 'c Codec option" where
  "redisCodec c = rdCodec c"

definition redisPing :: "('c, 's, 'h) RedisCache \<Rightarrow> ctx \<Rightarrow> ('s, 'h) world \<Rightarrow> gerror option \<times> ('s, 'h) world" where
  "redisPing c cx w = (case opContext cx (rdOpTimeout c) w of (cx', w1) \<Rightarrow>
     (case rcPing (rdClient c) cx' w1 of
        (Some e, w2) \<Rightarrow> (Some (Wrapf ''cachekit: ping: %w'' [] e), w2)
      | (None, w2) \<Rightarrow> (None, w2)))"

text \<open>
  The loop over the \<open>MGet\<close> result; the reply has one value per requested key, in order.
\<close>

fun redisGetLoop :: "('c, 's, 'h) RedisCache \<Rightarrow> key list \<Rightarrow> bytes option list \<Rightarrow> (key \<rightharpoonup> bytes) \<Rightarrow>
    ('s, 'h) world \<Rightarrow> (key \<rightharpoonup> bytes) \<times> ('s, 'h) world" where
  "redisGetLoop c (k # ks) (None # vs) out w = redisGetLoop c ks vs out (hookMiss (rdHooks c) k w)"
| "redisGetLoop c (k # ks) (Some s # vs) out w = redisGetLoop c ks vs (out(k \<mapsto> s)) (hookHit (rdHooks c) k w)"
| "redisGetLoop c ks vs out w = (out, w)"

definition redisGetMany :: "('c, 's, 'h) RedisCache \<Rightarrow> ctx \<Rightarrow> key list \<Rightarrow> ('s, 'h) world \<Rightarrow>
    (gerror + (key \<rightharpoonup> bytes)) \<times> ('s, 'h) world" where
  "redisGetMany c cx ks w =
     (if ks = [] then (Inr Map.empty, w)
      else case opContext cx (rdOpTimeout c) w of (cx', w1) \<Rightarrow>
       (case rcMGet (rdClient c) cx' (map (redisKey c) ks) w1 of
          (Inl e, w2) \<Rightarrow> (Inl (Wrapf ''cachekit: mget (%d keys): %w'' [Num (length ks)] e),
             fold (\<lambda>k. hookError (rdHooks c) OpGet k e) ks w2)
        | (Inr vals, w2) \<Rightarrow> (case redisGetLoop c ks vals Map.empty w2 of (out, w3) \<Rightarrow> (Inr out, w3))))"

text \<open>Queueing the commands of \<open>SetMany\<close>, each with its own TTL.\<close>

fun redisQueue :: "('c, 's, 'h) RedisCache \<Rightarrow> duration \<Rightarrow> (key \<times> bytes) list \<Rightarrow> ('s, 'h) world \<Rightarrow>
    (key \<times> bytes \<times> duration) list \<times> ('s, 'h) world" where
  "redisQueue c ttl [] w = ([], w)"
| "redisQueue c ttl ((k, v) # xs) w = (case redisTTLFor c ttl v w of (d, w1) \<Rightarrow>
     (case redisQueue c ttl xs w1 of (cmds, w2) \<Rightarrow> ((redisKey c k, v, d) # cmds, w2)))"

definition redisSetMany :: "('c, 's, 'h) RedisCache \<Rightarrow> ctx \<Rightarrow> (key \<times> bytes) list \<Rightarrow> duration \<Rightarrow>
    ('s, 'h) world \<Rightarrow> gerror option \<times> ('s, 'h) world" where
  "redisSetMany c cx kvs ttl w =
     (if kvs = [] then (None, w)
      else case opContext cx (rdOpTimeout c) w of (cx', w1) \<Rightarrow>
       (case rangeItems kvs w1 of (xs, w2) \<Rightarrow>
        (case redisQueue c ttl xs w2 of (cmds, w3) \<Rightarrow>
         (case rcPipeSet (rdClient c) cx' cmds w3 of
            (Some e, w4) \<Rightarrow> (case rangeItems kvs w4 of (ys, w5) \<Rightarrow>
               (Some (Wrapf ''cachekit: mset (%d keys): %w'' [Num (length kvs)] e),
                fold (\<lambda>k. hookError (rdHooks c) OpSet k e) (map fst ys) w5))
          | (None, w4) \<Rightarrow> (None, w4)))))"

definition redisClose :: "('c, 's, 'h) RedisCache \<Rightarrow> ('s, 'h) world \<Rightarrow> gerror option \<times> ('s, 'h) world" where
  "redisClose c w = (if \<not> rdOwnsClient c then (None, w) else rcClose (rdClient c) w)"

text \<open>The cache at address \<open>p\<close> as a value of the interface types.\<close>

definition redisCache :: "('c, 's, 'h) RedisCache \<Rightarrow> nat \<Rightarrow> ('s, 'h) Cache" where
  "redisCache c p = \<lparr>cGet = redisGet c, cSet = redisSet c, cDelete = redisDelete c,
     cBatch = Some \<lparr>bGetMany = redisGetMany c, bSetMany = redisSetMany c\<rparr>,
     cConfigured = Some (\<lambda>_. redisConfig c), cPtr = p\<rparr>"

lemma redisCache_sel [simp]:
  "cGet (redisCache c p) = redisGet c" "cSet (redisCache c p) = redisSet c"
  "cDelete (redisCache c p) = redisDelete c" "cPtr (redisCache c p) = p"
  "cBatch (redisCache c p) = Some \<lparr>bGetMany = redisGetMany c, bSetMany = redisSetMany c\<rparr>"
  "configOf (redisCache c p) w = redisConfig c"
  by (simp_all add: redisCache_def configOf_def)

section \<open>What the cache relies on\<close>

text \<open>
  The documented behaviour of a go-redis client of a key-value server whose content is \<open>rv\<close>: \<open>GET\<close>
  returns the value the server holds, and \<open>redis.Nil\<close> when, by the end of the command, it holds
  none; \<open>SET\<close> with a TTL of \<open>d\<close> issued in world \<open>w\<close> expires at \<open>re d w\<close>; \<open>DEL\<close> removes; no command
  touches other keys; entries only disappear as time passes. Commands may fail with any error
  but the package's own \<open>ErrCacheMiss\<close>.
\<close>

definition redisReads :: "('s, 'h) redisClient \<Rightarrow> ('s \<Rightarrow> time \<Rightarrow> key \<Rightarrow> bytes option) \<Rightarrow> bool" where
  "redisReads cl rv \<longleftrightarrow>
     (\<forall>cx k w v w'. rcGet cl cx k w = (Inr v, w') \<longrightarrow> rv (store w) (now w) k = Some v)
   \<and> (\<forall>cx k w e w'. rcGet cl cx k w = (Inl e, w') \<longrightarrow> \<not> errorsIs e ErrCacheMiss
        \<and> (errorsIs e (rcNil cl) \<longrightarrow> rv (store w) (now w') k = None))
   \<and> (\<forall>cx k w r w'. rcGet cl cx k w = (r, w') \<longrightarrow> advances w w'
        \<and> (\<forall>t k'. now w \<le> t \<longrightarrow> rv (store w') t k' = rv (store w) t k'))
   \<and> (\<forall>s t t' k v. t \<le> t' \<longrightarrow> rv s t' k = Some v \<longrightarrow> rv s t k = Some v)"

definition redisWrites :: "('s, 'h) redisClient \<Rightarrow> ('s \<Rightarrow> time \<Rightarrow> key \<Rightarrow> bytes option) \<Rightarrow>
    (duration \<Rightarrow> ('s, 'h) world \<Rightarrow> time option) \<Rightarrow> bool" where
  "redisWrites cl rv re \<longleftrightarrow>
     (\<forall>cx k v d w w'. rcSet cl cx k v d w = (None, w') \<longrightarrow>
        (\<forall>t. rv (store w') t k = (if livesUntil (re d w) t then Some v else None)))
   \<and> (\<forall>cx k v d w q w'. rcSet cl cx k v d w = (q, w') \<longrightarrow> advances w w'
        \<and> (\<forall>t k'. k' \<noteq> k \<longrightarrow> rv (store w') t k' = rv (store w) t k'))
   \<and> (\<forall>cx k w w'. rcDel cl cx k w = (None, w') \<longrightarrow> (\<forall>t. rv (store w') t k = None))
   \<and> (\<forall>cx k w q w'. rcDel cl cx k w = (q, w') \<longrightarrow> advances w w'
        \<and> (\<forall>t k'. k' \<noteq> k \<longrightarrow> rv (store w') t k' = rv (store w) t k'))"

text \<open>A positive expiration is honoured to the millisecond of the \<open>PX\<close> option.\<close>

definition keepsTTL :: "(duration \<Rightarrow> ('s, 'h) world \<Rightarrow> time option) \<Rightarrow> bool" where
  "keepsTTL re \<longleftrightarrow> (\<forall>d w t. 0 < sint d \<longrightarrow> t < now w + sint d - nsPerMilli \<longrightarrow> livesUntil (re d w) t)"

text \<open>When a \<open>Set\<close> through the cache expires: the server's expiry of the effective TTL.\<close>

definition redisExpiry :: "('c, 's, 'h) RedisCache \<Rightarrow> (duration \<Rightarrow> ('s, 'h) world \<Rightarrow> time option) \<Rightarrow>
    bytes \<Rightarrow> duration \<Rightarrow> ('s, 'h) world \<Rightarrow> time option" where
  "redisExpiry c re v ttl w = (case opContext Background (rdOpTimeout c) w of (_, w1) \<Rightarrow>
     (case redisTTLFor c ttl v w1 of (d, w2) \<Rightarrow> re d w2))"

lemma redisTTLFor_frame [world_frame]:
  "redisTTLFor c ttl v w = (d, w') \<Longrightarrow> advances w w' \<and> store w' = store w \<and> obs w' = obs w"
  by (auto simp: redisTTLFor_def Let_def dest: applyJitter_frame split: if_splits)

lemma opContext_world: "snd (opContext cx d w) = snd (opContext cx' d w)"
  by (simp add: opContext_def withTimeout_def timeNow_def)

lemma opContext_world_eq: "opContext cx d w = (cx', w1) \<Longrightarrow> opContext cx0 d w = (fst (opContext cx0 d w), w1)"
  using opContext_world [of cx d w cx0] by (cases "opContext cx0 d w") simp

lemma redisReadsD:
  assumes "redisReads cl rv"
  shows "rcGet cl cx k w = (Inr v, w') \<Longrightarrow> rv (store w) (now w) k = Some v"
    and "rcGet cl cx k w = (Inl e, w') \<Longrightarrow> \<not> errorsIs e ErrCacheMiss"
    and "rcGet cl cx k w = (Inl e, w') \<Longrightarrow> errorsIs e (rcNil cl) \<Longrightarrow> rv (store w) (now w') k = None"
    and "rcGet cl cx k w = (r, w') \<Longrightarrow> advances w w'"
    and "rcGet cl cx k w = (r, w') \<Longrightarrow> now w \<le> t \<Longrightarrow> rv (store w') t k' = rv (store w) t k'"
    and "t \<le> t' \<Longrightarrow> rv s t' k = Some v \<Longrightarrow> rv s t k = Some v"
proof -
  note l = assms [unfolded redisReads_def]
  show "rcGet cl cx k w = (Inr v, w') \<Longrightarrow> rv (store w) (now w) k = Some v"
    using l [THEN conjunct1, rule_format] .
  note l2 = l [THEN conjunct2, THEN conjunct1, rule_format]
  show "rcGet cl cx k w = (Inl e, w') \<Longrightarrow> \<not> errorsIs e ErrCacheMiss" using l2 by simp
  show "rcGet cl cx k w = (Inl e, w') \<Longrightarrow> errorsIs e (rcNil cl) \<Longrightarrow> rv (store w) (now w') k = None"
    using l2 by simp
  note l3 = l [THEN conjunct2, THEN conjunct2, THEN conjunct1, rule_format]
  show "rcGet cl cx k w = (r, w') \<Longrightarrow> advances w w'" using l3 by simp
  show "rcGet cl cx k w = (r, w') \<Longrightarrow> now w \<le> t \<Longrightarrow> rv (store w') t k' = rv (store w) t k'"
    using l3 by simp
  show "t \<le> t' \<Longrightarrow> rv s t' k = Some v \<Longrightarrow> rv s t k = Some v"
    using l [THEN conjunct2, THEN conjunct2, THEN conjunct2, rule_format] .
qed

lemma redisWritesD:
  assumes "redisWrites cl rv re"
  shows "rcSet cl cx k v d w = (None, w') \<Longrightarrow>
      rv (store w') t k = (if livesUntil (re d w) t then Some v else None)"
    and "rcSet cl cx k v d w = (q, w') \<Longrightarrow> advances w w'"
    and "rcSet cl cx k v d w = (q, w') \<Longrightarrow> k' \<noteq> k \<Longrightarrow> rv (store w') t k' = rv (store w) t k'"
    and "rcDel cl cx k w = (None, w') \<Longrightarrow> rv (store w') t k = None"
    and "rcDel cl cx k w = (q, w') \<Longrightarrow> advances w w'"
    and "rcDel cl cx k w = (q, w') \<Longrightarrow> k' \<noteq> k \<Longrightarrow> rv (store w') t k' = rv (store w) t k'"
proof -
  note l = assms [unfolded redisWrites_def]
  show "rcSet cl cx k v d w = (None, w') \<Longrightarrow>
      rv (store w') t k = (if livesUntil (re d w) t then Some v else None)"
    using l [THEN conjunct1, rule_format] by simp
  note l2 = l [THEN conjunct2, THEN conjunct1, rule_format]
  show "rcSet cl cx k v d w = (q, w') \<Longrightarrow> advances w w'" using l2 by simp
  show "rcSet cl cx k v d w = (q, w') \<Longrightarrow> k' \<noteq> k \<Longrightarrow> rv (store w') t k' = rv (store w) t k'" using l2 by simp
  show "rcDel cl cx k w = (None, w') \<Longrightarrow> rv (store w') t k = None"
    using l [THEN conjunct2, THEN conjunct2, THEN conjunct1, rule_format] by simp
  note l4 = l [THEN conjunct2, THEN conjunct2, THEN conjunct2, rule_format]
  show "rcDel cl cx k w = (q, w') \<Longrightarrow> advances w w'" using l4 by simp
  show "rcDel cl cx k w = (q, w') \<Longrightarrow> k' \<noteq> k \<Longrightarrow> rv (store w') t k' = rv (store w) t k'" using l4 by simp
qed

section \<open>The contract\<close>

lemma redisGet_cases:
  assumes "redisGet c cx k w = (r, w')"
  obtains (hit) cx' w1 data w2 where "opContext cx (rdOpTimeout c) w = (cx', w1)"
      "rcGet (rdClient c) cx' (redisKey c k) w1 = (Inr data, w2)" "r = Inr data" "w' = hookHit (rdHooks c) k w2"
  | (miss) cx' w1 e w2 where "opContext cx (rdOpTimeout c) w = (cx', w1)"
      "rcGet (rdClient c) cx' (redisKey c k) w1 = (Inl e, w2)" "errorsIs e (rcNil (rdClient c))"
      "r = Inl (missError k)" "w' = hookMiss (rdHooks c) k w2"
  | (failed) cx' w1 e w2 where "opContext cx (rdOpTimeout c) w = (cx', w1)"
      "rcGet (rdClient c) cx' (redisKey c k) w1 = (Inl e, w2)" "\<not> errorsIs e (rcNil (rdClient c))"
      "r = Inl (Wrapf ''cachekit: get %q: %w'' [Str k] e)" "w' = hookError (rdHooks c) OpGet k e w2"
  using assms unfolding redisGet_def by (auto split: prod.splits sum.splits if_splits)

lemma redisSet_cases:
  assumes "redisSet c cx k v ttl w = (q, w')"
  obtains cx' w1 d w2 q' w3 where "opContext cx (rdOpTimeout c) w = (cx', w1)" "redisTTLFor c ttl v w1 = (d, w2)"
    "rcSet (rdClient c) cx' (redisKey c k) v d w2 = (q', w3)" "q = None \<longleftrightarrow> q' = None"
    "store w' = store w3" "\<And>u. advances u w' = advances u w3"
proof -
  obtain cx' w1 where o: "opContext cx (rdOpTimeout c) w = (cx', w1)" by force
  obtain d w2 where t: "redisTTLFor c ttl v w1 = (d, w2)" by force
  obtain q' w3 where r: "rcSet (rdClient c) cx' (redisKey c k) v d w2 = (q', w3)" by force
  show ?thesis
    using assms o t r by (intro that [OF o t r]) (auto simp: redisSet_def split: option.splits)
qed

lemma redisDelete_cases:
  assumes "redisDelete c cx k w = (q, w')"
  obtains cx' w1 q' w2 where "opContext cx (rdOpTimeout c) w = (cx', w1)"
    "rcDel (rdClient c) cx' (redisKey c k) w1 = (q', w2)" "q = None \<longleftrightarrow> q' = None"
    "store w' = store w2" "\<And>u. advances u w' = advances u w2"
proof -
  obtain cx' w1 where o: "opContext cx (rdOpTimeout c) w = (cx', w1)" by force
  obtain q' w2 where r: "rcDel (rdClient c) cx' (redisKey c k) w1 = (q', w2)" by force
  show ?thesis
    using assms o r by (intro that [OF o r]) (auto simp: redisDelete_def split: option.splits)
qed

lemma redisGet_shape:
  assumes "redisGet c cx k w = (r, w')"
  obtains cx' w1 g w2 where "opContext cx (rdOpTimeout c) w = (cx', w1)"
    "rcGet (rdClient c) cx' (redisKey c k) w1 = (g, w2)" "store w' = store w2" "now w' = now w2"
    "\<And>u. advances u w' = advances u w2"
    "r = (case g of Inr v \<Rightarrow> Inr v | Inl e \<Rightarrow> Inl (if errorsIs e (rcNil (rdClient c)) then missError k
       else Wrapf ''cachekit: get %q: %w'' [Str k] e))"
proof -
  obtain cx' w1 where o: "opContext cx (rdOpTimeout c) w = (cx', w1)" by force
  obtain g w2 where r: "rcGet (rdClient c) cx' (redisKey c k) w1 = (g, w2)" by force
  show ?thesis
    using assms o r by (intro that [OF o r]) (auto simp: redisGet_def split: sum.splits if_splits)
qed

lemma redisKey_inj [simp]: "redisKey c k = redisKey c k' \<longleftrightarrow> k = k'"
  by (simp add: redisKey_def)

lemma IsMiss_wrap: "IsMiss (Wrapf f as e) \<longleftrightarrow> errorsIs e ErrCacheMiss"
  by (simp add: IsMiss_def ErrCacheMiss_def)

lemma redis_contract:
  assumes reads: "redisReads (rdClient c) rv" and writes: "redisWrites (rdClient c) rv re"
  shows "cache_contract (redisCache c p) (\<lambda>s t k. rv s t (redisKey c k)) (redisExpiry c re)"
proof (unfold_locales, goal_cases)
  case (1 cx k w v w')
  then have "redisGet c cx k w = (Inr v, w')" by simp
  then show ?case
  proof (rule redisGet_shape)
    fix cx' w1 g w2
    assume o: "opContext cx (rdOpTimeout c) w = (cx', w1)" and g: "rcGet (rdClient c) cx' (redisKey c k) w1 = (g, w2)"
      and r: "Inr v = (case g of Inr v \<Rightarrow> Inr v | Inl e \<Rightarrow> Inl (if errorsIs e (rcNil (rdClient c)) then missError k
        else Wrapf ''cachekit: get %q: %w'' [Str k] e))"
    from r have "g = Inr v" by (cases g) auto
    with g have hit: "rv (store w1) (now w1) (redisKey c k) = Some v"
      using redisReadsD(1) [OF reads] by simp
    have "now w \<le> now w1" "store w1 = store w"
      using opContext_frame [OF o] now_mono [OF 1(2)] by auto
    with redisReadsD(6) [OF reads _ hit] show ?case by simp
  qed
next
  case (2 cx k w e w')
  then have "redisGet c cx k w = (Inl e, w')" by simp
  then show ?case
  proof (rule redisGet_shape)
    fix cx' w1 g w2
    assume o: "opContext cx (rdOpTimeout c) w = (cx', w1)" and g: "rcGet (rdClient c) cx' (redisKey c k) w1 = (g, w2)"
      and n: "now w' = now w2"
      and r: "Inl e = (case g of Inr v \<Rightarrow> Inr v | Inl e \<Rightarrow> Inl (if errorsIs e (rcNil (rdClient c)) then missError k
        else Wrapf ''cachekit: get %q: %w'' [Str k] e))"
    from r obtain e' where e': "g = Inl e'" by (cases g) auto
    with g have g': "rcGet (rdClient c) cx' (redisKey c k) w1 = (Inl e', w2)" by simp
    note l = redisReadsD(2,3) [OF reads g']
    from r e' l(1) 2(2) have "errorsIs e' (rcNil (rdClient c))" by (auto simp: IsMiss_wrap split: if_splits)
    from l(2) [OF this] n opContext_frame [OF o] show ?case by simp
  qed
next
  case (3 cx k w r w' t k')
  then have "redisGet c cx k w = (r, w')" by simp
  then show ?case
  proof (rule redisGet_shape)
    fix cx' w1 g w2
    assume o: "opContext cx (rdOpTimeout c) w = (cx', w1)" and g: "rcGet (rdClient c) cx' (redisKey c k) w1 = (g, w2)"
      and st: "store w' = store w2" and n: "now w' = now w2"
    note l = redisReadsD(4,5) [OF reads g]
    have "wfRuntime (rt w1)" using 3(2) opContext_frame [OF o] by (simp add: advances_def)
    then have "now w1 \<le> now w2" using l(1) by (rule now_mono)
    with 3(3) l(2) [of t "redisKey c k'"] n st opContext_frame [OF o] show ?case by simp
  qed
next
  case (4 cx k v ttl w w' t)
  then have "redisSet c cx k v ttl w = (None, w')" by simp
  then show ?case
  proof (rule redisSet_cases)
    fix cx' w1 d w2 q' w3
    assume o: "opContext cx (rdOpTimeout c) w = (cx', w1)" and d: "redisTTLFor c ttl v w1 = (d, w2)"
      and s: "rcSet (rdClient c) cx' (redisKey c k) v d w2 = (q', w3)" and "None = None \<longleftrightarrow> q' = None"
      and st: "store w' = store w3"
    from s \<open>None = None \<longleftrightarrow> q' = None\<close>
    have "rv (store w3) t (redisKey c k) = (if livesUntil (re d w2) t then Some v else None)"
      using redisWritesD(1) [OF writes] by simp
    moreover have "redisExpiry c re v ttl w = re d w2"
      unfolding redisExpiry_def by (subst opContext_world_eq [OF o]) (simp add: d)
    ultimately show ?case using st by simp
  qed
next
  case (5 cx k v ttl w q w' k' t)
  then have "redisSet c cx k v ttl w = (q, w')" by simp
  then show ?case
  proof (rule redisSet_cases)
    fix cx' w1 d w2 q' w3
    assume o: "opContext cx (rdOpTimeout c) w = (cx', w1)" and d: "redisTTLFor c ttl v w1 = (d, w2)"
      and s: "rcSet (rdClient c) cx' (redisKey c k) v d w2 = (q', w3)" and st: "store w' = store w3"
    from redisWritesD(3) [OF writes s, of "redisKey c k'" t] 5(2) st opContext_frame [OF o] redisTTLFor_frame [OF d] show ?case by simp
  qed
next
  case (6 cx k w w' t)
  then have "redisDelete c cx k w = (None, w')" by simp
  then show ?case
    by (rule redisDelete_cases) (use redisWritesD(4) [OF writes] in simp)
next
  case (7 cx k w q w' k' t)
  then have "redisDelete c cx k w = (q, w')" by simp
  then show ?case
  proof (rule redisDelete_cases)
    fix cx' w1 q' w2
    assume o: "opContext cx (rdOpTimeout c) w = (cx', w1)" and d: "rcDel (rdClient c) cx' (redisKey c k) w1 = (q', w2)"
      and st: "store w' = store w2"
    from redisWritesD(6) [OF writes d, of "redisKey c k'" t] 7(2) st opContext_frame [OF o] show ?case by simp
  qed
next
  case (8 t t' s k v)
  then show ?case by (rule redisReadsD(6) [OF reads])
next
  case (9 cx k w r w')
  then have "redisGet c cx k w = (r, w')" by simp
  then show ?case
  proof (rule redisGet_shape)
    fix cx' w1 g w2
    assume o: "opContext cx (rdOpTimeout c) w = (cx', w1)" and g: "rcGet (rdClient c) cx' (redisKey c k) w1 = (g, w2)"
      and a: "\<And>u. advances u w' = advances u w2"
    from redisReadsD(4) [OF reads g] a opContext_frame [OF o] show ?case by (auto intro: advances_trans)
  qed
next
  case (10 cx k v ttl w q w')
  then have "redisSet c cx k v ttl w = (q, w')" by simp
  then show ?case
  proof (rule redisSet_cases)
    fix cx' w1 d w2 q' w3
    assume o: "opContext cx (rdOpTimeout c) w = (cx', w1)" and d: "redisTTLFor c ttl v w1 = (d, w2)"
      and s: "rcSet (rdClient c) cx' (redisKey c k) v d w2 = (q', w3)" and a: "\<And>u. advances u w' = advances u w3"
    from redisWritesD(2) [OF writes s] a opContext_frame [OF o] redisTTLFor_frame [OF d] show ?case by (auto intro: advances_trans)
  qed
next
  case (11 cx k w q w')
  then have "redisDelete c cx k w = (q, w')" by simp
  then show ?case
  proof (rule redisDelete_cases)
    fix cx' w1 q' w2
    assume o: "opContext cx (rdOpTimeout c) w = (cx', w1)" and d: "rcDel (rdClient c) cx' (redisKey c k) w1 = (q', w2)"
      and a: "\<And>u. advances u w' = advances u w2"
    from redisWritesD(5) [OF writes d] a opContext_frame [OF o] show ?case by (auto intro: advances_trans)
  qed
qed simp_all

text \<open>
  A healthy server: no command fails, and without a per-operation timeout a read takes place at
  the instant the call begins.
\<close>

definition redisHealthy :: "('s, 'h) redisClient \<Rightarrow> ('s \<Rightarrow> time \<Rightarrow> key \<Rightarrow> bytes option) \<Rightarrow> bool" where
  "redisHealthy cl rv \<longleftrightarrow>
     (\<forall>cx k w e w'. rcGet cl cx k w = (Inl e, w') \<longrightarrow> errorsIs e (rcNil cl) \<and> rv (store w) (now w) k = None)
   \<and> (\<forall>cx k v d w q w'. rcSet cl cx k v d w = (q, w') \<longrightarrow> q = None)
   \<and> (\<forall>cx k w q w'. rcDel cl cx k w = (q, w') \<longrightarrow> q = None)"

lemma redisHealthyD:
  assumes "redisHealthy cl rv"
  shows "rcSet cl cx k v d w = (q, w') \<Longrightarrow> q = None" "rcDel cl cx k w = (q, w') \<Longrightarrow> q = None"
  using assms [unfolded redisHealthy_def, THEN conjunct2, THEN conjunct1, rule_format]
    assms [unfolded redisHealthy_def, THEN conjunct2, THEN conjunct2, rule_format] by simp_all

lemma redis_reliable:
  assumes reads: "redisReads (rdClient c) rv" and writes: "redisWrites (rdClient c) rv re"
    and healthy: "redisHealthy (rdClient c) rv" and op: "sint (rdOpTimeout c) \<le> 0"
  shows "reliable_cache (redisCache c p) (\<lambda>s t k. rv s t (redisKey c k)) (redisExpiry c re)"
proof (rule reliable_cache.intro)
  show "cache_contract (redisCache c p) (\<lambda>s t k. rv s t (redisKey c k)) (redisExpiry c re)"
    by (rule redis_contract [OF reads writes])
  show "reliable_cache_axioms (redisCache c p) (\<lambda>s t k. rv s t (redisKey c k))"
  proof (unfold_locales, goal_cases)
    case (1 cx k w v w')
    then have "redisGet c cx k w = (Inr v, w')" by simp
    then show ?case
      by (rule redisGet_shape)
        (use op redisReadsD(1) [OF reads] in \<open>auto simp: opContext_def split: sum.splits if_splits\<close>)
  next
    case (2 cx k w r w' t k')
    then have "redisGet c cx k w = (r, w')" by simp
    then show ?case
      by (rule redisGet_shape) (use op 2(2) redisReadsD(5) [OF reads] in \<open>auto simp: opContext_def\<close>)
  next
    case (3 cx k w e w')
    then have "redisGet c cx k w = (Inl e, w')" by simp
    then show ?case
    proof (rule redisGet_shape)
      fix cx' w1 g w2
      assume o: "opContext cx (rdOpTimeout c) w = (cx', w1)"
        and g: "rcGet (rdClient c) cx' (redisKey c k) w1 = (g, w2)"
        and r: "Inl e = (case g of Inr v \<Rightarrow> Inr v | Inl e \<Rightarrow> Inl (if errorsIs e (rcNil (rdClient c)) then missError k
          else Wrapf ''cachekit: get %q: %w'' [Str k] e))"
      from r obtain e' where e': "g = Inl e'" by (cases g) auto
      with g have g': "rcGet (rdClient c) cx' (redisKey c k) w1 = (Inl e', w2)" by simp
      from healthy [unfolded redisHealthy_def, THEN conjunct1, rule_format, OF g']
      have "errorsIs e' (rcNil (rdClient c))" "rv (store w1) (now w1) (redisKey c k) = None" by simp_all
      with r e' o op show ?case by (simp add: opContext_def)
    qed
  next
    case (4 cx k v ttl w q w')
    then have "redisSet c cx k v ttl w = (q, w')" by simp
    then show ?case by (rule redisSet_cases) (use redisHealthyD [OF healthy] in auto)
  next
    case (5 cx k w q w')
    then have "redisDelete c cx k w = (q, w')" by simp
    then show ?case by (rule redisDelete_cases) (use redisHealthyD [OF healthy] in auto)
  qed
qed

text \<open>A client does not call the cache's hooks; then the cache fires exactly its own.\<close>

definition redisSilent :: "('s, 'h) redisClient \<Rightarrow> bool" where
  "redisSilent cl \<longleftrightarrow> (\<forall>cx k w. obs (snd (rcGet cl cx k w)) = obs w) \<and> (\<forall>cx k v d w. obs (snd (rcSet cl cx k v d w)) = obs w)
     \<and> (\<forall>cx k w. obs (snd (rcDel cl cx k w)) = obs w)"

lemma redisSilentD:
  assumes "redisSilent cl"
  shows "rcGet cl cx k w = (r, w') \<Longrightarrow> obs w' = obs w" "rcSet cl cx k v d w = (q, w') \<Longrightarrow> obs w' = obs w"
    "rcDel cl cx k w = (q, w') \<Longrightarrow> obs w' = obs w"
  using assms unfolding redisSilent_def by (metis snd_conv)+

lemma redis_observed:
  assumes "redisReads (rdClient c) rv" "redisWrites (rdClient c) rv re" "redisHealthy (rdClient c) rv"
    and "sint (rdOpTimeout c) \<le> 0" "redisSilent (rdClient c)"
  shows "observed_cache (redisCache c p) (\<lambda>s t k. rv s t (redisKey c k)) (redisExpiry c re)"
proof (rule observed_cache.intro [OF redis_reliable [OF assms(1-4)]], unfold_locales, goal_cases)
  case (1 cx k w r w')
  then have "redisGet c cx k w = (r, w')" by simp
  then show ?case
  proof (cases rule: redisGet_cases)
    case (hit cx' w1 data w2)
    with redisSilentD(1) [OF assms(5) hit(2)] opContext_frame [OF hit(1)] show ?thesis by (simp add: obs_hooks redisConfig_def)
  next
    case (miss cx' w1 e w2)
    with redisSilentD(1) [OF assms(5) miss(2)] opContext_frame [OF miss(1)] show ?thesis by (simp add: obs_hooks redisConfig_def)
  next
    case (failed cx' w1 e w2)
    then show ?thesis using assms(3) [unfolded redisHealthy_def, THEN conjunct1, rule_format, OF failed(2)] by simp
  qed
next
  case (2 cx k v ttl w q w')
  obtain cx' w1 where o: "opContext cx (rdOpTimeout c) w = (cx', w1)" by force
  obtain d w2 where t: "redisTTLFor c ttl v w1 = (d, w2)" by force
  obtain q' w3 where s: "rcSet (rdClient c) cx' (redisKey c k) v d w2 = (q', w3)" by force
  have "q' = None" by (rule redisHealthyD(1) [OF assms(3) s])
  with 2 o t s have "w' = w3" by (simp add: redisSet_def)
  with redisSilentD(2) [OF assms(5) s] opContext_frame [OF o] redisTTLFor_frame [OF t] show ?case by simp
next
  case (3 cx k w q w')
  obtain cx' w1 where o: "opContext cx (rdOpTimeout c) w = (cx', w1)" by force
  obtain q' w2 where d: "rcDel (rdClient c) cx' (redisKey c k) w1 = (q', w2)" by force
  have "q' = None" by (rule redisHealthyD(2) [OF assms(3) d])
  with 3 o d have "w' = w2" by (simp add: redisDelete_def)
  with redisSilentD(3) [OF assms(5) d] opContext_frame [OF o] show ?case by simp
qed

end
