(* ===== verification/RefServer.thy ===== *)
theory RefServer
  imports Redis GetOrSet
begin

text \<open>
  A reference key-value server with expiry and a go-redis client of it. It is the smallest server
  with the documented behaviour; the worked instances of the Redis and Valkey theories run on it,
  and the interpretation \<open>rds\<close> shows that the cache over it is a reliable cache for every
  configuration without a per-operation timeout.
\<close>

section \<open>The server\<close>

type_synonym server = "key \<rightharpoonup> bytes \<times> time option"

definition srvView :: "server \<Rightarrow> time \<Rightarrow> key \<Rightarrow> bytes option" where
  "srvView s t k = (case s k of None \<Rightarrow> None | Some (v, d) \<Rightarrow> if livesUntil d t then Some v else None)"

definition srvExpiry :: "duration \<Rightarrow> (server, 'h) world \<Rightarrow> time option" where
  "srvExpiry d w = (if sint d \<le> 0 then None else Some (tAdd (now w) d))"

definition srvSet :: "key \<Rightarrow> bytes \<Rightarrow> duration \<Rightarrow> (server, 'h) world \<Rightarrow> (server, 'h) world" where
  "srvSet k v d w = w\<lparr>store := (store w)(k \<mapsto> (v, srvExpiry d w))\<rparr>"

definition srvDel :: "key \<Rightarrow> (server, 'h) world \<Rightarrow> (server, 'h) world" where
  "srvDel k w = w\<lparr>store := (store w)(k := None)\<rparr>"

lemma srvView_lapse: "t \<le> t' \<Longrightarrow> srvView s t' k = Some v \<Longrightarrow> srvView s t k = Some v"
  by (auto simp: srvView_def livesUntil_def split: option.splits if_splits)

lemma srvView_set: "srvView (store (srvSet k v d w)) t k' =
   (if k' = k then if livesUntil (srvExpiry d w) t then Some v else None else srvView (store w) t k')"
  by (simp add: srvSet_def srvView_def)

lemma srvView_del: "srvView (store (srvDel k w)) t k' = (if k' = k then None else srvView (store w) t k')"
  by (simp add: srvDel_def srvView_def)

section \<open>A go-redis client\<close>

definition nilReply :: gerror where
  "nilReply = New 7 ''redis: nil''"

definition refRedis :: "(server, 'h) redisClient" where
  "refRedis = \<lparr>rcNil = nilReply,
     rcGet = (\<lambda>cx k w. (case srvView (store w) (now w) k of None \<Rightarrow> Inl nilReply | Some v \<Rightarrow> Inr v, w)),
     rcSet = (\<lambda>cx k v d w. (None, srvSet k v d w)),
     rcDel = (\<lambda>cx k w. (None, srvDel k w)),
     rcPing = (\<lambda>cx w. (None, w)),
     rcMGet = (\<lambda>cx ks w. (Inr (map (srvView (store w) (now w)) ks), w)),
     rcPipeSet = (\<lambda>cx cmds w. (None, fold (\<lambda>(k, v, d). srvSet k v d) cmds w)),
     rcClose = (\<lambda>w. (None, w))\<rparr>"

lemma refRedis_reads: "redisReads refRedis srvView"
  by (auto simp: redisReads_def refRedis_def nilReply_def ErrCacheMiss_def srvView_lapse split: option.splits)

lemma refRedis_writes: "redisWrites refRedis srvView srvExpiry"
  by (auto simp: redisWrites_def refRedis_def srvView_set srvView_del) (auto simp: srvSet_def srvDel_def)

lemma refRedis_healthy: "redisHealthy refRedis srvView"
  by (auto simp: redisHealthy_def refRedis_def split: option.splits)

text \<open>The cache as \<open>NewWithClient\<close> builds it from options that set no per-operation timeout.\<close>

definition refRedisCache :: "('c, 'h) Options \<Rightarrow> ('c, server, 'h) RedisCache" where
  "refRedisCache opt = newFromClient refRedis (opt\<lparr>OpTimeout := 0\<rparr>)"

lemma refRedisCache_client [simp]: "rdClient (refRedisCache opt) = refRedis"
  "sint (rdOpTimeout (refRedisCache opt)) \<le> 0"
  by (simp_all add: refRedisCache_def newFromClient_def)

lemma refRedis_silent: "redisSilent refRedis"
  by (simp add: redisSilent_def refRedis_def srvSet_def srvDel_def)

lemma srvExpiry_keeps: "keepsTTL srvExpiry"
  by (auto simp: keepsTTL_def srvExpiry_def livesUntil_def tAdd_def)

interpretation rds: observed_cache "redisCache (refRedisCache opt) p"
  "\<lambda>s t k. srvView s t (redisKey (refRedisCache opt) k)" "redisExpiry (refRedisCache opt) srvExpiry" for opt p
  by (rule redis_observed) (simp_all add: refRedis_reads refRedis_writes refRedis_healthy refRedis_silent)

text \<open>For the worked instances: a cache over the reference server, and a clock that stands still.\<close>

definition cluster :: "(nat, server, unit) RedisCache" where
  "cluster = refRedisCache initialOptions"

definition clusterWorld :: "server \<Rightarrow> (server, unit) world" where
  "clusterWorld s = (demoWorld 0 s ())\<lparr>rt := (demoRuntime 0)\<lparr>clock := (\<lambda>_. 1700000000000000000)\<rparr>\<rparr>"

lemma cluster_simps [simp]:
  "rdClient cluster = refRedis" "sint (rdOpTimeout cluster) \<le> 0" "redisKey cluster k = k"
  "redisConfig cluster = \<lparr>hooks = noHooks, negativeTTL = 0, defaultTTL = 0, staleTTL = 0, earlyRefreshBeta = 0, ttlJitter = 0\<rparr>"
  by (simp_all add: cluster_def refRedisCache_def newFromClient_def redisKey_def redisConfig_def initialOptions_def)

lemma cluster_healthy:
  "redisReads (rdClient cluster) srvView" "redisWrites (rdClient cluster) srvView srvExpiry" "redisHealthy (rdClient cluster) srvView"
  by (simp_all add: refRedis_reads refRedis_writes refRedis_healthy)

lemma clusterWorld_simps [simp]:
  "now (clusterWorld s) = 1700000000000000000" "store (clusterWorld s) = s" "wfRuntime (rt (clusterWorld s))"
  "clock (rt (clusterWorld s)) n = 1700000000000000000"
  using wfRuntime_demo_zero by (simp_all add: clusterWorld_def now_def wfRuntime_def mono_def)

section \<open>Batch reads\<close>

lemma redisGetLoop_spec:
  fixes c :: "('c, 's, event list) RedisCache"
  assumes "rdHooks c = recorder" "length vs = length ks" "distinct ks" "redisGetLoop c ks vs out w = (out', w')"
  shows "out' = (\<lambda>k. case map_of (zip ks vs) k of Some (Some v) \<Rightarrow> Some v | _ \<Rightarrow> out k)
    \<and> obs w' = obs w @ map (\<lambda>(k, v). if v = None then EMiss k else EHit k) (zip ks vs)
    \<and> store w' = store w"
  using assms(2-4)
proof (induction ks vs arbitrary: out w rule: list_induct2')
  case (4 k ks v vs)
  have nin: "map_of (zip ks vs) k = None" using 4(2,3) by (auto simp: map_of_eq_None_iff dest: set_zip_leftD)
  show ?case
  proof (cases v)
    case None
    with 4 assms(1) show ?thesis by (auto simp: fun_eq_iff hook_defs recorder_def nin split: option.splits)
  next
    case (Some b)
    have "redisGetLoop c ks vs (out(k \<mapsto> b)) (hookHit (rdHooks c) k w) = (out', w')" using 4(4) Some by simp
    from 4(1) [OF _ _ this] 4(2,3) assms(1) Some show ?thesis
      by (auto simp: fun_eq_iff hook_defs recorder_def nin split: option.splits)
  qed
qed (auto simp: fun_eq_iff)

section \<open>Properties\<close>

text \<open>
  (C19) On any client with the documented behaviour of a key-value server, the Redis cache keeps the
  contract of the \<open>Cache\<close> interface under its key prefix: hits return what was stored, a miss is
  reported only for a key that is gone, writes are visible until the server expires them, and
  other keys are never touched.
\<close>

theorem redis_keeps_contract:
  assumes "redisReads (rdClient c) rv" "redisWrites (rdClient c) rv re"
  shows "cache_contract (redisCache c p) (\<lambda>s t k. rv s t (redisKey c k)) (redisExpiry c re)"
  using assms by (rule redis_contract)

theorem redis_keeps_contract_witness:
  "cache_contract (redisCache (newFromClient refRedis ((initialOptions :: (nat, unit) Options)\<lparr>OpTimeout := minute\<rparr>)) 0)
     (\<lambda>s t k. srvView s t (redisKey (newFromClient refRedis ((initialOptions :: (nat, unit) Options)\<lparr>OpTimeout := minute\<rparr>)) k))
     (redisExpiry (newFromClient refRedis ((initialOptions :: (nat, unit) Options)\<lparr>OpTimeout := minute\<rparr>)) srvExpiry)"
  by (rule redis_keeps_contract) (simp_all add: newFromClient_def refRedis_reads refRedis_writes)

text \<open>
  \<open>GetOrSet\<close> over a healthy Redis server: when the key is absent or undecodable the loader's
  value is returned, and the server ends up holding, under the prefixed key, bytes that carry it.
\<close>

theorem redis_getOrSet_loads:
  assumes "redisReads (rdClient c) rv" "redisWrites (rdClient c) rv re" "redisHealthy (rdClient c) rv"
    and "sint (rdOpTimeout c) \<le> 0" "cfg = redisConfig c" "codec = effectiveCodec dflt co" "wfRuntime (rt w)"
    and "unreadable codec cfg (rv (store w) (now w) (redisKey c k))" "loads loader (Ret v)"
    and "Marshal codec v = Inr p" "Unmarshal codec p = Inr v" "envelopeEnabled cfg \<or> \<not> isNegativeEntry p"
    and "getOrSetWithCodec dflt cx (redisCache c a) k ttl co loader FlightResult w = (res, w')"
  shows "res = (Inr v, None) \<and> (\<exists>data u. snd (parseStored cfg data) = p \<and> \<not> isNegativeEntry data
    \<and> (\<forall>t. rv (store w') t (redisKey c k) = (if livesUntil u t then Some data else None)))"
proof -
  have cfg: "cfg = configOf (redisCache c a) w" using assms(5) by simp
  have "\<exists>w''. getOrSetWithCodec dflt cx (redisCache c a) k ttl co loader FlightResult w = ((Inr v, None), w'')
    \<and> (\<exists>data u. snd (parseStored cfg data) = p \<and> \<not> isNegativeEntry data
      \<and> (\<forall>t. rv (store w'') t (redisKey c k) = (if livesUntil u t then Some data else None)))"
    by (rule reliable_cache.miss_loads [OF redis_reliable [OF assms(1-4), of a],
          where cx = cx and ttl = ttl, OF assms(8,7,9,6) cfg assms(10-12)]) blast
  with assms(13) show ?thesis by (metis Pair_inject)
qed

theorem redis_getOrSet_loads_witness:
  "fst (getOrSetWithCodec demoCodec Background (redisCache (refRedisCache (initialOptions :: (nat, unit) Options)) 0)
     ''k'' 0 None (constLoader (Ret 7)) FlightResult (demoWorld 0 Map.empty ())) = (Inr 7, None)"
proof -
  let ?c = "refRedisCache (initialOptions :: (nat, unit) Options)"
  let ?call = "getOrSetWithCodec demoCodec Background (redisCache ?c 0) ''k'' 0 None (constLoader (Ret 7)) FlightResult
    (demoWorld 0 Map.empty ())"
  have c: "?call = (fst ?call, snd ?call)" by simp
  have "envelopeEnabled (redisConfig ?c) \<or> \<not> isNegativeEntry [123, 7]" by simp
  from redis_getOrSet_loads [of ?c srvView srvExpiry, OF _ _ _ _ refl refl _ _ loads_constLoader _ _ this c]
  show ?thesis
    by (simp add: refRedis_reads refRedis_writes refRedis_healthy srvView_def effectiveCodec_def)
qed

text \<open>
  (C35) Infrastructure errors and misses are never confused: a failed \<open>GET\<close> is a cache miss exactly
  when the client reported \<open>redis.Nil\<close>; any other error is wrapped, reported through
  \<open>OnError(OpGet)\<close> and is not a miss, so that it can be told from absence.
\<close>

theorem redis_error_classification:
  assumes "redisReads (rdClient c) rv" "opContext cx (rdOpTimeout c) w = (cx', w1)"
    and "rcGet (rdClient c) cx' (redisKey c k) w1 = (Inl e, w2)"
  shows "\<exists>e' w'. redisGet c cx k w = (Inl e', w') \<and> errorsIs e' (if errorsIs e (rcNil (rdClient c)) then ErrCacheMiss else e)
    \<and> (IsMiss e' \<longleftrightarrow> errorsIs e (rcNil (rdClient c)))
    \<and> w' = (if IsMiss e' then hookMiss (rdHooks c) k w2 else hookError (rdHooks c) OpGet k e w2)"
  using assms(2,3) redisReadsD(2) [OF assms(1,3)]
  by (simp add: redisGet_def IsMiss_wrap missError_def)

theorem redis_error_classification_witness:
  "\<exists>e' w'. redisGet (refRedisCache (initialOptions :: (nat, unit) Options)) Background ''k'' (demoWorld 0 Map.empty ())
    = (Inl e', w') \<and> IsMiss e'"
proof -
  let ?c = "refRedisCache (initialOptions :: (nat, unit) Options)" and ?w = "demoWorld 0 Map.empty ()"
  have o: "opContext Background (rdOpTimeout ?c) ?w = (Background, ?w)" by (simp add: opContext_def)
  have g: "rcGet (rdClient ?c) Background (redisKey ?c ''k'') ?w = (Inl nilReply, ?w)"
    by (simp add: refRedis_def srvView_def)
  have "redisReads (rdClient ?c) srvView" by (simp add: refRedis_reads)
  from redis_error_classification [OF this o g] show ?thesis by (auto simp: refRedis_def)
qed

text \<open>
  A batch read over Redis returns the replies of the server keyed by logical key, leaves out
  the missing ones, and fires exactly one event per requested key, in request order.
\<close>

theorem redis_batch_read:
  fixes c :: "('c, 's, event list) RedisCache"
  assumes "opContext cx (rdOpTimeout c) w = (cx', w1)" "ks \<noteq> []" "distinct ks"
    and "rcMGet (rdClient c) cx' (map (redisKey c) ks) w1 = (Inr vals, w2)" "length vals = length ks"
    and "rdHooks c = recorder" "redisGetMany c cx ks w = (r, w')"
  shows "r = Inr (\<lambda>k. case map_of (zip ks vals) k of Some (Some v) \<Rightarrow> Some v | _ \<Rightarrow> None)
    \<and> obs w' = obs w2 @ map (\<lambda>(k, v). if v = None then EMiss k else EHit k) (zip ks vals)
    \<and> store w' = store w2"
proof -
  obtain out w3 where l: "redisGetLoop c ks vals Map.empty w2 = (out, w3)" by force
  with assms(1,2,4,7) have "r = Inr out" "w' = w3" by (simp_all add: redisGetMany_def)
  with redisGetLoop_spec [OF assms(6,5,3) l] show ?thesis by simp
qed

theorem redis_batch_read_witness:
  "let c = refRedisCache ((initialOptions :: (nat, event list) Options)\<lparr>HooksOpt := recorder, Prefix := ''p:''\<rparr>);
       call = redisGetMany c Background [''b'', ''a''] (demoWorld 0 [''p:a'' \<mapsto> ([1], None)] [])
   in fst call = Inr [''a'' \<mapsto> [1]] \<and> obs (snd call) = [EMiss ''b'', EHit ''a'']"
proof -
  let ?c = "refRedisCache ((initialOptions :: (nat, event list) Options)\<lparr>HooksOpt := recorder, Prefix := ''p:''\<rparr>)"
  let ?w = "demoWorld 0 [''p:a'' \<mapsto> ([1], None)] []"
  let ?call = "redisGetMany ?c Background [''b'', ''a''] ?w"
  have o: "opContext Background (rdOpTimeout ?c) ?w = (Background, ?w)" by (simp add: opContext_def)
  have g: "rcMGet (rdClient ?c) Background (map (redisKey ?c) [''b'', ''a'']) ?w = (Inr [None, Some [1]], ?w)"
    by (simp add: refRedis_def srvView_def redisKey_def refRedisCache_def newFromClient_def livesUntil_def)
  have c: "?call = (fst ?call, snd ?call)" by simp
  have h: "rdHooks ?c = recorder" by (simp add: refRedisCache_def newFromClient_def)
  from redis_batch_read [OF o _ _ g _ h c] show ?thesis by (auto simp: fun_eq_iff Let_def)
qed

text \<open>
  Prefix isolation: two caches over one server whose prefixes are not prefixes of each other
  never see each other's writes or deletes.
\<close>

theorem redis_prefix_isolation:
  assumes "redisWrites (rdClient c) rv re"
    and "take (length (rdPrefix c')) (rdPrefix c) \<noteq> rdPrefix c'" "take (length (rdPrefix c)) (rdPrefix c') \<noteq> rdPrefix c"
    and "redisSet c cx k v ttl w = (q, w1)" "redisDelete c cx k w = (q', w2)"
  shows "rv (store w1) t (redisKey c' k') = rv (store w) t (redisKey c' k')
    \<and> rv (store w2) t (redisKey c' k') = rv (store w) t (redisKey c' k')"
proof
  have ne: "redisKey c' k' \<noteq> redisKey c k"
    using append_prefix_disjoint [OF assms(3,2), of k' k] by (simp add: redisKey_def)
  from assms(4) show "rv (store w1) t (redisKey c' k') = rv (store w) t (redisKey c' k')"
    by (rule redisSet_cases)
      (auto dest!: redisWritesD(3) [OF assms(1) _ ne, of _ _ _ _ _ _ t] opContext_frame redisTTLFor_frame)
  from assms(5) show "rv (store w2) t (redisKey c' k') = rv (store w) t (redisKey c' k')"
    by (rule redisDelete_cases)
      (auto dest!: redisWritesD(6) [OF assms(1) _ ne, of _ _ _ _ t] opContext_frame)
qed

theorem redis_prefix_isolation_witness:
  "let c = refRedisCache ((initialOptions :: (nat, unit) Options)\<lparr>Prefix := ''a:''\<rparr>);
       c' = refRedisCache ((initialOptions :: (nat, unit) Options)\<lparr>Prefix := ''b:''\<rparr>);
       w = demoWorld 0 [''b:k'' \<mapsto> ([1], None)] ()
   in srvView (store (snd (redisSet c Background ''k'' [2] 0 w))) 5 (redisKey c' ''k'') = Some [1]"
proof -
  let ?c = "refRedisCache ((initialOptions :: (nat, unit) Options)\<lparr>Prefix := ''a:''\<rparr>)"
  let ?c' = "refRedisCache ((initialOptions :: (nat, unit) Options)\<lparr>Prefix := ''b:''\<rparr>)"
  let ?w = "demoWorld 0 [''b:k'' \<mapsto> ([1], None)] ()"
  let ?s = "redisSet ?c Background ''k'' [2] 0 ?w" and ?d = "redisDelete ?c Background ''k'' ?w"
  have s: "?s = (fst ?s, snd ?s)" and d: "?d = (fst ?d, snd ?d)" by simp_all
  have w: "redisWrites (rdClient ?c) srvView srvExpiry" by (simp add: refRedis_writes)
  have p: "take (length (rdPrefix ?c')) (rdPrefix ?c) \<noteq> rdPrefix ?c'" "take (length (rdPrefix ?c)) (rdPrefix ?c') \<noteq> rdPrefix ?c"
    by (simp_all add: refRedisCache_def newFromClient_def)
  have "srvView (store ?w) 5 (redisKey ?c' ''k'') = Some [1]"
    by (simp add: srvView_def redisKey_def refRedisCache_def newFromClient_def livesUntil_def)
  with redis_prefix_isolation [OF w p s d, of 5 "''k''"] show ?thesis by (simp add: Let_def)
qed

end
