(* ===== verification/Valkey.thy ===== *)
theory Valkey
  imports RefServer
begin

text \<open>
  valkey.go: \<open>ValkeyCache\<close>, the cache on top of a valkey-go client. As in theory Redis the client is a
  parameter: it executes commands built by its command builder. The reply of a command is an
  error or bytes; a nil reply is an error recognised by \<open>IsValkeyNil\<close>.

  The two backends are meant to be interchangeable. The lemmas make this precise: the single-key
  operations are those of the Redis cache over a client that forwards to valkey-go
  (\<open>viaRedis\<close>), so everything proved of the Redis cache holds of this one.
\<close>

section \<open>The client\<close>

datatype valkeyCmd = VGet key | VSet key bytes "duration option" | VDel key | VPing

type_synonym valkeyResult = "gerror + bytes"

definition resError :: "valkeyResult \<Rightarrow> gerror option" where
  "resError r = (case r of Inl e \<Rightarrow> Some e | Inr _ \<Rightarrow> None)"

record ('s, 'h) valkeyClient =
  IsValkeyNil :: "gerror \<Rightarrow> bool"
  vcDo :: "ctx \<Rightarrow> valkeyCmd \<Rightarrow> ('s, 'h) world \<Rightarrow> valkeyResult \<times> ('s, 'h) world"
  vcDoCache :: "ctx \<Rightarrow> valkeyCmd \<Rightarrow> duration \<Rightarrow> ('s, 'h) world \<Rightarrow> valkeyResult \<times> ('s, 'h) world"
  vcDoMulti :: "ctx \<Rightarrow> valkeyCmd list \<Rightarrow> ('s, 'h) world \<Rightarrow> valkeyResult list \<times> ('s, 'h) world"
  vcDoMultiCache :: "ctx \<Rightarrow> (valkeyCmd \<times> duration) list \<Rightarrow> ('s, 'h) world \<Rightarrow> valkeyResult list \<times> ('s, 'h) world"
  vcClose :: "('s, 'h) world \<Rightarrow> ('s, 'h) world"

record clientOption =
  InitAddress :: "string list"
  coUsername :: string
  coPassword :: string
  SelectDB :: int
  DisableCache :: bool

section \<open>State and construction\<close>

record ('c, 's, 'h) ValkeyCache =
  vkClient :: "('s, 'h) valkeyClient"
  vkPrefix :: string
  vkDefaultTTL :: duration
  vkCodec :: "'c Codec option"
  vkClientCacheTTL :: duration
  vkHooks :: "'h Hooks"
  vkTTLJitter :: rat
  vkNegativeTTL :: duration
  vkOpTimeout :: duration
  vkStaleTTL :: duration
  vkEarlyBeta :: rat
  vkOwnsClient :: bool

definition newValkeyFromClient :: "('s, 'h) valkeyClient \<Rightarrow> ('c, 'h) Options \<Rightarrow> ('c, 's, 'h) ValkeyCache" where
  "newValkeyFromClient client opt = \<lparr>vkClient = client, vkPrefix = Prefix opt, vkDefaultTTL = DefaultTTL opt,
     vkCodec = CodecOpt opt, vkClientCacheTTL = ClientSideCacheTTL opt, vkHooks = HooksOpt opt,
     vkTTLJitter = TTLJitter opt, vkNegativeTTL = NegativeTTL opt, vkOpTimeout = OpTimeout opt,
     vkStaleTTL = StaleTTL opt, vkEarlyBeta = EarlyRefreshBeta opt, vkOwnsClient = False\<rparr>"

text \<open>\<open>newClient\<close> is \<open>valkey.NewClient\<close>; it dials and may fail.\<close>

definition NewValkey :: "'c Codec \<Rightarrow> (clientOption \<Rightarrow> ('s, 'h) world \<Rightarrow> (gerror + ('s, 'h) valkeyClient) \<times> ('s, 'h) world) \<Rightarrow>
    ('c, 'h) Option list \<Rightarrow> ('s, 'h) world \<Rightarrow> (gerror + ('c, 's, 'h) ValkeyCache) \<times> ('s, 'h) world" where
  "NewValkey defaultCodec newClient opts w =
     (let opt = buildOptions defaultCodec opts in
      case newClient \<lparr>InitAddress = [Addr opt], coUsername = Username opt, coPassword = Password opt,
             SelectDB = DB opt, DisableCache = (sint (ClientSideCacheTTL opt) \<le> 0)\<rparr> w of
        (Inl e, w1) \<Rightarrow> (Inl (Wrapf ''cachekit: connect %q: %w'' [Str (Addr opt)] e), w1)
      | (Inr client, w1) \<Rightarrow> (Inr ((newValkeyFromClient client opt)\<lparr>vkOwnsClient := True\<rparr>), w1))"

definition NewValkeyWithClient :: "'c Codec \<Rightarrow> ('s, 'h) valkeyClient \<Rightarrow> ('c, 'h) Option list \<Rightarrow>
    ('c, 's, 'h) ValkeyCache" where
  "NewValkeyWithClient defaultCodec client opts = newValkeyFromClient client (buildOptions defaultCodec opts)"

definition valkeyConfig :: "('c, 's, 'h) ValkeyCache \<Rightarrow> 'h cacheConfig" where
  "valkeyConfig c = \<lparr>hooks = vkHooks c, negativeTTL = vkNegativeTTL c, defaultTTL = vkDefaultTTL c,
     staleTTL = vkStaleTTL c, earlyRefreshBeta = vkEarlyBeta c, ttlJitter = vkTTLJitter c\<rparr>"

section \<open>Operations\<close>

definition valkeyTTLFor :: "('c, 's, 'h) ValkeyCache \<Rightarrow> duration \<Rightarrow> bytes \<Rightarrow> ('s, 'h) world \<Rightarrow>
    duration \<times> ('s, 'h) world" where
  "valkeyTTLFor c ttl v w = (let ttl1 = (if sint ttl \<le> 0 then vkDefaultTTL c else ttl) in
     case (if \<not> hasEnvelope v then applyJitter ttl1 (vkTTLJitter c) w else (ttl1, w)) of (ttl2, w1) \<Rightarrow>
       (if 0 < sint ttl2 \<and> sint ttl2 < sint millisecond then millisecond else ttl2, w1))"

definition valkeyKey :: "('c, 's, 'h) ValkeyCache \<Rightarrow> key \<Rightarrow> key" where
  "valkeyKey c k = vkPrefix c @ k"

definition setCmd :: "('c, 's, 'h) ValkeyCache \<Rightarrow> key \<Rightarrow> bytes \<Rightarrow> duration \<Rightarrow> ('s, 'h) world \<Rightarrow>
    valkeyCmd \<times> ('s, 'h) world" where
  "setCmd c k v ttl w = (case valkeyTTLFor c ttl v w of (d, w1) \<Rightarrow>
     (if 0 < sint d then VSet (valkeyKey c k) v (Some d) else VSet (valkeyKey c k) v None, w1))"

definition valkeyGet :: "('c, 's, 'h) ValkeyCache \<Rightarrow> ctx \<Rightarrow> key \<Rightarrow> ('s, 'h) world \<Rightarrow>
    (gerror + bytes) \<times> ('s, 'h) world" where
  "valkeyGet c cx k w = (case opContext cx (vkOpTimeout c) w of (cx', w1) \<Rightarrow>
     (case (if 0 < sint (vkClientCacheTTL c)
            then vcDoCache (vkClient c) cx' (VGet (valkeyKey c k)) (vkClientCacheTTL c) w1
            else vcDo (vkClient c) cx' (VGet (valkeyKey c k)) w1) of
        (Inl e, w2) \<Rightarrow>
          if IsValkeyNil (vkClient c) e then (Inl (missError k), hookMiss (vkHooks c) k w2)
          else (Inl (Wrapf ''cachekit: get %q: %w'' [Str k] e), hookError (vkHooks c) OpGet k e w2)
      | (Inr data, w2) \<Rightarrow> (Inr data, hookHit (vkHooks c) k w2)))"

definition valkeySet :: "('c, 's, 'h) ValkeyCache \<Rightarrow> ctx \<Rightarrow> key \<Rightarrow> bytes \<Rightarrow> duration \<Rightarrow> ('s, 'h) world \<Rightarrow>
    gerror option \<times> ('s, 'h) world" where
  "valkeySet c cx k v ttl w = (case opContext cx (vkOpTimeout c) w of (cx', w1) \<Rightarrow>
     (case setCmd c k v ttl w1 of (cmd, w2) \<Rightarrow>
       (case vcDo (vkClient c) cx' cmd w2 of (res, w3) \<Rightarrow>
         (case resError res of
            Some e \<Rightarrow> (Some (Wrapf ''cachekit: set %q: %w'' [Str k] e), hookError (vkHooks c) OpSet k e w3)
          | None \<Rightarrow> (None, w3)))))"

definition valkeyDelete :: "('c, 's, 'h) ValkeyCache \<Rightarrow> ctx \<Rightarrow> key \<Rightarrow> ('s, 'h) world \<Rightarrow>
    gerror option \<times> ('s, 'h) world" where
  "valkeyDelete c cx k w = (case opContext cx (vkOpTimeout c) w of (cx', w1) \<Rightarrow>
     (case vcDo (vkClient c) cx' (VDel (valkeyKey c k)) w1 of (res, w2) \<Rightarrow>
       (case resError res of
          Some e \<Rightarrow> (Some (Wrapf ''cachekit: delete %q: %w'' [Str k] e), hookError (vkHooks c) OpDelete k e w2)
        | None \<Rightarrow> (None, w2))))"

definition valkeyCodec :: "('c, 's, 'h) ValkeyCache \<Rightarrow> 'c Codec option" where
  "valkeyCodec c = vkCodec c"

definition valkeyPing :: "('c, 's, 'h) ValkeyCache \<Rightarrow> ctx \<Rightarrow> ('s, 'h) world \<Rightarrow> gerror option \<times> ('s, 'h) world" where
  "valkeyPing c cx w = (case opContext cx (vkOpTimeout c) w of (cx', w1) \<Rightarrow>
     (case vcDo (vkClient c) cx' VPing w1 of (res, w2) \<Rightarrow>
       (case resError res of
          Some e \<Rightarrow> (Some (Wrapf ''cachekit: ping: %w'' [] e), w2)
        | None \<Rightarrow> (None, w2))))"

text \<open>
  The loop over the replies of a batch read: result map and first error, every reply consumed.
  There is one reply per key.
\<close>

fun valkeyGetLoop :: "('c, 's, 'h) ValkeyCache \<Rightarrow> key list \<Rightarrow> valkeyResult list \<Rightarrow> (key \<rightharpoonup> bytes) \<Rightarrow>
    gerror option \<Rightarrow> ('s, 'h) world \<Rightarrow> ((key \<rightharpoonup> bytes) \<times> gerror option) \<times> ('s, 'h) world" where
  "valkeyGetLoop c (k # ks) (Inl e # rs) out firstErr w =
     (if IsValkeyNil (vkClient c) e then valkeyGetLoop c ks rs out firstErr (hookMiss (vkHooks c) k w)
      else valkeyGetLoop c ks rs out
        (if firstErr = None then Some (Wrapf ''cachekit: get %q: %w'' [Str k] e) else firstErr)
        (hookError (vkHooks c) OpGet k e w))"
| "valkeyGetLoop c (k # ks) (Inr data # rs) out firstErr w =
     valkeyGetLoop c ks rs (out(k \<mapsto> data)) firstErr (hookHit (vkHooks c) k w)"
| "valkeyGetLoop c ks rs out firstErr w = ((out, firstErr), w)"

definition valkeyGetMany :: "('c, 's, 'h) ValkeyCache \<Rightarrow> ctx \<Rightarrow> key list \<Rightarrow> ('s, 'h) world \<Rightarrow>
    (gerror + (key \<rightharpoonup> bytes)) \<times> ('s, 'h) world" where
  "valkeyGetMany c cx ks w =
     (if ks = [] then (Inr Map.empty, w)
      else case opContext cx (vkOpTimeout c) w of (cx', w1) \<Rightarrow>
       (case (if 0 < sint (vkClientCacheTTL c)
              then vcDoMultiCache (vkClient c) cx' (map (\<lambda>k. (VGet (valkeyKey c k), vkClientCacheTTL c)) ks) w1
              else vcDoMulti (vkClient c) cx' (map (\<lambda>k. VGet (valkeyKey c k)) ks) w1) of (results, w2) \<Rightarrow>
        (case valkeyGetLoop c ks results Map.empty None w2 of ((out, firstErr), w3) \<Rightarrow>
          (case firstErr of Some e \<Rightarrow> (Inl e, w3) | None \<Rightarrow> (Inr out, w3)))))"

text \<open>Building the commands of \<open>SetMany\<close>.\<close>

fun setCmds :: "('c, 's, 'h) ValkeyCache \<Rightarrow> duration \<Rightarrow> (key \<times> bytes) list \<Rightarrow> ('s, 'h) world \<Rightarrow>
    valkeyCmd list \<times> ('s, 'h) world" where
  "setCmds c ttl [] w = ([], w)"
| "setCmds c ttl ((k, v) # xs) w = (case setCmd c k v ttl w of (cmd, w1) \<Rightarrow>
     (case setCmds c ttl xs w1 of (cmds, w2) \<Rightarrow> (cmd # cmds, w2)))"

fun valkeySetLoop :: "('c, 's, 'h) ValkeyCache \<Rightarrow> key list \<Rightarrow> valkeyResult list \<Rightarrow> gerror option \<Rightarrow>
    ('s, 'h) world \<Rightarrow> gerror option \<times> ('s, 'h) world" where
  "valkeySetLoop c (k # ks) (r # rs) firstErr w = (case resError r of
       None \<Rightarrow> valkeySetLoop c ks rs firstErr w
     | Some e \<Rightarrow> valkeySetLoop c ks rs
         (if firstErr = None then Some (Wrapf ''cachekit: set %q: %w'' [Str k] e) else firstErr)
         (hookError (vkHooks c) OpSet k e w))"
| "valkeySetLoop c ks rs firstErr w = (firstErr, w)"

definition valkeySetMany :: "('c, 's, 'h) ValkeyCache \<Rightarrow> ctx \<Rightarrow> (key \<times> bytes) list \<Rightarrow> duration \<Rightarrow>
    ('s, 'h) world \<Rightarrow> gerror option \<times> ('s, 'h) world" where
  "valkeySetMany c cx kvs ttl w =
     (if kvs = [] then (None, w)
      else case opContext cx (vkOpTimeout c) w of (cx', w1) \<Rightarrow>
       (case rangeItems kvs w1 of (xs, w2) \<Rightarrow>
        (case setCmds c ttl xs w2 of (cmds, w3) \<Rightarrow>
         (case vcDoMulti (vkClient c) cx' cmds w3 of (results, w4) \<Rightarrow>
           valkeySetLoop c (map fst xs) results None w4))))"

definition valkeyClose :: "('c, 's, 'h) ValkeyCache \<Rightarrow> ('s, 'h) world \<Rightarrow> gerror option \<times> ('s, 'h) world" where
  "valkeyClose c w = (if vkOwnsClient c then (None, vcClose (vkClient c) w) else (None, w))"

definition valkeyCache :: "('c, 's, 'h) ValkeyCache \<Rightarrow> nat \<Rightarrow> ('s, 'h) Cache" where
  "valkeyCache c p = \<lparr>cGet = valkeyGet c, cSet = valkeySet c, cDelete = valkeyDelete c,
     cBatch = Some \<lparr>bGetMany = valkeyGetMany c, bSetMany = valkeySetMany c\<rparr>,
     cConfigured = Some (\<lambda>_. valkeyConfig c), cPtr = p\<rparr>"

section \<open>The Redis cache behind it\<close>

text \<open>A go-redis client that forwards to valkey-go, and the Redis cache over it.\<close>

definition floorTTL :: "duration \<Rightarrow> duration" where
  "floorTTL d = (if 0 < sint d \<and> sint d < sint millisecond then millisecond else d)"

definition pxCmd :: "key \<Rightarrow> bytes \<Rightarrow> duration \<Rightarrow> valkeyCmd" where
  "pxCmd k v d = (if 0 < sint d then VSet k v (Some d) else VSet k v None)"

definition nilToRedis :: "('s, 'h) valkeyClient \<Rightarrow> valkeyResult \<Rightarrow> valkeyResult" where
  "nilToRedis cl r = (case r of Inl e \<Rightarrow> if IsValkeyNil cl e then Inl nilReply else Inl e | Inr b \<Rightarrow> Inr b)"

definition realErrors :: "('s, 'h) valkeyClient \<Rightarrow> valkeyResult list \<Rightarrow> gerror list" where
  "realErrors cl rs = List.map_filter (\<lambda>r. case r of Inl e \<Rightarrow> if IsValkeyNil cl e then None else Some e | Inr _ \<Rightarrow> None) rs"

definition forwarding :: "('s, 'h) valkeyClient \<Rightarrow> duration \<Rightarrow> ('s, 'h) redisClient" where
  "forwarding cl cacheTTL = \<lparr>rcNil = nilReply,
     rcGet = (\<lambda>cx k w. case (if 0 < sint cacheTTL then vcDoCache cl cx (VGet k) cacheTTL w else vcDo cl cx (VGet k) w)
       of (r, w') \<Rightarrow> (nilToRedis cl r, w')),
     rcSet = (\<lambda>cx k v d w. case vcDo cl cx (pxCmd k v (floorTTL d)) w of (r, w') \<Rightarrow> (resError r, w')),
     rcDel = (\<lambda>cx k w. case vcDo cl cx (VDel k) w of (r, w') \<Rightarrow> (resError r, w')),
     rcPing = (\<lambda>cx w. case vcDo cl cx VPing w of (r, w') \<Rightarrow> (resError r, w')),
     rcMGet = (\<lambda>cx ks w. case (if 0 < sint cacheTTL then vcDoMultiCache cl cx (map (\<lambda>k. (VGet k, cacheTTL)) ks) w
         else vcDoMulti cl cx (map VGet ks) w) of (rs, w') \<Rightarrow>
       (case realErrors cl rs of e # _ \<Rightarrow> Inl e
        | [] \<Rightarrow> Inr (map (\<lambda>r. case r of Inl _ \<Rightarrow> None | Inr b \<Rightarrow> Some b) rs), w')),
     rcPipeSet = (\<lambda>cx cmds w. case vcDoMulti cl cx (map (\<lambda>(k, v, d). pxCmd k v (floorTTL d)) cmds) w of (rs, w') \<Rightarrow>
       (case List.map_filter resError rs of e # _ \<Rightarrow> Some e | [] \<Rightarrow> None, w')),
     rcClose = (\<lambda>w. (None, vcClose cl w))\<rparr>"

definition viaRedis :: "('c, 's, 'h) ValkeyCache \<Rightarrow> ('c, 's, 'h) RedisCache" where
  "viaRedis c = \<lparr>rdClient = forwarding (vkClient c) (vkClientCacheTTL c), rdPrefix = vkPrefix c,
     rdDefaultTTL = vkDefaultTTL c, rdCodec = vkCodec c, rdHooks = vkHooks c, rdTTLJitter = vkTTLJitter c,
     rdNegativeTTL = vkNegativeTTL c, rdOpTimeout = vkOpTimeout c, rdStaleTTL = vkStaleTTL c,
     rdEarlyBeta = vkEarlyBeta c, rdOwnsClient = vkOwnsClient c\<rparr>"

lemma viaRedis_fields [simp]:
  "rdClient (viaRedis c) = forwarding (vkClient c) (vkClientCacheTTL c)" "rdPrefix (viaRedis c) = vkPrefix c"
  "rdDefaultTTL (viaRedis c) = vkDefaultTTL c" "rdHooks (viaRedis c) = vkHooks c"
  "rdTTLJitter (viaRedis c) = vkTTLJitter c" "rdOpTimeout (viaRedis c) = vkOpTimeout c"
  "redisKey (viaRedis c) = valkeyKey c" "redisConfig (viaRedis c) = valkeyConfig c"
  by (simp_all add: viaRedis_def redisKey_def valkeyKey_def redisConfig_def valkeyConfig_def fun_eq_iff)

lemma valkeyTTLFor_redis:
  "valkeyTTLFor c ttl v w = (case redisTTLFor (viaRedis c) ttl v w of (d, w') \<Rightarrow> (floorTTL d, w'))"
  by (simp add: valkeyTTLFor_def redisTTLFor_def floorTTL_def Let_def split: prod.splits)

lemma setCmd_redis:
  "setCmd c k v ttl w = (case redisTTLFor (viaRedis c) ttl v w of (d, w') \<Rightarrow> (pxCmd (valkeyKey c k) v (floorTTL d), w'))"
  by (simp add: setCmd_def valkeyTTLFor_redis pxCmd_def split: prod.splits)

text \<open>No error the client returns, other than the nil reply, passes for the stand-in nil of the forwarder.\<close>

definition nilSeparate :: "('s, 'h) valkeyClient \<Rightarrow> bool" where
  "nilSeparate cl \<longleftrightarrow> (\<forall>cx cmd ttl w e w'.
     vcDo cl cx cmd w = (Inl e, w') \<or> vcDoCache cl cx cmd ttl w = (Inl e, w') \<longrightarrow>
     \<not> IsValkeyNil cl e \<longrightarrow> \<not> errorsIs e nilReply)"

lemma valkeyGet_redis:
  assumes "nilSeparate (vkClient c)"
  shows "valkeyGet c cx k w = redisGet (viaRedis c) cx k w"
proof -
  obtain cx' w1 where o: "opContext cx (vkOpTimeout c) w = (cx', w1)" by force
  let ?do = "if 0 < sint (vkClientCacheTTL c)
    then vcDoCache (vkClient c) cx' (VGet (valkeyKey c k)) (vkClientCacheTTL c) w1
    else vcDo (vkClient c) cx' (VGet (valkeyKey c k)) w1"
  obtain r w2 where r: "?do = (r, w2)" by force
  have sep: "\<not> IsValkeyNil (vkClient c) e \<Longrightarrow> \<not> errorsIs e nilReply" if "r = Inl e" for e
    using assms r that unfolding nilSeparate_def by (metis (full_types))
  show ?thesis
    unfolding valkeyGet_def redisGet_def using o r sep
    by (cases r) (auto simp: forwarding_def nilToRedis_def)
qed

lemma valkeySet_redis: "valkeySet c cx k v ttl w = redisSet (viaRedis c) cx k v ttl w"
  by (simp add: valkeySet_def redisSet_def setCmd_redis forwarding_def split: prod.splits option.splits)

lemma valkeyDelete_redis: "valkeyDelete c cx k w = redisDelete (viaRedis c) cx k w"
  by (simp add: valkeyDelete_def redisDelete_def forwarding_def split: prod.splits option.splits)

lemma valkeyPing_redis: "valkeyPing c cx w = redisPing (viaRedis c) cx w"
  by (simp add: valkeyPing_def redisPing_def forwarding_def split: prod.splits option.splits)

lemma valkey_contract_redis:
  assumes "nilSeparate (vkClient c)"
  shows "cache_contract (valkeyCache c p) view expiry \<longleftrightarrow> cache_contract (redisCache (viaRedis c) p) view expiry"
    and "reliable_cache (valkeyCache c p) view expiry \<longleftrightarrow> reliable_cache (redisCache (viaRedis c) p) view expiry"
proof -
  have eq: "cGet (valkeyCache c p) = cGet (redisCache (viaRedis c) p)"
    "cSet (valkeyCache c p) = cSet (redisCache (viaRedis c) p)"
    "cDelete (valkeyCache c p) = cDelete (redisCache (viaRedis c) p)"
    "configOf (valkeyCache c p) w = configOf (redisCache (viaRedis c) p) w" for w
    by (simp_all add: valkeyCache_def fun_eq_iff valkeyGet_redis [OF assms] valkeySet_redis valkeyDelete_redis configOf_def redisCache_def)
  show "cache_contract (valkeyCache c p) view expiry \<longleftrightarrow> cache_contract (redisCache (viaRedis c) p) view expiry"
    by (rule cache_contract_cong [OF eq])
  show "reliable_cache (valkeyCache c p) view expiry \<longleftrightarrow> reliable_cache (redisCache (viaRedis c) p) view expiry"
    by (rule cache_contract_cong [OF eq])
qed

section \<open>Batch replies\<close>

definition replyEvent :: "('s, 'h) valkeyClient \<Rightarrow> key \<Rightarrow> valkeyResult \<Rightarrow> event" where
  "replyEvent cl k r = (case r of Inr _ \<Rightarrow> EHit k
     | Inl e \<Rightarrow> if IsValkeyNil cl e then EMiss k else EError OpGet k e)"

text \<open>The first reply that is a real error, as \<open>GetMany\<close> wraps it.\<close>

fun firstFailure :: "('s, 'h) valkeyClient \<Rightarrow> (key \<times> valkeyResult) list \<Rightarrow> gerror option" where
  "firstFailure cl [] = None"
| "firstFailure cl ((k, r) # xs) = (case r of
       Inl e \<Rightarrow> if IsValkeyNil cl e then firstFailure cl xs else Some (Wrapf ''cachekit: get %q: %w'' [Str k] e)
     | Inr _ \<Rightarrow> firstFailure cl xs)"

lemma valkeyGetLoop_spec:
  fixes c :: "('c, 's, event list) ValkeyCache"
  assumes "vkHooks c = recorder" "length rs = length ks" "distinct ks"
    and "valkeyGetLoop c ks rs out fe w = ((out', fe'), w')"
  shows "out' = (\<lambda>k. case map_of (zip ks rs) k of Some (Inr v) \<Rightarrow> Some v | _ \<Rightarrow> out k)
    \<and> fe' = (case fe of Some e \<Rightarrow> Some e | None \<Rightarrow> firstFailure (vkClient c) (zip ks rs))
    \<and> obs w' = obs w @ map (\<lambda>(k, r). replyEvent (vkClient c) k r) (zip ks rs)
    \<and> store w' = store w"
  using assms(2-4)
proof (induction ks rs arbitrary: out fe w rule: list_induct2')
  case (4 k ks r rs)
  have nin: "map_of (zip ks rs) k = None" using 4(2,3) by (auto simp: map_of_eq_None_iff dest: set_zip_leftD)
  have len: "length rs = length ks" "distinct ks" using 4(2,3) by simp_all
  show ?case
  proof (cases r)
    case (Inl e)
    show ?thesis
    proof (cases "IsValkeyNil (vkClient c) e")
      case True
      with Inl 4(4) have "valkeyGetLoop c ks rs out fe (hookMiss (vkHooks c) k w) = ((out', fe'), w')" by simp
      from 4(1) [OF len this] True Inl assms(1) nin show ?thesis
        by (auto simp: fun_eq_iff hook_defs recorder_def replyEvent_def split: option.splits)
    next
      case False
      with Inl 4(4) have "valkeyGetLoop c ks rs out
          (if fe = None then Some (Wrapf ''cachekit: get %q: %w'' [Str k] e) else fe)
          (hookError (vkHooks c) OpGet k e w) = ((out', fe'), w')" by simp
      from 4(1) [OF len this] False Inl assms(1) nin show ?thesis
        by (cases fe) (auto simp: fun_eq_iff hook_defs recorder_def replyEvent_def split: option.splits)
    qed
  next
    case (Inr b)
    with 4(4) have "valkeyGetLoop c ks rs (out(k \<mapsto> b)) fe (hookHit (vkHooks c) k w) = ((out', fe'), w')" by simp
    from 4(1) [OF len this] Inr assms(1) nin show ?thesis
      by (auto simp: fun_eq_iff hook_defs recorder_def replyEvent_def split: option.splits sum.splits)
  qed
qed (auto simp: fun_eq_iff split: option.splits)

section \<open>A valkey-go client of the reference server\<close>

text \<open>\<open>PX\<close> carries whole milliseconds.\<close>

fun refDo :: "valkeyCmd \<Rightarrow> (server, 'h) world \<Rightarrow> valkeyResult \<times> (server, 'h) world" where
  "refDo (VGet k) w = (case srvView (store w) (now w) k of None \<Rightarrow> Inl nilReply | Some v \<Rightarrow> Inr v, w)"
| "refDo (VSet k v px) w = (Inr [], srvSet k v (case px of None \<Rightarrow> 0 | Some d \<Rightarrow> milliseconds d * millisecond) w)"
| "refDo (VDel k) w = (Inr [], srvDel k w)"
| "refDo VPing w = (Inr [], w)"

fun refDoMulti :: "valkeyCmd list \<Rightarrow> (server, 'h) world \<Rightarrow> valkeyResult list \<times> (server, 'h) world" where
  "refDoMulti [] w = ([], w)"
| "refDoMulti (c # cs) w = (case refDo c w of (r, w1) \<Rightarrow> (case refDoMulti cs w1 of (rs, w2) \<Rightarrow> (r # rs, w2)))"

definition refValkey :: "(server, 'h) valkeyClient" where
  "refValkey = \<lparr>IsValkeyNil = (\<lambda>e. errorsIs e nilReply), vcDo = (\<lambda>cx. refDo), vcDoCache = (\<lambda>cx cmd ttl. refDo cmd),
     vcDoMulti = (\<lambda>cx. refDoMulti), vcDoMultiCache = (\<lambda>cx cmds. refDoMulti (map fst cmds)), vcClose = id\<rparr>"

definition pxExpiry :: "duration \<Rightarrow> (server, 'h) world \<Rightarrow> time option" where
  "pxExpiry d w = srvExpiry (if 0 < sint (floorTTL d) then milliseconds (floorTTL d) * millisecond else 0) w"

lemma refValkey_get: "rcGet (forwarding refValkey ttl) cx k w
    = (case srvView (store w) (now w) k of None \<Rightarrow> Inl nilReply | Some v \<Rightarrow> Inr v, w)"
  by (simp add: forwarding_def refValkey_def nilToRedis_def split: option.splits)

lemma refValkey_set: "rcSet (forwarding refValkey ttl) cx k v d w
    = (None, srvSet k v (if 0 < sint (floorTTL d) then milliseconds (floorTTL d) * millisecond else 0) w)"
  by (simp add: forwarding_def refValkey_def pxCmd_def resError_def)

lemma refValkey_del: "rcDel (forwarding refValkey ttl) cx k w = (None, srvDel k w)"
  by (simp add: forwarding_def refValkey_def resError_def)

lemma refValkey_nil [simp]: "rcNil (forwarding cl ttl) = nilReply"
  by (simp add: forwarding_def)

lemma refValkey_laws:
  "redisReads (forwarding refValkey ttl) srvView" "redisWrites (forwarding refValkey ttl) srvView pxExpiry"
  "redisHealthy (forwarding refValkey ttl) srvView"
proof -
  show "redisReads (forwarding refValkey ttl) srvView"
    by (auto simp: redisReads_def refValkey_get nilReply_def ErrCacheMiss_def srvView_lapse split: option.splits)
  show "redisWrites (forwarding refValkey ttl) srvView pxExpiry"
    unfolding redisWrites_def refValkey_set refValkey_del
    by (auto simp: srvView_set srvView_del pxExpiry_def) (auto simp: srvSet_def srvDel_def)
  show "redisHealthy (forwarding refValkey ttl) srvView"
    by (auto simp: redisHealthy_def refValkey_get refValkey_set refValkey_del split: option.splits)
qed

definition refValkeyCache :: "('c, 'h) Options \<Rightarrow> ('c, server, 'h) ValkeyCache" where
  "refValkeyCache opt = newValkeyFromClient refValkey (opt\<lparr>OpTimeout := 0\<rparr>)"

lemma refValkeyCache_client [simp]: "vkClient (refValkeyCache opt) = refValkey" "vkOpTimeout (refValkeyCache opt) = 0"
  "nilSeparate refValkey"
  by (simp_all add: refValkeyCache_def newValkeyFromClient_def nilSeparate_def refValkey_def)

interpretation vks: reliable_cache "valkeyCache (refValkeyCache opt) p"
  "\<lambda>s t k. srvView s t (redisKey (viaRedis (refValkeyCache opt)) k)"
  "redisExpiry (viaRedis (refValkeyCache opt)) pxExpiry" for opt p
  by (rule valkey_contract_redis(2) [THEN iffD2, OF _ redis_reliable]) (simp_all add: refValkey_laws)

section \<open>Properties\<close>

lemma milliseconds_pos: "sint millisecond \<le> sint d \<Longrightarrow> sint (milliseconds d) = sint d div nsPerMilli"
proof -
  assume d: "sint millisecond \<le> sint d"
  then have q: "sint d sdiv nsPerMilli = sint d div nsPerMilli" by (simp add: sdiv_nonneg)
  have "0 \<le> sint d div nsPerMilli" using d by (simp add: pos_imp_zdiv_nonneg_iff)
  moreover have "sint d div nsPerMilli \<le> sint d" using d zdiv_mono2 [of "sint d" 1 nsPerMilli] by simp
  ultimately show ?thesis
    unfolding milliseconds_def q using sint64_bounds [of d] by (intro sint64_of_int) auto
qed

text \<open>
  (C21) The Valkey cache refines the Redis cache: over a client whose other errors are not its nil
  reply, \<open>Get\<close>, \<open>Set\<close>, \<open>Delete\<close>, \<open>Ping\<close> and the configuration are exactly those of the Redis cache
  over the forwarding client, hooks, error texts and clock readings included.
\<close>

theorem valkey_refines_redis:
  assumes "nilSeparate (vkClient c)"
  shows "valkeyGet c cx k w = redisGet (viaRedis c) cx k w
    \<and> valkeySet c cx k v ttl w = redisSet (viaRedis c) cx k v ttl w
    \<and> valkeyDelete c cx k w = redisDelete (viaRedis c) cx k w
    \<and> valkeyPing c cx w = redisPing (viaRedis c) cx w
    \<and> valkeyConfig c = redisConfig (viaRedis c)"
  using valkeyGet_redis [OF assms] valkeySet_redis valkeyDelete_redis valkeyPing_redis by auto

theorem valkey_refines_redis_witness:
  "valkeyGet (refValkeyCache (initialOptions :: (nat, unit) Options)) Background ''k'' (demoWorld 0 [''k'' \<mapsto> ([1], None)] ())
    = (Inr [1], demoWorld 0 [''k'' \<mapsto> ([1], None)] ())"
proof -
  let ?c = "refValkeyCache (initialOptions :: (nat, unit) Options)" and ?w = "demoWorld 0 [''k'' \<mapsto> ([1 :: byte], None)] ()"
  have "nilSeparate (vkClient ?c)" by simp
  from valkey_refines_redis [OF this, of Background "''k''" ?w] show ?thesis
    by (simp add: redisGet_def opContext_def refValkey_get srvView_def livesUntil_def valkeyKey_def
        refValkeyCache_def newValkeyFromClient_def initialOptions_def)
qed

text \<open>
  (C36) The \<open>PX\<close> floor: whatever TTL is asked for and whatever jitter does, the command stores the
  value under the prefixed key, and a \<open>PX\<close> argument is at least one millisecond, never the
  \<open>PX 0\<close> that servers reject.
\<close>

theorem valkey_px_floor:
  "\<exists>px. fst (setCmd c k v ttl w) = VSet (valkeyKey c k) v px
     \<and> (case px of None \<Rightarrow> True | Some d \<Rightarrow> 1 \<le> sint (milliseconds d))"
proof -
  obtain d w1 where d: "redisTTLFor (viaRedis c) ttl v w = (d, w1)" by force
  have "1 \<le> sint (milliseconds (floorTTL d))" if "0 < sint (floorTTL d)"
  proof -
    have ge: "sint millisecond \<le> sint (floorTTL d)" using that by (auto simp: floorTTL_def split: if_splits)
    then have "1 \<le> sint (floorTTL d) div nsPerMilli" using zdiv_mono1 [OF ge, of nsPerMilli] by simp
    with milliseconds_pos [OF ge] show ?thesis by simp
  qed
  with d show ?thesis by (simp add: setCmd_redis pxCmd_def)
qed

text \<open>
  Without jitter (or for an enveloped value) the TTL of a write is the argument, or the default
  when it is not positive: no \<open>PX\<close> at all when that is not positive either, and otherwise that TTL
  in whole milliseconds, at least one.
\<close>

theorem valkey_ttl_resolution:
  assumes "vkTTLJitter c \<le> 0 \<or> hasEnvelope v" "eff = (if sint ttl \<le> 0 then vkDefaultTTL c else ttl)"
  shows "if sint eff \<le> 0 then setCmd c k v ttl w = (VSet (valkeyKey c k) v None, w)
    else \<exists>d. setCmd c k v ttl w = (VSet (valkeyKey c k) v (Some d), w)
      \<and> sint (milliseconds d) = max 1 (sint eff div nsPerMilli)"
proof -
  have r: "redisTTLFor (viaRedis c) ttl v w = (eff, w)" using assms by (auto simp: redisTTLFor_def Let_def)
  have "sint (milliseconds (floorTTL eff)) = max 1 (sint eff div nsPerMilli)" if "0 < sint eff"
  proof (cases "sint eff < sint millisecond")
    case True
    with that have "sint eff div nsPerMilli = 0" by (simp add: div_pos_pos_trivial)
    with True that milliseconds_pos [of millisecond] show ?thesis by (simp add: floorTTL_def)
  next
    case False
    then have ge: "sint millisecond \<le> sint eff" by simp
    then have "1 \<le> sint eff div nsPerMilli" using zdiv_mono1 [OF ge, of nsPerMilli] by simp
    with False milliseconds_pos [OF ge] show ?thesis by (simp add: floorTTL_def)
  qed
  moreover have "0 < sint (floorTTL eff) \<longleftrightarrow> 0 < sint eff" by (simp add: floorTTL_def)
  ultimately show ?thesis by (auto simp: setCmd_redis r pxCmd_def)
qed

theorem valkey_ttl_resolution_witness:
  "\<exists>d. fst (setCmd (refValkeyCache (initialOptions :: (nat, unit) Options)) ''k'' [1] 1 (demoWorld 0 Map.empty ()))
    = VSet ''k'' [1] (Some d) \<and> sint (milliseconds d) = 1"
  using valkey_ttl_resolution [of "refValkeyCache (initialOptions :: (nat, unit) Options)" "[1]" 1 1 "''k''" "demoWorld 0 Map.empty ()"]
  by (auto simp: refValkeyCache_def newValkeyFromClient_def initialOptions_def valkeyKey_def)

text \<open>
  A batch read over Valkey consumes every reply before it fails: exactly one event fires per
  requested key, in request order; the call fails with the first real error, wrapped with its
  key, and otherwise returns the values found.
\<close>

theorem valkey_batch_read:
  fixes c :: "('c, 's, event list) ValkeyCache"
  assumes "opContext cx (vkOpTimeout c) w = (cx', w1)" "ks \<noteq> []" "distinct ks" "sint (vkClientCacheTTL c) \<le> 0"
    and "vcDoMulti (vkClient c) cx' (map (\<lambda>k. VGet (valkeyKey c k)) ks) w1 = (rs, w2)" "length rs = length ks"
    and "vkHooks c = recorder" "valkeyGetMany c cx ks w = (r, w')"
  shows "r = (case firstFailure (vkClient c) (zip ks rs) of Some e \<Rightarrow> Inl e
        | None \<Rightarrow> Inr (\<lambda>k. case map_of (zip ks rs) k of Some (Inr v) \<Rightarrow> Some v | _ \<Rightarrow> None))
    \<and> obs w' = obs w2 @ map (\<lambda>(k, r). replyEvent (vkClient c) k r) (zip ks rs)
    \<and> store w' = store w2"
proof -
  obtain out fe w3 where l: "valkeyGetLoop c ks rs Map.empty None w2 = ((out, fe), w3)" by (metis surj_pair)
  with assms(1,2,4,5,8) have "r = (case fe of Some e \<Rightarrow> Inl e | None \<Rightarrow> Inr out)" "w' = w3"
    by (auto simp: valkeyGetMany_def split: option.splits)
  with valkeyGetLoop_spec [OF assms(7,6,3) l] show ?thesis
    by (cases "firstFailure (vkClient c) (zip ks rs)") simp_all
qed

theorem valkey_batch_read_witness:
  "let c = refValkeyCache ((initialOptions :: (nat, event list) Options)\<lparr>HooksOpt := recorder\<rparr>);
       call = valkeyGetMany c Background [''b'', ''a''] (demoWorld 0 [''a'' \<mapsto> ([1], None)] [])
   in fst call = Inr [''a'' \<mapsto> [1]] \<and> obs (snd call) = [EMiss ''b'', EHit ''a'']"
proof -
  let ?c = "refValkeyCache ((initialOptions :: (nat, event list) Options)\<lparr>HooksOpt := recorder\<rparr>)"
  let ?w = "demoWorld 0 [''a'' \<mapsto> ([1], None)] []"
  let ?call = "valkeyGetMany ?c Background [''b'', ''a''] ?w"
  have o: "opContext Background (vkOpTimeout ?c) ?w = (Background, ?w)" by (simp add: opContext_def)
  have g: "vcDoMulti (vkClient ?c) Background (map (\<lambda>k. VGet (valkeyKey ?c k)) [''b'', ''a'']) ?w
      = ([Inl nilReply, Inr [1]], ?w)"
    by (simp add: refValkey_def srvView_def valkeyKey_def refValkeyCache_def newValkeyFromClient_def
        livesUntil_def initialOptions_def)
  have c: "?call = (fst ?call, snd ?call)" by simp
  have h: "vkHooks ?c = recorder" "sint (vkClientCacheTTL ?c) \<le> 0"
    by (simp_all add: refValkeyCache_def newValkeyFromClient_def initialOptions_def)
  from valkey_batch_read [OF o _ _ h(2) g _ h(1) c] show ?thesis
    by (auto simp: fun_eq_iff Let_def replyEvent_def refValkey_def)
qed

end
