(* ===== verification/Batch.thy ===== *)
theory Batch
  imports Loading Memory
begin

text \<open>
  batch.go: \<open>GetOrSetMany\<close> and \<open>GetOrSetManyWithCodec\<close>. One call reads all keys (through the batch
  interface when the cache has one), decodes what it found, gives the loader the missing keys
  in one call, and stores what was loaded and, with negative caching, what was not.

  The phases of the source are the functions below, in its order. A Go map that is only looked
  up is a partial function; \<open>vals\<close> and \<open>negs\<close>, which are ranged over, are association lists.
\<close>

section \<open>The phases\<close>

type_synonym ('v, 's, 'h) manyLoader =
  "ctx \<Rightarrow> key list \<Rightarrow> ('s, 'h) world \<Rightarrow> (key \<rightharpoonup> 'v) outcome \<times> ('s, 'h) world"

fun readEach :: "ctx \<Rightarrow> ('s, 'h) Cache \<Rightarrow> key list \<Rightarrow> (key \<rightharpoonup> bytes) \<Rightarrow> ('s, 'h) world \<Rightarrow>
    (key \<rightharpoonup> bytes) \<times> ('s, 'h) world" where
  "readEach cx c [] raw w = (raw, w)"
| "readEach cx c (k # ks) raw w = (case cGet c cx k w of
       (Inr data, w1) \<Rightarrow> readEach cx c ks (raw(k \<mapsto> data)) w1
     | (Inl _, w1) \<Rightarrow> readEach cx c ks raw w1)"

definition readPhase :: "ctx \<Rightarrow> ('s, 'h) Cache \<Rightarrow> key list \<Rightarrow> ('s, 'h) world \<Rightarrow>
    (key \<rightharpoonup> bytes) \<times> ('s, 'h) world" where
  "readPhase cx c uniq w = (case cBatch c of
       Some bc \<Rightarrow> (case bGetMany bc cx uniq w of
           (Inr r, w1) \<Rightarrow> (r, w1)
         | (Inl _, w1) \<Rightarrow> (Map.empty, w1))
     | None \<Rightarrow> readEach cx c uniq Map.empty w)"

fun decodePhase :: "ctx \<Rightarrow> ('s, 'h) Cache \<Rightarrow> 'v Codec \<Rightarrow> 'h cacheConfig \<Rightarrow> (key \<rightharpoonup> bytes) \<Rightarrow>
    key list \<Rightarrow> (key \<rightharpoonup> 'v) \<Rightarrow> key list \<Rightarrow> ('s, 'h) world \<Rightarrow>
    ((key \<rightharpoonup> 'v) \<times> key list) \<times> ('s, 'h) world" where
  "decodePhase cx c codec cfg raw [] result missing w = ((result, missing), w)"
| "decodePhase cx c codec cfg raw (k # ks) result missing w = (case raw k of
       None \<Rightarrow> decodePhase cx c codec cfg raw ks result (missing @ [k]) w
     | Some data \<Rightarrow>
         if isNegativeEntry data then decodePhase cx c codec cfg raw ks result missing w
         else (case Unmarshal codec (snd (parseStored cfg data)) of
             Inl e \<Rightarrow> decodePhase cx c codec cfg raw ks result (missing @ [k])
               (snd (cDelete c cx k (hookError (hooks cfg) OpDecode k e w)))
           | Inr v \<Rightarrow> decodePhase cx c codec cfg raw ks (result(k \<mapsto> v)) missing w))"

text \<open>What the packing loop has built so far.\<close>

record 'v packed =
  pkResult :: "key \<rightharpoonup> 'v"
  pkVals :: "(key \<times> bytes) list"
  pkNegs :: "(key \<times> bytes) list"
  pkTTL :: duration

fun packPhase :: "'v Codec \<Rightarrow> 'h cacheConfig \<Rightarrow> duration \<Rightarrow> duration \<Rightarrow> (key \<rightharpoonup> 'v) \<Rightarrow> key list \<Rightarrow>
    'v packed \<Rightarrow> ('s, 'h) world \<Rightarrow> 'v packed \<times> ('s, 'h) world" where
  "packPhase codec cfg ttl loadDur loaded [] pk w = (pk, w)"
| "packPhase codec cfg ttl loadDur loaded (k # ks) pk w = (case loaded k of
       None \<Rightarrow> packPhase codec cfg ttl loadDur loaded ks
         (if pos64 (negativeTTL cfg) then pk\<lparr>pkNegs := AList.update k negativeMarker (pkNegs pk)\<rparr> else pk) w
     | Some v \<Rightarrow>
         (let pk1 = pk\<lparr>pkResult := (pkResult pk)(k \<mapsto> v)\<rparr> in
          case Marshal codec v of
            Inl merr \<Rightarrow> packPhase codec cfg ttl loadDur loaded ks pk1
              (hookError (hooks cfg) OpEncode k merr w)
          | Inr payload \<Rightarrow> (case packForStore payload ttl loadDur cfg w of ((data, packedTTL), w1) \<Rightarrow>
              packPhase codec cfg ttl loadDur loaded ks
                (pk1\<lparr>pkTTL := packedTTL, pkVals := AList.update k data (pkVals pk)\<rparr>) w1)))"

fun setEach :: "ctx \<Rightarrow> ('s, 'h) Cache \<Rightarrow> (key \<times> bytes) list \<Rightarrow> duration \<Rightarrow> ('s, 'h) world \<Rightarrow> ('s, 'h) world" where
  "setEach cx c [] ttl w = w"
| "setEach cx c ((k, data) # xs) ttl w = setEach cx c xs ttl (snd (cSet c cx k data ttl w))"

definition writePhase :: "ctx \<Rightarrow> ('s, 'h) Cache \<Rightarrow> 'h cacheConfig \<Rightarrow> 'v packed \<Rightarrow> ('s, 'h) world \<Rightarrow> ('s, 'h) world" where
  "writePhase wctx c cfg pk w = (case cBatch c of
       Some bc \<Rightarrow>
         snd (bSetMany bc wctx (pkNegs pk) (negativeTTL cfg) (snd (bSetMany bc wctx (pkVals pk) (pkTTL pk) w)))
     | None \<Rightarrow>
         (case rangeItems (pkVals pk) w of (vs, w1) \<Rightarrow>
           (case rangeItems (pkNegs pk) (setEach wctx c vs (pkTTL pk) w1) of (ns, w2) \<Rightarrow>
             setEach wctx c ns (negativeTTL cfg) w2)))"

section \<open>The helper\<close>

text \<open>
  The batch loader runs in the caller's goroutine: its panic is the caller's.
\<close>

definition getOrSetManyWithCodec :: "'v Codec \<Rightarrow> ctx \<Rightarrow> ('s, 'h) Cache \<Rightarrow> key list \<Rightarrow> duration \<Rightarrow>
    'v Codec option \<Rightarrow> ('v, 's, 'h) manyLoader \<Rightarrow> ('s, 'h) world \<Rightarrow> (key \<rightharpoonup> 'v) outcome \<times> ('s, 'h) world" where
  "getOrSetManyWithCodec defaultCodec cx c keys ttl codecOpt loader w =
     (let codec = (case codecOpt of None \<Rightarrow> defaultCodec | Some x \<Rightarrow> x); cfg = configOf c w;
          uniq = dedupFrom [] keys in
      case readPhase cx c uniq w of (raw, w1) \<Rightarrow>
      case decodePhase cx c codec cfg raw uniq Map.empty [] w1 of ((result, missing), w2) \<Rightarrow>
      if missing = [] then (Ret result, w2)
      else case timeNow w2 of (start, w3) \<Rightarrow>
       (case loader cx missing w3 of
          (Panic p, w4) \<Rightarrow> (Panic p, w4)
        | (Err e, w4) \<Rightarrow> (case timeNow w4 of (end, w5) \<Rightarrow>
            (Err e, fold (\<lambda>k. hookLoad (hooks cfg) k (tSub end start) (Some e)) missing w5))
        | (Ret loaded, w4) \<Rightarrow> (case timeNow w4 of (end, w5) \<Rightarrow>
            (case packPhase codec cfg ttl (tSub end start) loaded missing
                \<lparr>pkResult = result, pkVals = [], pkNegs = [], pkTTL = ttl\<rparr>
                (fold (\<lambda>k. hookLoad (hooks cfg) k (tSub end start) None) missing w5) of (pk, w6) \<Rightarrow>
              (Ret (pkResult pk), writePhase (withoutCancel cx) c cfg pk w6)))))"

definition getOrSetMany :: "'v Codec \<Rightarrow> ctx \<Rightarrow> ('s, 'h) Cache \<Rightarrow> key list \<Rightarrow> duration \<Rightarrow>
    ('v, 's, 'h) manyLoader \<Rightarrow> ('s, 'h) world \<Rightarrow> (key \<rightharpoonup> 'v) outcome \<times> ('s, 'h) world" where
  "getOrSetMany defaultCodec cx c keys ttl loader w =
     getOrSetManyWithCodec defaultCodec cx c keys ttl (Some defaultCodec) loader w"

section \<open>Reading a batch from the memory cache\<close>

lemma memView_between:
  assumes "memView s t0 k = x" "memView s T k = x" "t0 \<le> t" "t \<le> T"
  shows "memView s t k = x"
proof (cases x)
  case None
  with assms(1) mem.view_lapse [OF assms(3), of s k] show ?thesis by (cases "memView s t k") auto
next
  case (Some v)
  with assms(2) have "memView s T k = Some v" by simp
  from mem.view_lapse [OF assms(4) this] Some show ?thesis by simp
qed

lemma memGetLoop_spec:
  assumes "memGetLoop ks out w = ((out', hs, ms), w1)" "wfRuntime (rt w)"
    and "clock (rt w) (reads w + length ks) \<le> T"
    and "\<forall>k\<in>set ks. memView (store w) (now w) k = f k \<and> memView (store w) T k = f k"
  shows "out' = (\<lambda>k. if k \<in> set ks \<and> f k \<noteq> None then f k else out k)
    \<and> hs = filter (\<lambda>k. f k \<noteq> None) ks \<and> ms = filter (\<lambda>k. f k = None) ks
    \<and> advances w w1 \<and> obs w1 = obs w \<and> memFixed (store w1) = memFixed (store w)
    \<and> (\<forall>t k. now w1 \<le> t \<longrightarrow> memView (store w1) t k = memView (store w) t k)"
  using assms
proof (induction ks arbitrary: out w hs ms)
  case (Cons k ks)
  obtain r w' where l: "memLookup k w = (r, w')" by force
  note fr = memLookup_frame [OF l]
  obtain hs' ms' where g:
    "memGetLoop ks (case r of None \<Rightarrow> out | Some it \<Rightarrow> out(k \<mapsto> val it)) w' = ((out', hs', ms'), w1)"
    and hm: "hs = (if r = None then hs' else k # hs')" "ms = (if r = None then k # ms' else ms')"
    using Cons.prems(1) l by (auto split: option.splits prod.splits)
  have fk: "f k = map_option val r" using memLookup_result [OF l] Cons.prems(4) by simp
  have rt: "rt w' = rt w" using fr by (simp add: advances_def)
  have wf': "wfRuntime (rt w')" using Cons.prems(2) rt by simp
  have rd: "reads w' \<le> Suc (reads w)" using memLookup_reads [OF l] .
  have mono: "mono (clock (rt w))" using Cons.prems(2) by (simp add: wfRuntime_def)
  have T: "clock (rt w') (reads w' + length ks) \<le> T"
    using Cons.prems(3) rd rt monoD [OF mono, of "reads w' + length ks" "reads w + length (k # ks)"]
    by simp
  have n1: "now w \<le> now w'" using Cons.prems(2) fr by (intro now_mono) auto
  have n2: "now w' \<le> T"
    using T rt monoD [OF mono, of "reads w'" "reads w' + length ks"] by (simp add: now_def)
  have f': "memView (store w') (now w') k' = f k' \<and> memView (store w') T k' = f k'" if "k' \<in> set ks" for k'
  proof -
    have "memView (store w) (now w) k' = f k'" "memView (store w) T k' = f k'"
      using Cons.prems(4) that by auto
    from memView_between [OF this n1 n2] this(2) show ?thesis
      using memLookup_view [OF l, of "now w'" k'] memLookup_view [OF l, of T k'] n1 n2 by simp
  qed
  from Cons.IH [OF g wf' T] f' have IH:
    "out' = (\<lambda>k'. if k' \<in> set ks \<and> f k' \<noteq> None then f k'
        else (case r of None \<Rightarrow> out | Some it \<Rightarrow> out(k \<mapsto> val it)) k')"
    "hs' = filter (\<lambda>k. f k \<noteq> None) ks" "ms' = filter (\<lambda>k. f k = None) ks"
    "advances w' w1" "obs w1 = obs w'" "memFixed (store w1) = memFixed (store w')"
    "\<forall>t k. now w1 \<le> t \<longrightarrow> memView (store w1) t k = memView (store w') t k" by auto
  have n3: "now w' \<le> now w1" using wf' IH(4) by (rule now_mono)
  have "memView (store w1) t k' = memView (store w) t k'" if "now w1 \<le> t" for t k'
    using IH(7) memLookup_view [OF l, of t k'] that n1 n3 by simp
  then have vw: "\<forall>t k. now w1 \<le> t \<longrightarrow> memView (store w1) t k = memView (store w) t k" by blast
  have "advances w w1" using fr IH(4) by (blast intro: advances_trans)
  moreover have "out' = (\<lambda>k'. if k' \<in> set (k # ks) \<and> f k' \<noteq> None then f k' else out k')"
    unfolding IH(1) using fk by (cases r) (simp_all add: fun_eq_iff)
  moreover have "hs = filter (\<lambda>k. f k \<noteq> None) (k # ks) \<and> ms = filter (\<lambda>k. f k = None) (k # ks)"
    using hm IH(2,3) fk by (cases r) simp_all
  moreover have "obs w1 = obs w" "memFixed (store w1) = memFixed (store w)" using IH(5,6) fr by simp_all
  ultimately show ?case using vw by blast
qed simp

lemma fold_hook_frame [simp]:
  "rt (fold (hookMiss h) ks w) = rt w" "rt (fold (hookHit h) ks w) = rt w"
  "reads (fold (hookMiss h) ks w) = reads w" "reads (fold (hookHit h) ks w) = reads w"
  "advances w' (fold (hookMiss h) ks w) = advances w' w" "advances w' (fold (hookHit h) ks w) = advances w' w"
  by (induction ks arbitrary: w) simp_all

lemma fold_hookLoad_frame [simp]:
  "store (fold (\<lambda>k. hookLoad h k d e) ks w) = store w" "rt (fold (\<lambda>k. hookLoad h k d e) ks w) = rt w"
  "advances w' (fold (\<lambda>k. hookLoad h k d e) ks w) = advances w' w"
  "advances (fold (\<lambda>k. hookLoad h k d e) ks w) w' = advances w w'"
  "now (fold (\<lambda>k. hookLoad h k d e) ks w) = now w"
  by (induction ks arbitrary: w) simp_all

lemma fold_hook_now [simp]: "now (fold (hookMiss h) ks w) = now w" "now (fold (hookHit h) ks w) = now w"
  by (simp_all add: now_def)

lemma fold_hookHit_obs: "obs w1 = obs w \<Longrightarrow> obs (fold (hookHit h) ks w1) = obs (fold (hookHit h) ks w)"
  by (induction ks arbitrary: w1 w) (simp_all add: hookHit_def split: option.splits)

lemma fold_hookMiss_obs: "obs w1 = obs w \<Longrightarrow> obs (fold (hookMiss h) ks w1) = obs (fold (hookMiss h) ks w)"
  by (induction ks arbitrary: w1 w) (simp_all add: hookMiss_def split: option.splits)

lemma fold_hook_obs:
  "obs w1 = obs w \<Longrightarrow> obs (fold (hookMiss h) ms (fold (hookHit h) hs w1))
     = obs (fold (hookMiss h) ms (fold (hookHit h) hs w))"
  by (intro fold_hookMiss_obs fold_hookHit_obs)

lemma memGetMany_spec:
  assumes "memGetMany cx ks w = (r, w')" "wfRuntime (rt w)"
    and "\<forall>k\<in>set ks. memView (store w) (clock (rt w) (reads w + length ks)) k = memView (store w) (now w) k"
  shows "r = Inr (\<lambda>k. if k \<in> set ks then memView (store w) (now w) k else None)
    \<and> obs w' = obs (fold (hookMiss (mcHooks (store w))) (filter (\<lambda>k. memView (store w) (now w) k = None) ks)
        (fold (hookHit (mcHooks (store w))) (filter (\<lambda>k. memView (store w) (now w) k \<noteq> None) ks) w))
    \<and> advances w w' \<and> memFixed (store w') = memFixed (store w)
    \<and> (\<forall>t k. now w' \<le> t \<longrightarrow> memView (store w') t k = memView (store w) t k)"
proof -
  obtain out hs ms w1 where g: "memGetLoop ks Map.empty w = ((out, hs, ms), w1)" by (metis surj_pair)
  let ?f = "memView (store w) (now w)"
  have spec: "out = (\<lambda>k. if k \<in> set ks \<and> ?f k \<noteq> None then ?f k else None)"
    "hs = filter (\<lambda>k. ?f k \<noteq> None) ks" "ms = filter (\<lambda>k. ?f k = None) ks"
    "advances w w1" "obs w1 = obs w" "memFixed (store w1) = memFixed (store w)"
    "\<forall>t k. now w1 \<le> t \<longrightarrow> memView (store w1) t k = memView (store w) t k"
    using memGetLoop_spec [OF g assms(2) order_refl, of ?f] assms(3) by simp_all
  have w': "w' = fold (hookMiss (mcHooks (store w))) ms (fold (hookHit (mcHooks (store w))) hs w1)"
    and r: "r = Inr out" using assms(1) g by (simp_all add: memGetMany_def)
  have "out = (\<lambda>k. if k \<in> set ks then ?f k else None)" unfolding spec(1) by (auto simp: fun_eq_iff)
  with r w' spec fold_hook_obs [OF spec(5)] show ?thesis by simp
qed

section \<open>What the phases compute\<close>

lemma decodePhase_result:
  "fst (decodePhase cx c codec cfg raw ks result missing w) =
     ((\<lambda>k. if k \<in> set ks \<and> cachedValue codec cfg (raw k) \<noteq> None then cachedValue codec cfg (raw k) else result k),
      missing @ filter (\<lambda>k. unreadable codec cfg (raw k)) ks)"
proof (induction ks arbitrary: result missing w)
  case (Cons k ks)
  show ?case
  proof (cases "raw k")
    case None
    then show ?thesis by (simp add: Cons.IH unreadable_def fun_eq_iff)
  next
    case (Some data)
    show ?thesis
    proof (cases "isNegativeEntry data")
      case True
      with Some show ?thesis by (simp add: Cons.IH unreadable_def cachedValue_def fun_eq_iff)
    next
      case False
      with Some show ?thesis
        by (cases "Unmarshal codec (snd (parseStored cfg data))")
          (auto simp: Cons.IH unreadable_def cachedValue_def fun_eq_iff)
    qed
  qed
qed (simp add: fun_eq_iff)

lemma packPhase_result:
  "pkResult (fst (packPhase codec cfg ttl d loaded ks pk w)) =
     (\<lambda>k. if k \<in> set ks \<and> loaded k \<noteq> None then loaded k else pkResult pk k)"
proof (induction ks arbitrary: pk w)
  case (Cons k ks)
  then show ?case
    by (cases "loaded k") (auto simp: fun_eq_iff Let_def split: sum.splits prod.splits)
qed simp

lemma packPhase_pkResult:
  "packPhase codec cfg ttl d loaded ks pk w = (pk', w') \<Longrightarrow>
   pkResult pk' = (\<lambda>k. if k \<in> set ks \<and> loaded k \<noteq> None then loaded k else pkResult pk k)"
  using packPhase_result [of codec cfg ttl d loaded ks pk w] by simp

lemma filter_nil_unreadable: "filter P ks = [] \<Longrightarrow> k \<in> set ks \<Longrightarrow> \<not> P k"
  by (induction ks) (auto split: if_splits)

text \<open>The outcome of a batch call as a function of what its read phase found.\<close>

definition batchOutcome :: "'v Codec \<Rightarrow> 'h cacheConfig \<Rightarrow> key list \<Rightarrow> (key list \<Rightarrow> (key \<rightharpoonup> 'v) outcome) \<Rightarrow>
    (key \<rightharpoonup> bytes) \<Rightarrow> (key \<rightharpoonup> 'v) outcome" where
  "batchOutcome codec cfg keys load raw =
     (let cached = (\<lambda>k. if k \<in> set keys then cachedValue codec cfg (raw k) else None);
          missing = filter (\<lambda>k. unreadable codec cfg (raw k)) (dedupFrom [] keys)
      in if missing = [] then Ret cached
         else case load missing of
             Ret m \<Rightarrow> Ret (\<lambda>k. if k \<in> set missing then m k else cached k)
           | Err e \<Rightarrow> Err e
           | Panic p \<Rightarrow> Panic p)"

lemma getOrSetMany_outcome:
  assumes "\<forall>cx ks w. fst (loader cx ks w) = load ks"
    and "codec = effectiveCodec dflt co" "cfg = configOf c w"
  shows "fst (getOrSetManyWithCodec dflt cx c keys ttl co loader w)
    = batchOutcome codec cfg keys load (fst (readPhase cx c (dedupFrom [] keys) w))"
proof -
  let ?uniq = "dedupFrom [] keys"
  obtain raw w1 where r: "readPhase cx c ?uniq w = (raw, w1)" by force
  obtain result missing w2 where
    d: "decodePhase cx c codec cfg raw ?uniq Map.empty [] w1 = ((result, missing), w2)" by (metis surj_pair)
  let ?cached = "\<lambda>k. if k \<in> set keys then cachedValue codec cfg (raw k) else None"
  have res: "result = ?cached" "missing = filter (\<lambda>k. unreadable codec cfg (raw k)) ?uniq"
    using decodePhase_result [of cx c codec cfg raw ?uniq Map.empty "[]" w1] d
    by (auto simp: set_dedupFrom fun_eq_iff)
  have codec: "(case co of None \<Rightarrow> dflt | Some x \<Rightarrow> x) = codec" using assms(2) by (simp add: effectiveCodec_def)
  show ?thesis
  proof (cases "missing = []")
    case True
    with r d res codec show ?thesis
      by (simp add: getOrSetManyWithCodec_def batchOutcome_def Let_def assms(3) [symmetric])
  next
    case False
    obtain start w3 where t: "timeNow w2 = (start, w3)" by force
    obtain q w4 where l: "loader cx missing w3 = (q, w4)" by force
    with assms(1) have q: "q = load missing" by (metis fst_conv)
    obtain fin w5 where t4: "timeNow w4 = (fin, w5)" by force
    have k: "?cached k = None" if "k \<in> set missing" for k
      using that res(2) by (simp add: cachedValue_unreadable)
    have m: "(\<lambda>k. if k \<in> set missing \<and> m k \<noteq> None then m k else ?cached k)
        = (\<lambda>k. if k \<in> set missing then m k else ?cached k)" for m
      using k by (auto simp: fun_eq_iff)
    have "fst (getOrSetManyWithCodec dflt cx c keys ttl co loader w) = (case q of
         Ret x \<Rightarrow> Ret (\<lambda>k. if k \<in> set missing \<and> x k \<noteq> None then x k else ?cached k)
       | Err e \<Rightarrow> Err e | Panic p \<Rightarrow> Panic p)"
      unfolding getOrSetManyWithCodec_def Let_def codec assms(3) [symmetric] r
      using False d l t t4 res(1)
      by (cases q) (auto simp: fun_eq_iff dest!: packPhase_pkResult split: prod.splits)
    moreover have "batchOutcome codec cfg keys load raw = (case load missing of
         Ret x \<Rightarrow> Ret (\<lambda>k. if k \<in> set missing then x k else ?cached k)
       | Err e \<Rightarrow> Err e | Panic p \<Rightarrow> Panic p)"
      unfolding batchOutcome_def Let_def res(2) [symmetric] using False by simp
    ultimately show ?thesis unfolding q m using r by simp
  qed
qed

section \<open>What gets stored\<close>

text \<open>The TTL \<open>packForStore\<close> asks for when jitter is off.\<close>

definition packTTL :: "'h cacheConfig \<Rightarrow> duration \<Rightarrow> duration" where
  "packTTL cfg ttl = (if \<not> envelopeEnabled cfg then ttl
     else let fresh = (if sint ttl \<le> 0 then defaultTTL cfg else ttl) in
       if 0 < sint fresh then fresh + staleTTL cfg else 0)"

lemma packForStore_packTTL:
  "packForStore p ttl d cfg w = ((data, st), w') \<Longrightarrow> ttlJitter cfg \<le> 0 \<Longrightarrow> st = packTTL cfg ttl"
  by (auto simp: packForStore_def packTTL_def Let_def split: if_splits prod.splits)

text \<open>The bytes the batch stores for a loaded key.\<close>

definition packedFor :: "'v Codec \<Rightarrow> 'h cacheConfig \<Rightarrow> 'v option \<Rightarrow> bytes \<Rightarrow> bool" where
  "packedFor codec cfg v data \<longleftrightarrow> (\<exists>x p. v = Some x \<and> Marshal codec x = Inr p
     \<and> snd (parseStored cfg data) = p \<and> (envelopeEnabled cfg \<or> \<not> isNegativeEntry p \<longrightarrow> \<not> isNegativeEntry data))"

definition encodable :: "'v Codec \<Rightarrow> 'v option \<Rightarrow> bool" where
  "encodable codec v \<longleftrightarrow> (\<exists>x p. v = Some x \<and> Marshal codec x = Inr p)"

lemma packPhase_cons:
  assumes "packPhase codec cfg ttl d loaded (k # ks) pk w = (pk', w')"
  obtains pk1 w1 where "packPhase codec cfg ttl d loaded ks pk1 w1 = (pk', w')" "advances w w1" "store w1 = store w"
    "pkNegs pk1 = (if loaded k = None \<and> pos64 (negativeTTL cfg)
       then AList.update k negativeMarker (pkNegs pk) else pkNegs pk)"
    "if encodable codec (loaded k)
     then \<exists>data. packedFor codec cfg (loaded k) data \<and> pkVals pk1 = AList.update k data (pkVals pk)
       \<and> (ttlJitter cfg \<le> 0 \<longrightarrow> pkTTL pk1 = packTTL cfg ttl)
     else pkVals pk1 = pkVals pk \<and> pkTTL pk1 = pkTTL pk"
proof (cases "loaded k")
  case None
  show ?thesis
    by (rule that [of "if pos64 (negativeTTL cfg) then pk\<lparr>pkNegs := AList.update k negativeMarker (pkNegs pk)\<rparr> else pk" w])
      (use assms None in \<open>simp_all add: encodable_def\<close>)
next
  case (Some v)
  show ?thesis
  proof (cases "Marshal codec v")
    case (Inl e)
    show ?thesis
      by (rule that [of "pk\<lparr>pkResult := (pkResult pk)(k \<mapsto> v)\<rparr>" "hookError (hooks cfg) OpEncode k e w"])
        (use assms Some Inl in \<open>simp_all add: encodable_def\<close>)
  next
    case (Inr p)
    obtain data st w1 where pf: "packForStore p ttl d cfg w = ((data, st), w1)" by (metis surj_pair)
    have "packedFor codec cfg (loaded k) data"
      using Some Inr packForStore_payload [OF pf] packForStore_not_negative [OF pf]
      by (auto simp: packedFor_def)
    with assms Some Inr pf packForStore_frame [OF pf] packForStore_packTTL [OF pf] show ?thesis
      by (intro that [of "pk\<lparr>pkResult := (pkResult pk)(k \<mapsto> v), pkTTL := st,
          pkVals := AList.update k data (pkVals pk)\<rparr>" w1]) (auto simp: encodable_def)
  qed
qed

lemma packPhase_frame:
  "packPhase codec cfg ttl d loaded ks pk w = (pk', w') \<Longrightarrow> advances w w' \<and> store w' = store w"
proof (induction ks arbitrary: pk w)
  case (Cons k ks)
  from Cons.prems show ?case
    by (rule packPhase_cons) (use Cons.IH in \<open>auto intro: advances_trans\<close>)
qed simp

lemma packPhase_negs:
  "packPhase codec cfg ttl d loaded ks pk w = (pk', w') \<Longrightarrow>
   map_of (pkNegs pk') k = (if k \<in> set ks \<and> loaded k = None \<and> pos64 (negativeTTL cfg)
     then Some negativeMarker else map_of (pkNegs pk) k)
   \<and> (distinct (map fst (pkNegs pk)) \<longrightarrow> distinct (map fst (pkNegs pk')))"
proof (induction ks arbitrary: pk w)
  case (Cons x ks)
  from Cons.prems show ?case
    by (rule packPhase_cons)
      (use Cons.IH in \<open>auto simp: update_conv distinct_update split: if_splits\<close>)
qed simp

lemma packPhase_vals:
  "packPhase codec cfg ttl d loaded ks pk w = (pk', w') \<Longrightarrow>
   (if k \<in> set ks \<and> encodable codec (loaded k)
    then \<exists>data. map_of (pkVals pk') k = Some data \<and> packedFor codec cfg (loaded k) data
    else map_of (pkVals pk') k = map_of (pkVals pk) k)
   \<and> (distinct (map fst (pkVals pk)) \<longrightarrow> distinct (map fst (pkVals pk')))"
proof (induction ks arbitrary: pk w)
  case (Cons x ks)
  from Cons.prems show ?case
  proof (rule packPhase_cons)
    fix pk1 w1
    assume "packPhase codec cfg ttl d loaded ks pk1 w1 = (pk', w')"
      and v: "if encodable codec (loaded x)
        then \<exists>data. packedFor codec cfg (loaded x) data \<and> pkVals pk1 = AList.update x data (pkVals pk)
          \<and> (ttlJitter cfg \<le> 0 \<longrightarrow> pkTTL pk1 = packTTL cfg ttl)
        else pkVals pk1 = pkVals pk \<and> pkTTL pk1 = pkTTL pk"
    note IH = Cons.IH [OF this(1)]
    show ?thesis
    proof (cases "encodable codec (loaded x)")
      case True
      with v obtain data where "packedFor codec cfg (loaded x) data"
        "pkVals pk1 = AList.update x data (pkVals pk)" by auto
      with IH True show ?thesis by (auto simp: update_conv distinct_update split: if_splits)
    next
      case False
      with IH v show ?thesis by auto
    qed
  qed
qed simp

lemma packPhase_ttl:
  "packPhase codec cfg ttl d loaded ks pk w = (pk', w') \<Longrightarrow> ttlJitter cfg \<le> 0 \<Longrightarrow>
   pkTTL pk' = (if \<exists>k\<in>set ks. encodable codec (loaded k) then packTTL cfg ttl else pkTTL pk)"
proof (induction ks arbitrary: pk w)
  case (Cons x ks)
  from Cons.prems(1) show ?case
    by (rule packPhase_cons) (use Cons.IH Cons.prems(2) in \<open>auto split: if_splits\<close>)
qed simp

section \<open>Batch writes to the memory cache\<close>

lemma memPuts_view:
  assumes "distinct (map fst xs)"
  shows "(case map_of xs k of
      None \<Rightarrow> \<forall>t. memView (store (fold (\<lambda>(k, v). memPut k v ttl) xs w)) t k = memView (store w) t k
    | Some v \<Rightarrow> \<exists>wi. advances w wi \<and> memFixed (store wi) = memFixed (store w)
        \<and> (\<forall>t. memView (store (fold (\<lambda>(k, v). memPut k v ttl) xs w)) t k =
             (if livesUntil (memExpiry v ttl wi) t then Some v else None)))"
  using assms
proof (induction xs arbitrary: w)
  case (Cons x xs)
  obtain k' v' where x: "x = (k', v')" by force
  let ?w1 = "memPut k' v' ttl w"
  note fr = memPut_frame [of w k' v' ttl]
  have IH: "case map_of xs k of
      None \<Rightarrow> \<forall>t. memView (store (fold (\<lambda>(k, v). memPut k v ttl) xs ?w1)) t k = memView (store ?w1) t k
    | Some v \<Rightarrow> \<exists>wi. advances ?w1 wi \<and> memFixed (store wi) = memFixed (store ?w1)
        \<and> (\<forall>t. memView (store (fold (\<lambda>(k, v). memPut k v ttl) xs ?w1)) t k =
             (if livesUntil (memExpiry v ttl wi) t then Some v else None))"
    using Cons by simp
  show ?case
  proof (cases "k = k'")
    case True
    with Cons.prems x have "map_of xs k = None" by (simp add: map_of_eq_None_iff)
    with IH True x show ?thesis by (auto simp: memPut_view intro!: exI [of _ w])
  next
    case False
    with IH x fr show ?thesis
      by (cases "map_of xs k") (auto simp: memPut_view intro: advances_trans)
  qed
qed simp

lemma memPuts_frame:
  "advances w (fold (\<lambda>(k, v). memPut k v ttl) xs w)
   \<and> memFixed (store (fold (\<lambda>(k, v). memPut k v ttl) xs w)) = memFixed (store w)
   \<and> obs (fold (\<lambda>(k, v). memPut k v ttl) xs w) = obs w"
proof (induction xs arbitrary: w)
  case (Cons x xs)
  obtain k v where x: "x = (k, v)" by force
  show ?case using Cons [of "memPut k v ttl w"] memPut_frame [of w k v ttl] x
    by (auto intro: advances_trans)
qed simp

lemma memSetMany_view:
  assumes "memSetMany cx kvs ttl w = (q, w')" "wfRuntime (rt w)" "distinct (map fst kvs)"
  shows "case map_of kvs k of
      None \<Rightarrow> \<forall>t. memView (store w') t k = memView (store w) t k
    | Some v \<Rightarrow> \<exists>wi. advances w wi \<and> memFixed (store wi) = memFixed (store w)
        \<and> (\<forall>t. memView (store w') t k = (if livesUntil (memExpiry v ttl wi) t then Some v else None))"
proof -
  obtain xs w1 where r: "rangeItems kvs w = (xs, w1)" by force
  note fr = rangeItems_frame [OF r]
  have m: "mset xs = mset kvs" using mset_rangeItems [OF assms(2,3) r] .
  then have d: "distinct (map fst xs)" using assms(3) by (metis mset_map mset_eq_imp_distinct_iff)
  have eq: "map_of xs = map_of kvs"
    using m d assms(3) by (simp add: map_of_inject_set) (metis mset_eq_setD)
  have w': "w' = fold (\<lambda>(k, v). memPut k v ttl) xs w1" using assms(1) r by (simp add: memSetMany_def)
  show ?thesis
    using memPuts_view [OF d, where k = k and ttl = ttl and w = w1] fr unfolding eq w'
    by (cases "map_of kvs k") (auto intro: advances_trans)
qed

lemma memSetMany_frame [world_frame]:
  assumes "memSetMany cx kvs ttl w = (q, w')"
  shows "q = None \<and> advances w w' \<and> memFixed (store w') = memFixed (store w) \<and> obs w' = obs w"
proof -
  obtain xs w1 where r: "rangeItems kvs w = (xs, w1)" by force
  have w': "w' = fold (\<lambda>(k, v). memPut k v ttl) xs w1" "q = None"
    using assms r by (simp_all add: memSetMany_def)
  show ?thesis
    using memPuts_frame [of w1 ttl xs] rangeItems_frame [OF r] unfolding w'(1) using w'(2)
    by (auto intro: advances_trans)
qed

interpretation memb: batch_cache "memoryCache p" memView memExpiry "\<lparr>bGetMany = memGetMany, bSetMany = memSetMany\<rparr>"
  "\<lambda>w n. clock (rt w) (reads w + n)" 0 for p
proof (unfold_locales, goal_cases)
  case (2 w n m)
  then have "mono (clock (rt w))" by (simp add: wfRuntime_def)
  from monoD [OF this] 2(2) show ?case by (simp add: now_def)
next
  case (3 cx ks w r w')
  then have "memGetMany cx ks w = (r, w')" by simp
  from memGetMany_spec [OF this 3(2,4)] show ?case by (auto dest: memFixed_fields(3))
next
  case (4 cx kvs ttl w q w')
  then show ?case by (auto dest!: memSetMany_frame memFixed_fields(3))
next
  case (5 cx kvs ttl w q w' k)
  then have "memSetMany cx kvs ttl w = (q, w')" by simp
  note v = memSetMany_view [OF this 5(2,3), of k]
  show ?case
  proof (cases "map_of kvs k")
    case (Some x)
    with v obtain wi where wi: "advances w wi" "memFixed (store wi) = memFixed (store w)"
      "\<forall>t. memView (store w') t k = (if livesUntil (memExpiry x ttl wi) t then Some x else None)" by auto
    have "now w \<le> now wi" using 5(2) wi(1) by (rule now_mono)
    moreover have "memConfig (store wi) = memConfig (store w)" using memFixed_fields(3) [OF wi(2)] .
    then have "mcTTLJitter (store wi) = ttlJitter (memConfig (store w))" "mcDefaultTTL (store wi) = defaultTTL (memConfig (store w))"
      by (auto simp: memConfig_def)
    ultimately have "keptFor 0 (memConfig (store w)) ttl (now w) (memExpiry x ttl wi)"
      using memExpiry_plain [of wi x "ttlOr (memConfig (store w)) ttl" ttl]
      by (auto simp: keptFor_def livesUntil_def)
    with wi(3) Some show ?thesis by auto
  qed (use v in simp)
qed simp

section \<open>A batch call, end to end\<close>

lemma length_dedupFrom: "length (dedupFrom seen ks) \<le> length ks"
  by (induction seen ks rule: dedupFrom.induct) auto

text \<open>A batch loader that computes \<open>load\<close> and leaves the store alone.\<close>

definition loadsMany :: "('v, 's, 'h) manyLoader \<Rightarrow> (key list \<Rightarrow> (key \<rightharpoonup> 'v) outcome) \<Rightarrow> bool" where
  "loadsMany loader load \<longleftrightarrow> (\<forall>cx ks w. fst (loader cx ks w) = load ks
     \<and> advances w (snd (loader cx ks w)) \<and> store (snd (loader cx ks w)) = store w)"

text \<open>No entry of the batch lapses while a call reads it.\<close>

definition steady :: "(('c, 'h) MemoryCache, 'h) world \<Rightarrow> key list \<Rightarrow> bool" where
  "steady w keys \<longleftrightarrow> (\<forall>k\<in>set keys.
     memView (store w) (clock (rt w) (reads w + length keys)) k = memView (store w) (now w) k)"

context batch_cache begin

lemma view_between:
  assumes "view s t0 k = x" "view s T k = x" "t0 \<le> t" "t \<le> T"
  shows "view s t k = x"
proof (cases x)
  case None
  with assms(1) view_lapse [OF assms(3), of s k] show ?thesis by (cases "view s t k") auto
next
  case (Some v)
  with assms(2) have "view s T k = Some v" by simp
  from view_lapse [OF assms(4) this] Some show ?thesis by simp
qed

lemma readPhase_batch:
  assumes "wfRuntime (rt w)" "\<forall>k\<in>set keys. view (store w) (horizon w (length keys)) k = view (store w) (now w) k"
  obtains w1 where "readPhase cx c (dedupFrom [] keys) w = ((\<lambda>k. if k \<in> set keys then view (store w) (now w) k else None), w1)"
    "advances w w1" "configOf c w1 = configOf c w" "\<forall>t k. now w1 \<le> t \<longrightarrow> view (store w1) t k = view (store w) t k"
proof -
  let ?uniq = "dedupFrom [] keys"
  obtain r w1 where g: "bGetMany bc cx ?uniq w = (r, w1)" by force
  note h = horizon_mono [OF assms(1) length_dedupFrom [of "[]" keys]]
  have "\<forall>k\<in>set ?uniq. view (store w) (horizon w (length ?uniq)) k = view (store w) (now w) k"
  proof
    fix k assume "k \<in> set ?uniq"
    then have late: "view (store w) (horizon w (length keys)) k = view (store w) (now w) k"
      using assms(2) by (simp add: set_dedupFrom)
    show "view (store w) (horizon w (length ?uniq)) k = view (store w) (now w) k"
      by (rule view_between [OF refl late h [THEN conjunct1] h [THEN conjunct2]])
  qed
  note spec = getMany_result [OF g assms(1) distinct_dedupFrom this]
  have "readPhase cx c ?uniq w = ((\<lambda>k. if k \<in> set keys then view (store w) (now w) k else None), w1)"
    using spec [THEN conjunct1] g batched by (simp add: readPhase_def set_dedupFrom)
  with spec show ?thesis by (intro that) blast+
qed

text \<open>Both writes of the batch: values, then negative entries.\<close>

lemma writePhase_frame:
  assumes "writePhase wctx c cfg pk w = w'"
  shows "advances w w' \<and> configOf c w' = configOf c w"
proof -
  obtain q1 w1 where s1: "bSetMany bc wctx (pkVals pk) (pkTTL pk) w = (q1, w1)" by force
  obtain q2 w2 where s2: "bSetMany bc wctx (pkNegs pk) (negativeTTL cfg) w1 = (q2, w2)" by force
  show ?thesis
    using assms s1 s2 batched setMany_frame [OF s1] setMany_frame [OF s2]
    by (auto simp: writePhase_def intro: advances_trans)
qed

lemma writePhase_view:
  assumes "writePhase wctx c cfg pk w = w'" "wfRuntime (rt w)" "cfg = configOf c w"
    and "distinct (map fst (pkVals pk))" "distinct (map fst (pkNegs pk))"
  shows "case map_of (pkNegs pk) k of
      Some v \<Rightarrow> \<exists>u. (\<forall>t. view (store w') t k = (if livesUntil u t then Some v else None))
        \<and> keptFor grace cfg (negativeTTL cfg) (now w) u
    | None \<Rightarrow> (case map_of (pkVals pk) k of
        Some v \<Rightarrow> \<exists>u. (\<forall>t. view (store w') t k = (if livesUntil u t then Some v else None))
          \<and> keptFor grace cfg (pkTTL pk) (now w) u
      | None \<Rightarrow> \<forall>t. view (store w') t k = view (store w) t k)"
proof -
  obtain q1 w1 where s1: "bSetMany bc wctx (pkVals pk) (pkTTL pk) w = (q1, w1)" by force
  obtain q2 w2 where s2: "bSetMany bc wctx (pkNegs pk) (negativeTTL cfg) w1 = (q2, w2)" by force
  have w': "w' = w2" using assms(1) s1 s2 batched by (simp add: writePhase_def)
  note fr = setMany_frame [OF s1]
  have wf1: "wfRuntime (rt w1)" and le: "now w \<le> now w1" using assms(2) fr by (auto dest: advances_rt intro: now_mono)
  note v1 = setMany_view [OF s1 assms(2,4), of k] and v2 = setMany_view [OF s2 wf1 assms(5), of k]
  show ?thesis
  proof (cases "map_of (pkNegs pk) k")
    case (Some v)
    with v2 fr assms(3) obtain u where u: "\<forall>t. view (store w2) t k = (if livesUntil u t then Some v else None)"
      "keptFor grace cfg (negativeTTL cfg) (now w1) u" by auto
    then have "keptFor grace cfg (negativeTTL cfg) (now w) u" using le by (auto simp: keptFor_def)
    with u(1) Some w' show ?thesis by auto
  next
    case None
    with v1 v2 assms(3) show ?thesis unfolding w' by (auto split: option.splits)
  qed
qed

end

lemma keptFor_packTTL:
  assumes "keptFor grace cfg (packTTL cfg ttl) t0 u" "t1 \<le> t0" "0 \<le> t1" "ttlJitter cfg \<le> 0" "eff = ttlOr cfg ttl"
    and "0 \<le> sint (staleTTL cfg)" "sint eff + sint (staleTTL cfg) < 2 ^ 63" "0 < sint eff" "t < t1 + sint eff - grace"
  shows "livesUntil u t"
proof -
  have "sint eff \<le> sint (ttlOr cfg (packTTL cfg ttl))"
  proof (cases "envelopeEnabled cfg")
    case True
    then have st: "packTTL cfg ttl = eff + staleTTL cfg" using assms(5,8) by (simp add: packTTL_def)
    have "sint (packTTL cfg ttl) = sint eff + sint (staleTTL cfg)"
      unfolding st using assms(6-8) by (intro sint64_add) auto
    with assms(6,8) show ?thesis by simp
  next
    case False
    then show ?thesis using assms(5) by (simp add: packTTL_def)
  qed
  with assms(1-4,8,9) show ?thesis by (simp add: keptFor_def)
qed

context reliable_cache begin

lemma decodePhase_frame:
  "decodePhase cx c codec cfg raw ks result missing w = (r, w') \<Longrightarrow>
   advances w w' \<and> configOf c w' = configOf c w
   \<and> (\<forall>t k. \<not> unreadable codec cfg (raw k) \<longrightarrow> view (store w') t k = view (store w) t k)"
proof (induction ks arbitrary: result missing w)
  case (Cons k ks)
  show ?case
  proof (cases "unreadable codec cfg (raw k) \<and> raw k \<noteq> None")
    case True
    then obtain data e where d: "raw k = Some data" "\<not> isNegativeEntry data"
      "Unmarshal codec (snd (parseStored cfg data)) = Inl e" by (auto simp: unreadable_def split: option.splits)
    let ?w0 = "hookError (hooks cfg) OpDecode k e w"
    obtain q w1 where del: "cDelete c cx k ?w0 = (q, w1)" by force
    have w0: "advances w ?w0" "configOf c ?w0 = configOf c w" using configOf_cong [of ?w0 w c] by simp_all
    from Cons.prems d del
    have "decodePhase cx c codec cfg raw ks result (missing @ [k]) w1 = (r, w')" by simp
    note IH = Cons.IH [OF this]
    have "view (store w1) t k' = view (store w) t k'" if "\<not> unreadable codec cfg (raw k')" for t k'
      using delete_other [OF del, of k' t] that True by auto
    with IH w0 delete_advances [OF del] delete_config [OF del] show ?thesis by (auto intro: advances_trans)
  next
    case False
    with Cons show ?thesis by (auto simp: unreadable_def split: option.splits if_splits sum.splits)
  qed
qed simp

end

lemma batch_all_cached:
  assumes "codec = effectiveCodec dflt co" "cfg = configOf c w"
    and "readPhase cx c (dedupFrom [] keys) w = (raw, w1)"
    and "\<forall>k\<in>set keys. \<not> unreadable codec cfg (raw k)"
  shows "fst (getOrSetManyWithCodec dflt cx c keys ttl co loader w)
    = Ret (\<lambda>k. if k \<in> set keys then cachedValue codec cfg (raw k) else None)"
proof -
  let ?uniq = "dedupFrom [] keys"
  obtain result missing w2 where
    d: "decodePhase cx c codec cfg raw ?uniq Map.empty [] w1 = ((result, missing), w2)" by (metis surj_pair)
  have res: "result = (\<lambda>k. if k \<in> set keys then cachedValue codec cfg (raw k) else None)" "missing = []"
    using decodePhase_result [of cx c codec cfg raw ?uniq Map.empty "[]" w1] d assms(4)
    by (auto simp: set_dedupFrom fun_eq_iff filter_empty_conv)
  have codec: "(case co of None \<Rightarrow> dflt | Some x \<Rightarrow> x) = codec" using assms(1) by (simp add: effectiveCodec_def)
  show ?thesis
    unfolding getOrSetManyWithCodec_def Let_def codec assms(2) [symmetric] assms(3) using d res by simp
qed

lemma batchOutcome_cong:
  assumes "\<forall>k\<in>set keys. raw k = raw' k"
  shows "batchOutcome codec cfg keys load raw = batchOutcome codec cfg keys load raw'"
proof -
  have "(\<lambda>k. if k \<in> set keys then cachedValue codec cfg (raw k) else None)
      = (\<lambda>k. if k \<in> set keys then cachedValue codec cfg (raw' k) else None)"
    using assms by (auto simp: fun_eq_iff)
  moreover have "filter (\<lambda>k. unreadable codec cfg (raw k)) (dedupFrom [] keys)
      = filter (\<lambda>k. unreadable codec cfg (raw' k)) (dedupFrom [] keys)"
    using assms by (intro filter_cong) (auto simp: set_dedupFrom)
  ultimately show ?thesis unfolding batchOutcome_def by (simp only:)
qed

context batch_cache begin

lemma batch_reads:
  assumes "\<forall>cx ks w. fst (loader cx ks w) = load ks" "codec = effectiveCodec dflt co" "cfg = configOf c w" "wfRuntime (rt w)"
    and "\<forall>k\<in>set keys. view (store w) (horizon w (length keys)) k = view (store w) (now w) k"
  shows "fst (getOrSetManyWithCodec dflt cx c keys ttl co loader w) = batchOutcome codec cfg keys load (view (store w) (now w))"
proof -
  obtain w1 where r: "readPhase cx c (dedupFrom [] keys) w
      = ((\<lambda>k. if k \<in> set keys then view (store w) (now w) k else None), w1)"
    by (rule readPhase_batch [where cx = cx, OF assms(4,5)])
  show ?thesis
    unfolding getOrSetMany_outcome [OF assms(1-3)] r fst_conv by (rule batchOutcome_cong) simp
qed

end

context batch_cache begin

text \<open>A call that loads, up to its writes.\<close>

lemma batch_reaches_writes:
  assumes "cfg = configOf c w" "codec = effectiveCodec dflt co" "wfRuntime (rt w)"
    and "\<forall>k\<in>set keys. view (store w) (horizon w (length keys)) k = view (store w) (now w) k"
    and "missing = filter (\<lambda>k. unreadable codec cfg (view (store w) (now w) k)) (dedupFrom [] keys)"
    and "missing \<noteq> []" "loadsMany loader load" "load missing = Ret m"
  obtains result d w5 pk w6 where
    "getOrSetManyWithCodec dflt cx c keys ttl co loader w
      = (Ret (pkResult pk), writePhase (withoutCancel cx) c cfg pk w6)"
    "packPhase codec cfg ttl d m missing \<lparr>pkResult = result, pkVals = [], pkNegs = [], pkTTL = ttl\<rparr> w5 = (pk, w6)"
    "advances w w6" "configOf c w6 = configOf c w"
    "\<forall>t k. now w6 \<le> t \<longrightarrow> k \<in> set keys \<longrightarrow> k \<notin> set missing \<longrightarrow> view (store w6) t k = view (store w) t k"
proof -
  let ?uniq = "dedupFrom [] keys"
  let ?raw = "\<lambda>k. if k \<in> set keys then view (store w) (now w) k else None"
  obtain w1 where r: "readPhase cx c ?uniq w = (?raw, w1)" and adv1: "advances w w1"
    and fx1: "configOf c w1 = configOf c w"
    and vw1: "\<forall>t k. now w1 \<le> t \<longrightarrow> view (store w1) t k = view (store w) t k"
    by (rule readPhase_batch [where cx = cx, OF assms(3,4)])
  obtain result ms w2 where
    d: "decodePhase cx c codec cfg ?raw ?uniq Map.empty [] w1 = ((result, ms), w2)"
    by (cases "decodePhase cx c codec cfg ?raw ?uniq Map.empty [] w1") force
  have "ms = filter (\<lambda>k. unreadable codec cfg (?raw k)) ?uniq"
    using decodePhase_result [of cx c codec cfg ?raw ?uniq Map.empty "[]" w1] d by simp
  also have "\<dots> = missing" unfolding assms(5) by (intro filter_cong) (auto simp: set_dedupFrom)
  finally have ms: "ms = missing" .
  note dfr = decodePhase_frame [OF d]
  obtain start w3 where t3: "timeNow w2 = (start, w3)" by force
  obtain q w4 where l: "loader cx missing w3 = (q, w4)" by force
  have q: "q = Ret m" "advances w3 w4" "store w4 = store w3"
    using assms(7,8) l unfolding loadsMany_def by (metis fst_conv snd_conv)+
  obtain fin w5 where t5: "timeNow w4 = (fin, w5)" by force
  let ?w5 = "fold (\<lambda>k. hookLoad (hooks cfg) k (tSub fin start) None) missing w5"
  obtain pk w6 where pk: "packPhase codec cfg ttl (tSub fin start) m missing
      \<lparr>pkResult = result, pkVals = [], pkNegs = [], pkTTL = ttl\<rparr> ?w5 = (pk, w6)" by force
  note pfr = packPhase_frame [OF pk]
  have st: "store w6 = store w2" using pfr timeNow_frame [OF t3] timeNow_frame [OF t5] q(3) by simp
  have adv26: "advances w2 w6"
    using pfr timeNow_frame [OF t3] timeNow_frame [OF t5] q(2) by (auto intro: advances_trans)
  have adv: "advances w w6" using adv1 dfr adv26 by (blast intro: advances_trans)
  have codec: "(case co of None \<Rightarrow> dflt | Some x \<Rightarrow> x) = codec" using assms(2) by (simp add: effectiveCodec_def)
  have "getOrSetManyWithCodec dflt cx c keys ttl co loader w
      = (Ret (pkResult pk), writePhase (withoutCancel cx) c cfg pk w6)"
    unfolding getOrSetManyWithCodec_def Let_def codec assms(1) [symmetric] r
    using d t3 l q(1) t5 pk ms assms(6) by simp
  moreover have "view (store w6) t k = view (store w) t k"
    if "now w6 \<le> t" "k \<in> set keys" "k \<notin> set missing" for t k
  proof -
    have wf1: "wfRuntime (rt w1)" using assms(3) adv1 by (simp add: advances_def)
    have "now w1 \<le> now w6" using dfr adv26 by (auto intro: now_mono [OF wf1] advances_trans)
    moreover have "\<not> unreadable codec cfg (?raw k)" using that(2,3) assms(5) by (auto simp: set_dedupFrom)
    ultimately show ?thesis using st dfr vw1 that(1) by simp
  qed
  moreover have "configOf c w6 = configOf c w" using configOf_cong [OF st, of c] dfr fx1 by simp
  ultimately show ?thesis using pk adv by (intro that [OF _ pk adv]) blast+
qed

text \<open>What a loading call leaves in the cache.\<close>

lemma batch_stored:
  assumes "cfg = configOf c w" "codec = effectiveCodec dflt co" "wfRuntime (rt w)"
    and "\<forall>k\<in>set keys. view (store w) (horizon w (length keys)) k = view (store w) (now w) k"
    and "missing = filter (\<lambda>k. unreadable codec cfg (view (store w) (now w) k)) (dedupFrom [] keys)"
    and "missing \<noteq> []" "loadsMany loader load" "load missing = Ret m"
    and "ttlJitter cfg \<le> 0" "0 \<le> now w" "eff = ttlOr cfg ttl"
    and "0 \<le> sint (staleTTL cfg)" "sint eff + sint (staleTTL cfg) < 2 ^ 63"
    and "0 < sint eff" "getOrSetManyWithCodec dflt cx c keys ttl co loader w = (res, w')"
  shows "configOf c w' = cfg \<and> advances w w' \<and> (\<forall>k\<in>set keys.
     if k \<notin> set missing then \<forall>t. now w' \<le> t \<longrightarrow> view (store w') t k = view (store w) t k
     else if encodable codec (m k)
     then \<exists>data. packedFor codec cfg (m k) data
       \<and> (\<forall>t. t < now w + sint eff - grace \<longrightarrow> view (store w') t k = Some data)
     else m k = None \<longrightarrow> 0 < sint (negativeTTL cfg) \<longrightarrow>
       (\<forall>t. t < now w + sint (negativeTTL cfg) - grace \<longrightarrow> view (store w') t k = Some negativeMarker))"
proof -
  obtain result d w5 pk w6 where
    g: "getOrSetManyWithCodec dflt cx c keys ttl co loader w
      = (Ret (pkResult pk), writePhase (withoutCancel cx) c cfg pk w6)"
    and pk: "packPhase codec cfg ttl d m missing
      \<lparr>pkResult = result, pkVals = [], pkNegs = [], pkTTL = ttl\<rparr> w5 = (pk, w6)"
    and adv: "advances w w6" and fx: "configOf c w6 = configOf c w"
    and vw: "\<forall>t k. now w6 \<le> t \<longrightarrow> k \<in> set keys \<longrightarrow> k \<notin> set missing \<longrightarrow>
      view (store w6) t k = view (store w) t k"
    by (rule batch_reaches_writes [where cx = cx and ttl = ttl, OF assms(1-8)])
  have wf6: "wfRuntime (rt w6)" using assms(3) adv by (simp add: advances_def)
  note negs = packPhase_negs [OF pk] and vals = packPhase_vals [OF pk]
  have w': "writePhase (withoutCancel cx) c cfg pk w6 = w'" using g assms(15) by simp
  have dist: "distinct (map fst (pkVals pk))" "distinct (map fst (pkNegs pk))" using negs vals by auto
  have cfg6: "cfg = configOf c w6" using fx assms(1) by simp
  note wp = writePhase_view [OF w' wf6 cfg6 dist]
  note wpf = writePhase_frame [OF w']
  have le: "now w6 \<le> now w'" using wf6 wpf by (auto intro: now_mono)
  have cfg': "configOf c w' = cfg" using wpf cfg6 by simp
  have le6: "now w \<le> now w6" using adv by (rule now_mono [OF assms(3)])
  have ttl: "pkTTL pk = packTTL cfg ttl" if "k \<in> set missing" "encodable codec (m k)" for k
    using packPhase_ttl [OF pk assms(9)] that by auto
  have live: "livesUntil u t"
    if "keptFor grace cfg (packTTL cfg ttl) (now w6) u" "t < now w + sint eff - grace" for u t
    by (rule keptFor_packTTL [OF that(1) le6 assms(10,9,11-14) that(2)])
  have neglive: "livesUntil u t"
    if "keptFor grace cfg (negativeTTL cfg) (now w6) u" "t < now w + sint (negativeTTL cfg) - grace" "0 < sint (negativeTTL cfg)" for u t
    using that le6 assms(9,10) by (simp add: keptFor_def)
  have "if k \<notin> set missing then \<forall>t. now w' \<le> t \<longrightarrow> view (store w') t k = view (store w) t k
     else if encodable codec (m k)
     then \<exists>data. packedFor codec cfg (m k) data
       \<and> (\<forall>t. t < now w + sint eff - grace \<longrightarrow> view (store w') t k = Some data)
     else m k = None \<longrightarrow> 0 < sint (negativeTTL cfg) \<longrightarrow>
       (\<forall>t. t < now w + sint (negativeTTL cfg) - grace \<longrightarrow> view (store w') t k = Some negativeMarker)"
    if k: "k \<in> set keys" for k
  proof (cases "k \<in> set missing")
    case False
    with negs [of k] vals [of k] wp [of k] vw le k show ?thesis by auto
  next
    case True
    show ?thesis
    proof (cases "encodable codec (m k)")
      case enc: True
      then have "map_of (pkNegs pk) k = None" using negs [of k] by (auto simp: encodable_def)
      moreover obtain data where "map_of (pkVals pk) k = Some data" "packedFor codec cfg (m k) data"
        using vals [of k] True enc by auto
      ultimately show ?thesis
        using wp [of k] live True enc ttl by auto
    next
      case enc: False
      with True wp [of k] negs [of k] neglive show ?thesis by auto
    qed
  qed
  moreover have "advances w w'" using adv wpf by (blast intro: advances_trans)
  ultimately show ?thesis using cfg' by blast
qed

lemma batch_advances:
  assumes "cfg = configOf c w" "codec = effectiveCodec dflt co" "wfRuntime (rt w)"
    and "\<forall>k\<in>set keys. view (store w) (horizon w (length keys)) k = view (store w) (now w) k"
    and "missing = filter (\<lambda>k. unreadable codec cfg (view (store w) (now w) k)) (dedupFrom [] keys)"
    and "missing \<noteq> []" "loadsMany loader load" "load missing = Ret m"
    and "getOrSetManyWithCodec dflt cx c keys ttl co loader w = (res, w')"
  shows "advances w w'"
proof -
  obtain result d w5 pk w6 where
    g: "getOrSetManyWithCodec dflt cx c keys ttl co loader w
      = (Ret (pkResult pk), writePhase (withoutCancel cx) c cfg pk w6)"
    and "packPhase codec cfg ttl d m missing
      \<lparr>pkResult = result, pkVals = [], pkNegs = [], pkTTL = ttl\<rparr> w5 = (pk, w6)"
    and adv: "advances w w6"
    by (rule batch_reaches_writes [where cx = cx and ttl = ttl, OF assms(1-8)])
  from g assms(9) have "writePhase (withoutCancel cx) c cfg pk w6 = w'" by simp
  from writePhase_frame [OF this] adv show ?thesis by (blast intro: advances_trans)
qed

text \<open>A call for which everything is readable returns what it reads.\<close>

lemma batch_hits:
  assumes "codec = effectiveCodec dflt co" "cfg = configOf c w" "wfRuntime (rt w)"
    and "\<forall>k\<in>set keys. view (store w) (horizon w (length keys)) k = view (store w) (now w) k"
    and "\<forall>k\<in>set keys. \<not> unreadable codec cfg (view (store w) (now w) k)"
  shows "fst (getOrSetManyWithCodec dflt cx c keys ttl co loader w)
    = Ret (\<lambda>k. if k \<in> set keys then cachedValue codec cfg (view (store w) (now w) k) else None)"
proof -
  obtain w1 where r: "readPhase cx c (dedupFrom [] keys) w
      = ((\<lambda>k. if k \<in> set keys then view (store w) (now w) k else None), w1)"
    by (rule readPhase_batch [where cx = cx, OF assms(3,4)])
  show ?thesis
    using batch_all_cached [OF assms(1,2) r] assms(5) by (simp add: fun_eq_iff cong: if_cong)
qed

text \<open>Within the TTLs of a loading call the cache holds what the call returned.\<close>

lemma batch_kept:
  assumes "cfg = configOf c w" "codec = effectiveCodec dflt co" "wfRuntime (rt w)"
    and "\<forall>k\<in>set keys. view (store w) (horizon w (length keys)) k = view (store w) (now w) k"
    and "missing = filter (\<lambda>k. unreadable codec cfg (view (store w) (now w) k)) (dedupFrom [] keys)"
    and "missing \<noteq> []" "loadsMany loader load" "load missing = Ret m"
    and "ttlJitter cfg \<le> 0" "0 \<le> now w" "eff = ttlOr cfg ttl"
    and "0 \<le> sint (staleTTL cfg)" "sint eff + sint (staleTTL cfg) < 2 ^ 63" "0 < sint eff"
    and codec: "\<forall>v p. Marshal codec v = Inr p \<longrightarrow>
      Unmarshal codec p = Inr v \<and> (envelopeEnabled cfg \<or> \<not> isNegativeEntry p)"
    and cover: "\<forall>k\<in>set missing. encodable codec (m k) \<or> m k = None \<and> 0 < sint (negativeTTL cfg)"
    and first: "getOrSetManyWithCodec dflt cx c keys ttl co loader w = (res, w1)"
    and later: "store w2 = store w1" "now w1 \<le> now w2" "now w2 \<le> T" "T < now w + sint eff - grace"
      "0 < sint (negativeTTL cfg) \<longrightarrow> T < now w + sint (negativeTTL cfg) - grace"
      "\<forall>k\<in>set keys - set missing. view (store w) T k = view (store w) (now w) k"
  shows "configOf c w2 = cfg"
    and "\<forall>k\<in>set keys. view (store w2) T k = view (store w2) (now w2) k"
    and "\<forall>k\<in>set keys. \<not> unreadable codec cfg (view (store w2) (now w2) k)"
    and "res = Ret (\<lambda>k. if k \<in> set keys then cachedValue codec cfg (view (store w2) (now w2) k) else None)"
proof -
  note st = batch_stored [OF assms(1-14) first]
  let ?old = "view (store w) (now w)" and ?x = "view (store w2) (now w2)"
  have "now w \<le> now w1" using now_mono [OF assms(3)] st by simp
  with later(2) have le2: "now w \<le> now w2" by simp
  have key: "view (store w2) T k = ?x k \<and> \<not> unreadable codec cfg (?x k)
      \<and> cachedValue codec cfg (?x k) = (if k \<in> set missing then m k else cachedValue codec cfg (?old k))"
    if k: "k \<in> set keys" for k
  proof -
    note sk = st [THEN conjunct2, THEN conjunct2, THEN bspec, OF k]
    show ?thesis
    proof (cases "k \<in> set missing")
      case False
      have "\<not> unreadable codec cfg (?old k)" using False k assms(5) by (auto simp: set_dedupFrom)
      moreover have T: "view (store w) T k = ?old k" using later(6) k False by simp
      moreover have "view (store w) (now w2) k = ?old k"
        by (rule view_between [OF refl T le2 later(3)])
      ultimately show ?thesis using sk False later(1-3) by auto
    next
      case True
      show ?thesis
      proof (cases "encodable codec (m k)")
        case enc: True
        with sk True obtain data where d: "packedFor codec cfg (m k) data"
          "\<forall>t. t < now w + sint eff - grace \<longrightarrow> view (store w1) t k = Some data" by auto
        then have "\<not> unreadable codec cfg (Some data) \<and> cachedValue codec cfg (Some data) = m k"
          using codec by (auto simp: packedFor_def unreadable_def cachedValue_def)
        then show ?thesis using d(2) later(1,3,4) True by auto
      next
        case False
        with cover True have n: "m k = None" "0 < sint (negativeTTL cfg)" by auto
        with sk True False later(1,3,5) have
          "view (store w2) T k = Some negativeMarker \<and> ?x k = Some negativeMarker"
          by auto
        with n(1) True show ?thesis by (simp add: unreadable_def cachedValue_def isNegativeEntry_def)
      qed
    qed
  qed
  then show "\<forall>k\<in>set keys. view (store w2) T k = ?x k" "\<forall>k\<in>set keys. \<not> unreadable codec cfg (?x k)" by blast+
  show "configOf c w2 = cfg" using st configOf_cong [OF later(1), of c] by simp
  have "\<forall>cx ks w. fst (loader cx ks w) = load ks" using assms(7) by (simp add: loadsMany_def)
  from batch_reads [OF this assms(2,1,3,4), of cx ttl] first
  have "res = batchOutcome codec cfg keys load ?old" by simp
  also have "\<dots> = Ret (\<lambda>k. if k \<in> set missing then m k
      else if k \<in> set keys then cachedValue codec cfg (?old k) else None)"
    unfolding batchOutcome_def Let_def assms(5) [symmetric] using assms(6,8) by simp
  also have "\<dots> = Ret (\<lambda>k. if k \<in> set keys then cachedValue codec cfg (?x k) else None)"
  proof -
    have "set missing \<subseteq> set keys" unfolding assms(5) by (auto simp: set_dedupFrom)
    with key show ?thesis by (auto simp: fun_eq_iff)
  qed
  finally show "res = Ret (\<lambda>k. if k \<in> set keys then cachedValue codec cfg (?x k) else None)" .
qed

end

lemma batchOutcome_empty:
  assumes "keys \<noteq> []"
  shows "batchOutcome codec cfg keys load Map.empty = (case load (dedupFrom [] keys) of
    Ret m \<Rightarrow> Ret (\<lambda>k. if k \<in> set keys then m k else None) | Err e \<Rightarrow> Err e | Panic p \<Rightarrow> Panic p)"
proof -
  have "dedupFrom [] keys \<noteq> []" using assms set_dedupFrom [of "[]" keys] by (cases keys) auto
  then show ?thesis
    by (cases "load (dedupFrom [] keys)") (simp_all add: batchOutcome_def set_dedupFrom fun_eq_iff)
qed

section \<open>A concrete batch loader\<close>

definition sizeLoader :: "(nat, 's, 'h) manyLoader" where
  "sizeLoader cx ks w = (Ret (\<lambda>k. Some (length ks)), w)"

lemma sizeLoader_simps [simp]: "fst (sizeLoader cx ks w) = Ret (\<lambda>k. Some (length ks))"
  "loadsMany sizeLoader (\<lambda>ks. Ret (\<lambda>k. Some (length ks)))"
  by (simp_all add: sizeLoader_def loadsMany_def)

lemma steady_demoStore [simp]: "steady (demoStore id b) keys"
  by (simp add: steady_def demoStore_views demoMemory_fields)

lemma steady_stillWorld [simp]: "steady stillWorld keys"
  by (simp add: steady_def)

section \<open>Properties\<close>

text \<open>
  (C16) What a batch call returns, for any cache: the decodable entries of the requested keys; when
  some requested keys are absent or undecodable, the loader is asked exactly for those, in
  request order and without duplicates, its values are merged in, and its error or panic is the
  call's. Negative entries are excluded and not asked for.
\<close>

theorem batch_refines_outcome:
  assumes "\<forall>cx ks w. fst (loader cx ks w) = load ks"
    and "codec = effectiveCodec dflt co" "cfg = configOf c w"
  shows "fst (getOrSetManyWithCodec dflt cx c keys ttl co loader w)
    = batchOutcome codec cfg keys load (fst (readPhase cx c (dedupFrom [] keys) w))"
  using assms by (rule getOrSetMany_outcome)

theorem batch_refines_outcome_witness:
  "fst (getOrSetManyWithCodec demoCodec Background (memoryCache 0) [''a'', ''b'', ''a''] 0 None sizeLoader (demoStore id None))
    = batchOutcome demoCodec (memConfig (store (demoStore id None))) [''a'', ''b'', ''a'']
        (\<lambda>ks. Ret (\<lambda>k. Some (length ks)))
        (fst (readPhase Background (memoryCache 0) (dedupFrom [] [''a'', ''b'', ''a'']) (demoStore id None)))"
  by (rule batch_refines_outcome) (simp_all add: effectiveCodec_def)

text \<open>
  On the memory cache the batch sees every requested key as a single \<open>Get\<close> at the start of
  the call would, provided no requested entry lapses during the reads.
\<close>

theorem batch_reads_memory:
  assumes "\<forall>cx ks w. fst (loader cx ks w) = load ks" "codec = effectiveCodec dflt co"
    and "cfg = memConfig (store w)" "wfRuntime (rt w)" "steady w keys"
  shows "fst (getOrSetManyWithCodec dflt cx (memoryCache a) keys ttl co loader w)
    = batchOutcome codec cfg keys load (memView (store w) (now w))"
  using memb.batch_reads [OF assms(1,2) _ assms(4), of cfg a keys cx ttl] assms(3,5) by (simp add: steady_def)

theorem batch_reads_memory_witness:
  "fst (getOrSetManyWithCodec demoCodec Background (memoryCache 0) [''k'', ''b'', ''k''] 0 None sizeLoader
      (demoStore id (Some [123, 7]))) = Ret [''k'' \<mapsto> 7, ''b'' \<mapsto> 1]"
proof -
  let ?w = "demoStore id (Some [123, 7])"
  have "fst (getOrSetManyWithCodec demoCodec Background (memoryCache 0) [''k'', ''b'', ''k''] 0 None sizeLoader ?w)
    = batchOutcome demoCodec (memConfig (store ?w)) [''k'', ''b'', ''k''] (\<lambda>ks. Ret (\<lambda>k. Some (length ks)))
        (memView (store ?w) (now ?w))"
    by (rule batch_reads_memory) (simp_all add: effectiveCodec_def)
  then show ?thesis
    by (simp add: batchOutcome_def Let_def demoStore_views demoStore_view demoMemory_fields demoConfig
        unreadable_def cachedValue_def parseStored_def envelopeEnabled_def fun_eq_iff)
qed

text \<open>
  (C27) Degradation: when every read of the cache fails, batched or single, the loader is asked for
  all distinct keys and its values are returned, whatever writes and deletes do.
\<close>

theorem batch_survives_broken_cache:
  assumes "\<forall>cx ks w. fst (loader cx ks w) = load ks" "keys \<noteq> []"
    and "\<forall>cx k w. \<exists>e. fst (cGet c cx k w) = Inl e"
    and "\<forall>bc cx ks w. cBatch c = Some bc \<longrightarrow> (\<exists>e. fst (bGetMany bc cx ks w) = Inl e)"
  shows "fst (getOrSetManyWithCodec dflt cx c keys ttl co loader w) = (case load (dedupFrom [] keys) of
       Ret m \<Rightarrow> Ret (\<lambda>k. if k \<in> set keys then m k else None) | Err e \<Rightarrow> Err e | Panic p \<Rightarrow> Panic p)"
proof -
  have each: "fst (readEach cx c ks raw w) = raw" for ks raw w
  proof (induction ks arbitrary: w)
    case (Cons k ks)
    obtain e w1 where "cGet c cx k w = (Inl e, w1)" using assms(3) by (metis prod.collapse)
    with Cons show ?case by simp
  qed simp
  have raw: "fst (readPhase cx c ks w) = Map.empty" for ks
  proof (cases "cBatch c")
    case None
    then show ?thesis by (simp add: readPhase_def each)
  next
    case (Some bc)
    then obtain e w1 where "bGetMany bc cx ks w = (Inl e, w1)" using assms(4) by (metis prod.collapse)
    with Some show ?thesis by (simp add: readPhase_def)
  qed
  show ?thesis
    unfolding getOrSetMany_outcome [OF assms(1) refl refl] raw by (rule batchOutcome_empty [OF assms(2)])
qed

theorem batch_survives_broken_cache_witness:
  "fst (getOrSetManyWithCodec demoCodec Background
      ((memoryCache 0)\<lparr>cGet := (\<lambda>cx k w. (Inl DeadlineExceeded, w)), cBatch := None\<rparr>)
      [''a'', ''b'', ''a''] 0 None sizeLoader (demoStore id None)) = Ret [''a'' \<mapsto> 2, ''b'' \<mapsto> 2]"
  by (subst batch_survives_broken_cache [where load = "\<lambda>ks. Ret (\<lambda>k. Some (length ks))"])
    (auto simp: fun_eq_iff)



text \<open>
  A batch read of the memory cache (no requested entry lapsing meanwhile) returns exactly the
  live entries of the requested keys, fires \<open>OnHit\<close> for the present ones in order and then
  \<open>OnMiss\<close> for the others, and leaves the visible content unchanged.
\<close>

theorem memory_batch_read:
  assumes "memGetMany cx ks w = (r, w')" "wfRuntime (rt w)" "steady w ks"
  shows "r = Inr (\<lambda>k. if k \<in> set ks then memView (store w) (now w) k else None)
    \<and> obs w' = obs (fold (hookMiss (mcHooks (store w))) (filter (\<lambda>k. memView (store w) (now w) k = None) ks)
        (fold (hookHit (mcHooks (store w))) (filter (\<lambda>k. memView (store w) (now w) k \<noteq> None) ks) w))
    \<and> (\<forall>t k. now w' \<le> t \<longrightarrow> memView (store w') t k = memView (store w) t k)"
  using memGetMany_spec [OF assms(1,2) assms(3) [unfolded steady_def]] by blast

theorem memory_batch_read_witness:
  "fst (memGetMany Background [''k'', ''b''] (demoStore id (Some [5]))) = Inr [''k'' \<mapsto> [5]]
   \<and> obs (snd (memGetMany Background [''b'', ''k''] (demoStore id (Some [5])))) = [EHit ''k'', EMiss ''b'']"
proof -
  let ?w = "demoStore id (Some [5])"
  let ?r = "memGetMany Background [''k'', ''b''] ?w" and ?s = "memGetMany Background [''b'', ''k''] ?w"
  have "?r = (fst ?r, snd ?r)" "?s = (fst ?s, snd ?s)" by simp_all
  from memory_batch_read [OF this(1)] memory_batch_read [OF this(2)] show ?thesis
    by (simp add: demoStore_views demoStore_view demoMemory_fields fun_eq_iff hook_defs recorder_def)
qed

text \<open>
  A batch write to the memory cache, in whatever order the map is visited, does for every key
  what its own \<open>Set\<close> would: without jitter each value is readable for the effective TTL, and all
  other keys are left alone.
\<close>

theorem memory_batch_write:
  assumes "memSetMany cx kvs ttl w = (q, w')" "wfRuntime (rt w)" "distinct (map fst kvs)"
    and "mcTTLJitter (store w) \<le> 0" "0 \<le> now w"
    and "eff = (if sint ttl \<le> 0 then mcDefaultTTL (store w) else ttl)"
  shows "q = None \<and> (\<forall>k t. case map_of kvs k of
      None \<Rightarrow> memView (store w') t k = memView (store w) t k
    | Some v \<Rightarrow> (sint eff \<le> 0 \<or> t < now w + sint eff) \<longrightarrow> memView (store w') t k = Some v)"
proof -
  have "case map_of kvs k of
      None \<Rightarrow> memView (store w') t k = memView (store w) t k
    | Some v \<Rightarrow> (sint eff \<le> 0 \<or> t < now w + sint eff) \<longrightarrow> memView (store w') t k = Some v" for k t
  proof (cases "map_of kvs k")
    case None
    with memSetMany_view [OF assms(1-3), where k = k] show ?thesis by simp
  next
    case (Some v)
    with memSetMany_view [OF assms(1-3), where k = k] obtain wi where wi:
      "advances w wi" "memFixed (store wi) = memFixed (store w)"
      "\<forall>t. memView (store w') t k = (if livesUntil (memExpiry v ttl wi) t then Some v else None)" by auto
    have "now w \<le> now wi" using assms(2) wi(1) by (rule now_mono)
    with memExpiry_plain [of wi v eff ttl] memFixed_fields [OF wi(2)] assms(4-6) wi(3) Some
    show ?thesis by (simp add: livesUntil_def)
  qed
  with memSetMany_frame [OF assms(1)] show ?thesis by blast
qed

theorem memory_batch_write_witness:
  "memView (store (snd (memSetMany Background [(''a'', [1]), (''b'', [2])] minute (demoStore id None))))
     1700000059000000000 ''b'' = Some [2]"
proof -
  let ?r = "memSetMany Background [(''a'', [1]), (''b'', [2])] minute (demoStore id None)"
  have "?r = (fst ?r, snd ?r)" by simp
  from memory_batch_write [OF this _ _ _ _ refl, THEN conjunct2, rule_format, of "1700000059000000000" "''b''"]
  show ?thesis by (simp add: demoStore_def demoMemory_fields)
qed

text \<open>Two draws, one high and one low.\<close>

definition twoDraws :: runtime where
  "twoDraws = (demoRuntime 0)\<lparr>randf := (\<lambda>n. if n = 0 then 3 / 4 else 0)\<rparr>"

definition spreadConfig :: "unit cacheConfig" where
  "spreadConfig = zeroConfig\<lparr>staleTTL := 10000000000, ttlJitter := 1 / 2\<rparr>"

lemma jitter_draws:
  "ftrunc (jitterRaw minute (1 / 2) (3 / 4)) = 75000000000"
  "ftrunc (jitterRaw minute (1 / 2) 0) = 30000000000"
  by code_simp+


end
