(* ===== verification/RedisBatch.thy ===== *)
theory RedisBatch
  imports RefServer Batch
begin

text \<open>
  The batch methods of redis.go as an instance of the contract of a backend with batch methods (locale \<open>batch_cache\<close>, interpretation
  \<open>rdb\<close>), and \<open>GetOrSetMany\<close> over Redis.
\<close>

section \<open>What the batch methods rely on\<close>

text \<open>
  \<open>MGET\<close> writes nothing; a pipeline of \<open>SET\<close>s for different keys that reports no error has done all of them, and never touches
  other keys. On a healthy server neither fails, and \<open>MGET\<close> answers for every key what the server holds when the call begins.
\<close>

definition redisBatches :: "('s, 'h) redisClient \<Rightarrow> ('s \<Rightarrow> time \<Rightarrow> key \<Rightarrow> bytes option) \<Rightarrow>
    (duration \<Rightarrow> ('s, 'h) world \<Rightarrow> time option) \<Rightarrow> bool" where
  "redisBatches cl rv re \<longleftrightarrow>
     (\<forall>cx ks w r w'. rcMGet cl cx ks w = (r, w') \<longrightarrow> advances w w' \<and> (\<forall>t k. now w \<le> t \<longrightarrow> rv (store w') t k = rv (store w) t k))
   \<and> (\<forall>cx cmds w w'. rcPipeSet cl cx cmds w = (None, w') \<longrightarrow> distinct (map fst cmds) \<longrightarrow>
        (\<forall>(k, v, d)\<in>set cmds. \<forall>t. rv (store w') t k = (if livesUntil (re d w) t then Some v else None)))
   \<and> (\<forall>cx cmds w q w'. rcPipeSet cl cx cmds w = (q, w') \<longrightarrow> advances w w'
        \<and> (\<forall>t k. k \<notin> fst ` set cmds \<longrightarrow> rv (store w') t k = rv (store w) t k))"

definition redisBatchesHealthy :: "('s, 'h) redisClient \<Rightarrow> ('s \<Rightarrow> time \<Rightarrow> key \<Rightarrow> bytes option) \<Rightarrow> bool" where
  "redisBatchesHealthy cl rv \<longleftrightarrow> (\<forall>cx ks w r w'. rcMGet cl cx ks w = (r, w') \<longrightarrow> r = Inr (map (rv (store w) (now w)) ks))
     \<and> (\<forall>cx cmds w q w'. rcPipeSet cl cx cmds w = (q, w') \<longrightarrow> q = None)"

lemma redisBatchesD:
  assumes "redisBatches cl rv re"
  shows "rcMGet cl cx ks w = (r, w') \<Longrightarrow> advances w w'"
    and "rcMGet cl cx ks w = (r, w') \<Longrightarrow> now w \<le> t \<Longrightarrow> rv (store w') t k = rv (store w) t k"
    and "rcPipeSet cl cx cmds w = (None, w') \<Longrightarrow> distinct (map fst cmds) \<Longrightarrow> (k, v, d) \<in> set cmds \<Longrightarrow>
      rv (store w') t k = (if livesUntil (re d w) t then Some v else None)"
    and "rcPipeSet cl cx cmds w = (q, w') \<Longrightarrow> advances w w'"
    and "rcPipeSet cl cx cmds w = (q, w') \<Longrightarrow> k \<notin> fst ` set cmds \<Longrightarrow> rv (store w') t k = rv (store w) t k"
proof -
  note l = assms [unfolded redisBatches_def]
  note l2 = l [THEN conjunct1, rule_format]
  show "rcMGet cl cx ks w = (r, w') \<Longrightarrow> advances w w'" using l2 by blast
  show "rcMGet cl cx ks w = (r, w') \<Longrightarrow> now w \<le> t \<Longrightarrow> rv (store w') t k = rv (store w) t k" using l2 by blast
  note l3 = l [THEN conjunct2, THEN conjunct1, rule_format]
  show "rcPipeSet cl cx cmds w = (None, w') \<Longrightarrow> distinct (map fst cmds) \<Longrightarrow> (k, v, d) \<in> set cmds \<Longrightarrow>
      rv (store w') t k = (if livesUntil (re d w) t then Some v else None)" using l3 by blast
  note l4 = l [THEN conjunct2, THEN conjunct2, rule_format]
  show "rcPipeSet cl cx cmds w = (q, w') \<Longrightarrow> advances w w'" using l4 by blast
  show "rcPipeSet cl cx cmds w = (q, w') \<Longrightarrow> k \<notin> fst ` set cmds \<Longrightarrow> rv (store w') t k = rv (store w) t k" using l4 by blast
qed

section \<open>The batch methods\<close>

lemma fold_hookError_frame [simp]:
  "store (fold (\<lambda>k. hookError h op k e) ks w) = store w" "advances w (fold (\<lambda>k. hookError h op k e) ks w)"
proof (induction ks arbitrary: w)
  case (Cons k ks)
  { case 1 show ?case using Cons(1) by simp }
  { case 2 show ?case using Cons(2) [of "hookError h op k e w"] by (auto intro: advances_trans [of w "hookError h op k e w"]) }
qed simp_all

lemma fold_hookError_obs: "obs (fold (\<lambda>k. hookError recorder op k e) ks w) = obs w @ map (\<lambda>k. EError op k e) ks"
  by (induction ks arbitrary: w) (simp_all add: hook_defs recorder_def)

lemma redisGetLoop_result:
  "redisGetLoop c ks (map f ks) out w = (out', w') \<Longrightarrow> distinct ks \<Longrightarrow>
   out' = (\<lambda>k. if k \<in> set ks \<and> f k \<noteq> None then f k else out k) \<and> advances w w' \<and> store w' = store w"
proof (induction ks arbitrary: out w)
  case (Cons k ks)
  show ?case
  proof (cases "f k")
    case None
    with Cons.prems have "redisGetLoop c ks (map f ks) out (hookMiss (rdHooks c) k w) = (out', w')" by simp
    from Cons.IH [OF this] Cons.prems None show ?thesis by (auto simp: fun_eq_iff intro: advances_trans)
  next
    case (Some v)
    with Cons.prems have "redisGetLoop c ks (map f ks) (out(k \<mapsto> v)) (hookHit (rdHooks c) k w) = (out', w')" by simp
    from Cons.IH [OF this] Cons.prems Some show ?thesis by (auto simp: fun_eq_iff intro: advances_trans)
  qed
qed (simp add: fun_eq_iff)

lemma redisGetMany_result:
  assumes "redisBatches (rdClient c) rv re" "redisBatchesHealthy (rdClient c) rv" "sint (rdOpTimeout c) \<le> 0"
    and "redisGetMany c cx ks w = (r, w')" "distinct ks" "wfRuntime (rt w)"
  shows "r = Inr (\<lambda>k. if k \<in> set ks then rv (store w) (now w) (redisKey c k) else None) \<and> advances w w'
    \<and> (\<forall>t k. now w' \<le> t \<longrightarrow> rv (store w') t k = rv (store w) t k)"
proof (cases "ks = []")
  case True
  with assms(4) show ?thesis by (simp add: redisGetMany_def)
next
  case False
  obtain g w1 where g: "rcMGet (rdClient c) cx (map (redisKey c) ks) w = (g, w1)" by force
  let ?f = "\<lambda>k. rv (store w) (now w) (redisKey c k)"
  have gf: "g = Inr (map ?f ks)"
    using assms(2) [unfolded redisBatchesHealthy_def, THEN conjunct1, rule_format, OF g] by simp
  obtain out w2 where l: "redisGetLoop c ks (map ?f ks) Map.empty w1 = (out, w2)" by force
  have r: "r = Inr out" "w' = w2" using assms(3,4) False g gf l by (simp_all add: redisGetMany_def opContext_def)
  note out = redisGetLoop_result [OF l assms(5)]
  have adv: "advances w w2" using redisBatchesD(1) [OF assms(1) g] out by (blast intro: advances_trans)
  then have "now w \<le> now w2" by (rule now_mono [OF assms(6)])
  then have "\<forall>t k. now w2 \<le> t \<longrightarrow> rv (store w2) t k = rv (store w) t k"
    using redisBatchesD(2) [OF assms(1) g] out by simp
  moreover have "out = (\<lambda>k. if k \<in> set ks then ?f k else None)" using out by (auto simp: fun_eq_iff)
  ultimately show ?thesis using r adv by simp
qed

text \<open>The queued commands, each with its own TTL, and the pipeline.\<close>

lemma redisQueue_spec:
  "redisQueue c ttl xs w = (cmds, w') \<Longrightarrow> map fst cmds = map (redisKey c \<circ> fst) xs \<and> advances w w' \<and> store w' = store w
     \<and> obs w' = obs w
     \<and> (\<forall>(k, v)\<in>set xs. \<exists>d. (redisKey c k, v, d) \<in> set cmds \<and> (rdTTLJitter c \<le> 0 \<longrightarrow> d = ttlOr (redisConfig c) ttl))"
proof (induction xs arbitrary: w cmds w')
  case (Cons x xs)
  obtain k v where x: "x = (k, v)" by force
  obtain d w1 where d: "redisTTLFor c ttl v w = (d, w1)" by force
  obtain cmds1 w2 where q: "redisQueue c ttl xs w1 = (cmds1, w2)" by force
  have eq: "cmds = (redisKey c k, v, d) # cmds1" "w' = w2" using Cons.prems x d q by simp_all
  have ttl: "rdTTLJitter c \<le> 0 \<longrightarrow> d = ttlOr (redisConfig c) ttl"
    using d by (auto simp: redisTTLFor_def redisConfig_def applyJitter_def Let_def split: if_splits)
  note IH = Cons.IH [OF q] and fr = redisTTLFor_frame [OF d]
  have "\<exists>d'. (redisKey c k', v', d') \<in> set cmds \<and> (rdTTLJitter c \<le> 0 \<longrightarrow> d' = ttlOr (redisConfig c) ttl)"
    if "(k', v') \<in> set (x # xs)" for k' v'
  proof (cases "(k', v') = x")
    case True
    then show ?thesis using ttl x unfolding eq by (intro exI [of _ d]) simp
  next
    case False
    with that have "(k', v') \<in> set xs" by auto
    with IH obtain d' where "(redisKey c k', v', d') \<in> set cmds1" "rdTTLJitter c \<le> 0 \<longrightarrow> d' = ttlOr (redisConfig c) ttl" by blast
    then show ?thesis unfolding eq by (intro exI [of _ d']) (simp only: list.set insert_iff simp_thms)
  qed
  moreover have "advances w w'" using IH fr eq by (blast intro: advances_trans)
  moreover have "map fst cmds = map (redisKey c \<circ> fst) (x # xs)" using IH eq x by simp
  moreover have "store w' = store w" "obs w' = obs w" using IH fr eq by simp_all
  ultimately show ?case by blast
qed simp

lemma redisSetMany_cases:
  assumes "redisBatches (rdClient c) rv re" "redisSetMany c cx kvs ttl w = (q, w')" "wfRuntime (rt w)" "distinct (map fst kvs)"
  obtains (ok) w3 where "q = None" "advances w w3" "advances w3 w'" "(\<forall>cx cmds w. obs (snd (rcPipeSet (rdClient c) cx cmds w)) = obs w) \<longrightarrow> obs w' = obs w"
      "\<forall>(k, v)\<in>set kvs. \<exists>d. (rdTTLJitter c \<le> 0 \<longrightarrow> d = ttlOr (redisConfig c) ttl)
        \<and> (\<forall>t. rv (store w') t (redisKey c k) = (if livesUntil (re d w3) t then Some v else None))"
      "\<forall>t k. k \<notin> redisKey c ` fst ` set kvs \<longrightarrow> rv (store w') t k = rv (store w) t k"
  | (failed) e w4 ks where "q = Some (Wrapf ''cachekit: mset (%d keys): %w'' [Num (length kvs)] e)" "advances w w4"
      "mset ks = mset (map fst kvs)" "obs w' = obs (fold (\<lambda>k. hookError (rdHooks c) OpSet k e) ks w4)" "store w' = store w4"
      "(\<forall>cx cmds w. obs (snd (rcPipeSet (rdClient c) cx cmds w)) = obs w) \<longrightarrow> obs w4 = obs w" "advances w4 w'" "\<forall>t k. k \<notin> redisKey c ` fst ` set kvs \<longrightarrow> rv (store w') t k = rv (store w) t k"
proof (cases "kvs = []")
  case True
  with assms(2) have "q = None" "w' = w" by (simp_all add: redisSetMany_def)
  with True show thesis by (intro ok [of w]) simp_all
next
  case False
  obtain cx' w1 where o: "opContext cx (rdOpTimeout c) w = (cx', w1)" by force
  obtain xs w2 where x: "rangeItems kvs w1 = (xs, w2)" by force
  obtain cmds w3 where qu: "redisQueue c ttl xs w2 = (cmds, w3)" by force
  obtain p w4 where p: "rcPipeSet (rdClient c) cx' cmds w3 = (p, w4)" by force
  note u = assms(2) [unfolded redisSetMany_def, simplified False o x qu p if_False prod.case]
  note fo = opContext_frame [OF o] and fx = rangeItems_frame [OF x] and fq = redisQueue_spec [OF qu]
  have wf1: "wfRuntime (rt w1)" using fo assms(3) by (auto dest: advances_rt)
  have xs: "mset xs = mset kvs" by (rule mset_rangeItems [OF wf1 assms(4) x])
  then have set: "set xs = set kvs" by (rule mset_eq_setD)
  have adv: "advances w w3" and ob: "obs w3 = obs w" and st: "store w3 = store w"
    using fo fx fq by (auto intro: advances_trans)
  have keys: "fst ` set cmds = redisKey c ` fst ` set kvs"
  proof -
    have "fst ` set cmds = set (map fst cmds)" by simp
    also have "\<dots> = redisKey c ` fst ` set kvs" using fq set by (simp add: image_comp)
    finally show ?thesis .
  qed
  have dist: "distinct (map fst cmds)"
  proof -
    have "distinct (map fst xs)" using xs assms(4) by (metis mset_map mset_eq_imp_distinct_iff)
    then have "distinct (map (redisKey c) (map fst xs))" by (simp add: distinct_map inj_on_def redisKey_inj)
    then show ?thesis using fq by simp
  qed
  have others: "\<forall>t k. k \<notin> redisKey c ` fst ` set kvs \<longrightarrow> rv (store w4) t k = rv (store w) t k"
    using redisBatchesD(5) [OF assms(1) p] keys st by simp
  note adv4 = redisBatchesD(4) [OF assms(1) p]
  have silent: "(\<forall>cx cmds w. obs (snd (rcPipeSet (rdClient c) cx cmds w)) = obs w) \<longrightarrow> obs w4 = obs w"
    using p ob by (metis snd_conv)
  show thesis
  proof (cases p)
    case None
    then have w': "q = None" "w' = w4" using u by simp_all
    have item: "\<exists>d. (rdTTLJitter c \<le> 0 \<longrightarrow> d = ttlOr (redisConfig c) ttl)
        \<and> (\<forall>t. rv (store w4) t (redisKey c k) = (if livesUntil (re d w3) t then Some v else None))" if "(k, v) \<in> set kvs" for k v
    proof -
      have "(k, v) \<in> set xs" using that set by simp
      with fq obtain d where d: "(redisKey c k, v, d) \<in> set cmds" "rdTTLJitter c \<le> 0 \<longrightarrow> d = ttlOr (redisConfig c) ttl" by blast
      show ?thesis using d(2) redisBatchesD(3) [OF assms(1) p [unfolded None] dist d(1)] by blast
    qed
    show thesis unfolding w' by (rule ok [of w3]) (use w' adv adv4 silent others item in blast)+
  next
    case (Some e)
    obtain ys w5 where y: "rangeItems kvs w4 = (ys, w5)" by force
    note fy = rangeItems_frame [OF y]
    have "rt w4 = rt w" using adv adv4 by (simp add: advances_rt)
    then have wf4: "wfRuntime (rt w4)" using assms(3) by simp
    have w': "q = Some (Wrapf ''cachekit: mset (%d keys): %w'' [Num (length kvs)] e)"
      "w' = fold (\<lambda>k. hookError (rdHooks c) OpSet k e) (map fst ys) w5" using u Some y by simp_all
    have "mset ys = mset kvs" by (rule mset_rangeItems [OF wf4 assms(4) y])
    then have "mset (map fst ys) = mset (map fst kvs)" by simp
    then show thesis
      using w' adv adv4 fy others silent by (intro failed [of e w5 "map fst ys"]) (auto intro: advances_trans)
  qed
qed

section \<open>The contract\<close>

lemma redisSetMany_frame:
  assumes "redisBatches (rdClient c) rv re" "redisSetMany c cx kvs ttl w = (q, w')"
  shows "advances w w'"
proof (cases "kvs = []")
  case True
  with assms(2) show ?thesis by (simp add: redisSetMany_def)
next
  case False
  obtain cx' w1 where o: "opContext cx (rdOpTimeout c) w = (cx', w1)" by force
  obtain xs w2 where x: "rangeItems kvs w1 = (xs, w2)" by force
  obtain cmds w3 where qu: "redisQueue c ttl xs w2 = (cmds, w3)" by force
  obtain p w4 where p: "rcPipeSet (rdClient c) cx' cmds w3 = (p, w4)" by force
  obtain ys w5 where y: "rangeItems kvs w4 = (ys, w5)" by force
  have "advances w w4" using opContext_frame [OF o] rangeItems_frame [OF x] redisQueue_spec [OF qu]
      redisBatchesD(4) [OF assms(1) p] by (blast intro: advances_trans)
  moreover have "advances w4 w5" using rangeItems_frame [OF y] by simp
  moreover have "w' = w4 \<or> (\<exists>e. w' = fold (\<lambda>k. hookError (rdHooks c) OpSet k e) (map fst ys) w5)"
    using assms(2) False o x qu p y by (auto simp: redisSetMany_def split: option.splits)
  ultimately show ?thesis by (auto intro: advances_trans)
qed

lemma redisSetMany_healthy:
  assumes "redisBatchesHealthy (rdClient c) rv" "redisSetMany c cx kvs ttl w = (q, w')"
  shows "q = None"
  using assms by (auto simp: redisBatchesHealthy_def redisSetMany_def split: if_splits prod.splits option.splits) blast

lemma redisKeptFor:
  assumes "keepsTTL re" "now w \<le> now w3" "rdTTLJitter c \<le> 0 \<longrightarrow> d = ttlOr (redisConfig c) ttl"
  shows "keptFor nsPerMilli (redisConfig c) ttl (now w) (re d w3)"
  using assms unfolding keptFor_def keepsTTL_def by (simp add: redisConfig_def)

lemma redis_batch_cache:
  assumes "redisReads (rdClient c) rv" "redisWrites (rdClient c) rv re" "redisHealthy (rdClient c) rv"
    and batches: "redisBatches (rdClient c) rv re" and healthy: "redisBatchesHealthy (rdClient c) rv"
    and "keepsTTL re" and op: "sint (rdOpTimeout c) \<le> 0"
  shows "batch_cache (redisCache c p) (\<lambda>s t k. rv s t (redisKey c k)) (redisExpiry c re)
    \<lparr>bGetMany = redisGetMany c, bSetMany = redisSetMany c\<rparr> (\<lambda>w n. now w) nsPerMilli"
proof (rule batch_cache.intro [OF redis_reliable [OF assms(1-3) op]], unfold_locales, goal_cases)
  case (3 cx ks w r w')
  then have "redisGetMany c cx ks w = (r, w')" by simp
  from redisGetMany_result [OF batches healthy op this 3(3,2)] show ?case by simp
next
  case (4 cx kvs ttl w q w')
  then show ?case using redisSetMany_frame [OF batches] by simp
next
  case (5 cx kvs ttl w q w' k)
  then have s: "redisSetMany c cx kvs ttl w = (q, w')" by simp
  show ?case
  proof (cases rule: redisSetMany_cases [OF batches s 5(2,3)])
    case (1 w3)
    show ?thesis
    proof (cases "map_of kvs k")
      case None
      then have "k \<notin> fst ` set kvs" by (simp add: map_of_eq_None_iff)
      then have "redisKey c k \<notin> redisKey c ` fst ` set kvs" by (simp add: image_iff)
      with 1(6) None show ?thesis by simp
    next
      case (Some v)
      from 1(5) map_of_SomeD [OF Some] obtain d where d: "rdTTLJitter c \<le> 0 \<longrightarrow> d = ttlOr (redisConfig c) ttl"
        "\<forall>t. rv (store w') t (redisKey c k) = (if livesUntil (re d w3) t then Some v else None)" by blast
      have "now w \<le> now w3" by (rule now_mono [OF 5(2) 1(2)])
      then have "keptFor nsPerMilli (redisConfig c) ttl (now w) (re d w3)" by (rule redisKeptFor [OF assms(6) _ d(1)])
      with d(2) Some show ?thesis by auto
    qed
  qed (use redisSetMany_healthy [OF healthy s] in simp)
qed simp_all

text \<open>The reference client pipelines its \<open>SET\<close>s in order.\<close>

abbreviation srvPipe :: "(key \<times> bytes \<times> duration) list \<Rightarrow> (server, 'h) world \<Rightarrow> (server, 'h) world" where
  "srvPipe \<equiv> fold (\<lambda>(k, v, d). srvSet k v d)"

lemma srvSet_frame [simp]:
  "now (srvSet k v d w) = now w" "advances w (srvSet k v d w)" "srvExpiry d' (srvSet k v d w) = srvExpiry d' w"
  "store (srvSet k v d w) k' = (if k' = k then Some (v, srvExpiry d w) else store w k')"
  by (simp_all add: srvSet_def now_def srvExpiry_def)

lemma srvPipe_other: "advances w (srvPipe cmds w) \<and> (k \<notin> fst ` set cmds \<longrightarrow> store (srvPipe cmds w) k = store w k)"
proof (induction cmds arbitrary: w)
  case (Cons x cmds)
  obtain k' v d where x: "x = (k', v, d)" by (cases x)
  have "srvPipe (x # cmds) w = srvPipe cmds (srvSet k' v d w)" using x by simp
  moreover have "advances w (srvPipe cmds (srvSet k' v d w))"
    using Cons.IH [of "srvSet k' v d w"] srvSet_frame(2) [of w k' v d] by (blast intro: advances_trans)
  ultimately show ?case using Cons.IH [of "srvSet k' v d w"] x by simp
qed simp

lemma srvPipe_item:
  "distinct (map fst cmds) \<Longrightarrow> (k, v, d) \<in> set cmds \<Longrightarrow> store (srvPipe cmds w) k = Some (v, srvExpiry d w)"
proof (induction cmds arbitrary: w)
  case (Cons x cmds)
  obtain k' v' d' where x: "x = (k', v', d')" by (cases x)
  show ?case
  proof (cases "(k, v, d) \<in> set cmds")
    case True
    with Cons.IH [of "srvSet k' v' d' w"] Cons.prems x show ?thesis by simp
  next
    case False
    with Cons.prems x have "k' = k" "v' = v" "d' = d" "k \<notin> fst ` set cmds" by auto
    with srvPipe_other [of "srvSet k v d w" cmds k] x show ?thesis by simp
  qed
qed simp

lemma refRedis_batches: "redisBatches refRedis srvView srvExpiry"
  unfolding redisBatches_def refRedis_def
  by (auto simp: srvView_def srvPipe_item) (use srvPipe_other in \<open>metis+\<close>)

lemma refRedis_batchesHealthy: "redisBatchesHealthy refRedis srvView"
  by (simp add: redisBatchesHealthy_def refRedis_def)

interpretation rdb: batch_cache "redisCache (refRedisCache opt) p"
  "\<lambda>s t k. srvView s t (redisKey (refRedisCache opt) k)" "redisExpiry (refRedisCache opt) srvExpiry"
  "\<lparr>bGetMany = redisGetMany (refRedisCache opt), bSetMany = redisSetMany (refRedisCache opt)\<rparr>" "\<lambda>w n. now w" nsPerMilli for opt p
  by (rule redis_batch_cache)
    (simp_all add: refRedis_reads refRedis_writes refRedis_healthy refRedis_batches refRedis_batchesHealthy srvExpiry_keeps)

section \<open>Properties\<close>

text \<open>
  (C34) A batch write over Redis is one pipeline: when it succeeds, every item is held under its prefixed key, and with jitter off
  for its TTL to the millisecond; when it fails, the error names the number of keys and wraps the client's, and
  \<open>OnError(OpSet)\<close> fires exactly once per key, in whatever order the map is visited. Either way no other key is touched.
\<close>

theorem redis_batch_write:
  fixes c :: "('c, 's, event list) RedisCache"
  assumes "redisBatches (rdClient c) rv re" "keepsTTL re" "rdHooks c = recorder"
    and "\<forall>cx cmds w. obs (snd (rcPipeSet (rdClient c) cx cmds w)) = obs w"
    and "redisSetMany c cx kvs ttl w = (q, w')" "wfRuntime (rt w)" "distinct (map fst kvs)"
  shows "(case q of
      None \<Rightarrow> obs w' = obs w \<and> (\<forall>(k, v)\<in>set kvs. \<exists>u. keptFor nsPerMilli (redisConfig c) ttl (now w) u
        \<and> (\<forall>t. rv (store w') t (redisKey c k) = (if livesUntil u t then Some v else None)))
    | Some e' \<Rightarrow> \<exists>e ks. e' = Wrapf ''cachekit: mset (%d keys): %w'' [Num (length kvs)] e \<and> mset ks = mset (map fst kvs)
        \<and> obs w' = obs w @ map (\<lambda>k. EError OpSet k e) ks)
    \<and> (\<forall>t k. k \<notin> redisKey c ` fst ` set kvs \<longrightarrow> rv (store w') t k = rv (store w) t k)"
proof (cases rule: redisSetMany_cases [OF assms(1,5-7)])
  case (1 w3)
  have le: "now w \<le> now w3" by (rule now_mono [OF assms(6) 1(2)])
  have "\<exists>u. keptFor nsPerMilli (redisConfig c) ttl (now w) u
      \<and> (\<forall>t. rv (store w') t (redisKey c k) = (if livesUntil u t then Some v else None))" if "(k, v) \<in> set kvs" for k v
    using 1(5) that redisKeptFor [OF assms(2) le] by blast
  then have "\<forall>(k, v)\<in>set kvs. \<exists>u. keptFor nsPerMilli (redisConfig c) ttl (now w) u
      \<and> (\<forall>t. rv (store w') t (redisKey c k) = (if livesUntil u t then Some v else None))" by blast
  moreover have "obs w' = obs w" using 1(4) assms(4) by blast
  ultimately show ?thesis using 1(1,6) by (simp only: option.case simp_thms)
next
  case (2 e w4 ks)
  have "obs (fold (\<lambda>k. hookError (rdHooks c) OpSet k e) ks w4) = obs w @ map (\<lambda>k. EError OpSet k e) ks"
    using 2(6) assms(4) by (simp add: assms(3) fold_hookError_obs)
  with 2(1,3,4,8) show ?thesis by (simp only: option.case simp_thms) blast
qed

definition brokenPipe :: "(nat, server, event list) RedisCache" where
  "brokenPipe = (refRedisCache (initialOptions\<lparr>HooksOpt := recorder\<rparr>))\<lparr>rdClient :=
     refRedis\<lparr>rcPipeSet := (\<lambda>cx cmds w. (Some DeadlineExceeded, w))\<rparr>\<rparr>"

theorem redis_batch_write_witness:
  "let call = redisSetMany brokenPipe Background [(''a'', [1]), (''b'', [2])] minute (demoWorld 0 Map.empty [])
   in fst call = Some (Wrapf ''cachekit: mset (%d keys): %w'' [Num 2] DeadlineExceeded)
     \<and> (\<exists>e ks. mset ks = {#''a'', ''b''#} \<and> obs (snd call) = map (\<lambda>k. EError OpSet k e) ks)"
proof -
  let ?w = "demoWorld 0 Map.empty [] :: (server, event list) world"
  let ?call = "redisSetMany brokenPipe Background [(''a'', [1]), (''b'', [2])] minute ?w"
  have b: "redisBatches (rdClient brokenPipe) srvView srvExpiry" and h: "rdHooks brokenPipe = recorder"
    and s: "\<forall>cx cmds w. obs (snd (rcPipeSet (rdClient brokenPipe) cx cmds w)) = obs w"
    by (simp_all add: brokenPipe_def refRedisCache_def newFromClient_def redisBatches_def refRedis_def)
  have q: "fst ?call = Some (Wrapf ''cachekit: mset (%d keys): %w'' [Num 2] DeadlineExceeded)"
    by (simp add: redisSetMany_def brokenPipe_def split: prod.split)
  then have c: "?call = (Some (Wrapf ''cachekit: mset (%d keys): %w'' [Num 2] DeadlineExceeded), snd ?call)"
    by (metis prod.collapse)
  from redis_batch_write [OF b srvExpiry_keeps h s c, THEN conjunct1] q show ?thesis by (simp add: Let_def) metis
qed



end
