(* ===== verification/ValkeyBatch.thy ===== *)
theory ValkeyBatch
  imports Valkey RedisBatch
begin

text \<open>
  The batch methods of valkey.go. They look different from those of redis.go: replies arrive one per command, are inspected one
  by one, and fail one by one. On a healthy server the difference cannot be observed: the whole Valkey cache, batch
  methods included, is then the Redis cache over the forwarding client, so that everything proved of that cache, \<open>GetOrSetMany\<close>
  and concurrent calls included, holds of this one (interpretation \<open>vkb\<close>).
\<close>

section \<open>The batch methods behind the Redis cache\<close>

text \<open>A multi-command call gives one reply per command.\<close>

definition repliesAll :: "('s, 'h) valkeyClient \<Rightarrow> bool" where
  "repliesAll cl \<longleftrightarrow> (\<forall>cx cmds w. length (fst (vcDoMulti cl cx cmds w)) = length cmds)
     \<and> (\<forall>cx cmds w. length (fst (vcDoMultiCache cl cx cmds w)) = length cmds)"

lemma repliesAllD:
  assumes "repliesAll cl"
  shows "vcDoMulti cl cx cmds w = (rs, w') \<Longrightarrow> length rs = length cmds"
    and "vcDoMultiCache cl cx ccmds w = (rs, w') \<Longrightarrow> length rs = length ccmds"
  using assms unfolding repliesAll_def by (metis fst_conv)+

definition replyBytes :: "valkeyResult \<Rightarrow> bytes option" where
  "replyBytes r = (case r of Inl _ \<Rightarrow> None | Inr b \<Rightarrow> Some b)"

lemma replyBytes_case: "case_sum (\<lambda>_. None) Some = replyBytes"
  by (simp add: fun_eq_iff replyBytes_def)

lemma forwarding_mget:
  "rcMGet (forwarding cl ttl) cx ks w = (case (if 0 < sint ttl then vcDoMultiCache cl cx (map (\<lambda>k. (VGet k, ttl)) ks) w
       else vcDoMulti cl cx (map VGet ks) w) of (rs, w') \<Rightarrow>
     (case realErrors cl rs of e # _ \<Rightarrow> Inl e | [] \<Rightarrow> Inr (map replyBytes rs), w'))"
  unfolding replyBytes_case [symmetric] by (simp add: forwarding_def)

lemma valkeyGetLoop_redis:
  "length rs = length ks \<Longrightarrow> realErrors (vkClient c) rs = [] \<Longrightarrow>
   valkeyGetLoop c ks rs out None w = (case redisGetLoop (viaRedis c) ks (map replyBytes rs) out w of (out', w') \<Rightarrow> ((out', None), w'))"
proof (induction ks rs arbitrary: out w rule: list_induct2')
  case (4 k ks r rs)
  then show ?case
    by (cases r) (auto simp: realErrors_def replyBytes_def List.map_filter_simps split: if_splits)
qed simp_all

lemma setCmds_redis:
  "setCmds c ttl xs w = (case redisQueue (viaRedis c) ttl xs w of (cmds, w') \<Rightarrow> (map (\<lambda>(k, v, d). pxCmd k v (floorTTL d)) cmds, w'))"
  by (induction xs arbitrary: w rule: list.induct) (auto simp: setCmd_redis split: prod.splits)

lemma valkeyGetLoop_frame:
  "length rs = length ks \<Longrightarrow> valkeyGetLoop c ks rs out fe w = ((out', fe'), w') \<Longrightarrow>
   store w' = store w \<and> (fe' = None \<longleftrightarrow> fe = None \<and> realErrors (vkClient c) rs = [])"
proof (induction ks rs arbitrary: out fe w rule: list_induct2')
  case (4 k ks r rs)
  show ?case
  proof (cases r)
    case (Inl e)
    with 4 show ?thesis
      by (cases "IsValkeyNil (vkClient c) e") (fastforce simp: realErrors_def List.map_filter_simps split: if_splits)+
  next
    case (Inr b)
    with 4 show ?thesis by (fastforce simp: realErrors_def List.map_filter_simps)
  qed
qed (auto simp: realErrors_def List.map_filter_simps)

lemma valkeySetLoop_ok: "List.map_filter resError rs = [] \<Longrightarrow> valkeySetLoop c ks rs None w = (None, w)"
  by (induction c ks rs "None :: gerror option" w rule: valkeySetLoop.induct)
    (auto simp: List.map_filter_simps split: option.splits)

lemma valkeySetLoop_frame:
  "length rs = length ks \<Longrightarrow> valkeySetLoop c ks rs fe w = (fe', w') \<Longrightarrow>
   store w' = store w \<and> (fe' = None \<longleftrightarrow> fe = None \<and> List.map_filter resError rs = [])"
proof (induction ks rs arbitrary: fe w rule: list_induct2')
  case (4 k ks r rs)
  then show ?case
    by (cases "resError r") (fastforce simp: List.map_filter_simps split: if_splits)+
qed (auto simp: List.map_filter_simps)

text \<open>Every batch, whether it fails or not.\<close>

lemma valkeyGetMany_redis:
  assumes "repliesAll (vkClient c)" "valkeyGetMany c cx ks w = (r, w')" "redisGetMany (viaRedis c) cx ks w = (r', w'')"
  shows "case r of Inr m \<Rightarrow> r' = Inr m \<and> w' = w'' | Inl _ \<Rightarrow> (\<exists>e. r' = Inl e) \<and> store w' = store w''"
proof (cases "ks = []")
  case True
  with assms(2,3) show ?thesis by (auto simp: valkeyGetMany_def redisGetMany_def)
next
  case False
  obtain cx' w1 where o: "opContext cx (vkOpTimeout c) w = (cx', w1)" by force
  let ?do = "if 0 < sint (vkClientCacheTTL c)
    then vcDoMultiCache (vkClient c) cx' (map (\<lambda>k. (VGet (valkeyKey c k), vkClientCacheTTL c)) ks) w1
    else vcDoMulti (vkClient c) cx' (map (\<lambda>k. VGet (valkeyKey c k)) ks) w1"
  obtain rs w2 where r: "?do = (rs, w2)" by force
  have len: "length rs = length ks"
    using repliesAllD [OF assms(1)] r by (fastforce split: if_splits)
  have mget: "rcMGet (forwarding (vkClient c) (vkClientCacheTTL c)) cx' (map (valkeyKey c) ks) w1
    = (case realErrors (vkClient c) rs of e # _ \<Rightarrow> Inl e | [] \<Rightarrow> Inr (map replyBytes rs), w2)"
    using r by (simp add: forwarding_mget comp_def split: if_splits)
  obtain out fe w3 where l: "valkeyGetLoop c ks rs Map.empty None w2 = ((out, fe), w3)" by (metis surj_pair)
  note fr = valkeyGetLoop_frame [OF len l]
  show ?thesis
  proof (cases "realErrors (vkClient c) rs")
    case Nil
    with assms(2,3) False o r mget show ?thesis
      by (auto simp: valkeyGetMany_def redisGetMany_def valkeyGetLoop_redis [OF len Nil] split: prod.splits)
  next
    case (Cons e es)
    then obtain e' where "fe = Some e'" using fr by auto
    with assms(2,3) False o r mget l fr Cons show ?thesis by (auto simp: valkeyGetMany_def redisGetMany_def)
  qed
qed

lemma valkeySetMany_redis:
  assumes "repliesAll (vkClient c)" "valkeySetMany c cx kvs ttl w = (q, w')" "redisSetMany (viaRedis c) cx kvs ttl w = (q', w'')"
  shows "case q of None \<Rightarrow> q' = None \<and> w' = w'' | Some _ \<Rightarrow> q' \<noteq> None \<and> store w' = store w''"
proof (cases "kvs = []")
  case True
  with assms(2,3) show ?thesis by (auto simp: valkeySetMany_def redisSetMany_def)
next
  case False
  obtain cx' w1 where o: "opContext cx (vkOpTimeout c) w = (cx', w1)" by force
  obtain xs w2 where x: "rangeItems kvs w1 = (xs, w2)" by force
  obtain cmds w3 where qu: "redisQueue (viaRedis c) ttl xs w2 = (cmds, w3)" by force
  obtain rs w4 where r: "vcDoMulti (vkClient c) cx' (map (\<lambda>(k, v, d). pxCmd k v (floorTTL d)) cmds) w3 = (rs, w4)" by force
  have "map fst cmds = map (redisKey (viaRedis c) \<circ> fst) xs" using redisQueue_spec [OF qu] by blast
  then have "length cmds = length xs" by (metis length_map)
  then have len: "length rs = length (map fst xs)" using repliesAllD(1) [OF assms(1) r] by simp
  have p: "rcPipeSet (forwarding (vkClient c) (vkClientCacheTTL c)) cx' cmds w3
    = (case List.map_filter resError rs of e # _ \<Rightarrow> Some e | [] \<Rightarrow> None, w4)" using r by (simp add: forwarding_def)
  obtain fe w5 where l: "valkeySetLoop c (map fst xs) rs None w4 = (fe, w5)" by force
  note fr = valkeySetLoop_frame [OF len l]
  have v: "q = fe" "w' = w5" using assms(2) False o x qu r l by (simp_all add: valkeySetMany_def setCmds_redis)
  show ?thesis
  proof (cases "List.map_filter resError rs")
    case Nil
    with assms(3) False o x qu p l v valkeySetLoop_ok [OF Nil, of c "map fst xs" w4] show ?thesis
      by (simp add: redisSetMany_def)
  next
    case (Cons e es)
    then obtain e' where "fe = Some e'" using fr by auto
    with assms(3) False o x qu p fr v Cons show ?thesis
      by (auto simp: redisSetMany_def split: prod.splits dest: rangeItems_frame)
  qed
qed

text \<open>On a healthy server no batch fails.\<close>

lemma valkeyGetMany_healthy:
  assumes "repliesAll (vkClient c)" "redisBatchesHealthy (forwarding (vkClient c) (vkClientCacheTTL c)) rv"
  shows "valkeyGetMany c cx ks w = redisGetMany (viaRedis c) cx ks w"
proof -
  obtain r w' r' w'' where e: "valkeyGetMany c cx ks w = (r, w')" "redisGetMany (viaRedis c) cx ks w = (r', w'')" by (meson surj_pair)
  have "\<exists>m. r' = Inr m"
    using e(2) assms(2) [unfolded redisBatchesHealthy_def, THEN conjunct1, rule_format]
    by (fastforce simp: redisGetMany_def split: if_splits prod.splits sum.splits)
  with valkeyGetMany_redis [OF assms(1) e] e show ?thesis by (auto split: sum.splits)
qed

lemma valkeySetMany_healthy:
  assumes "repliesAll (vkClient c)" "redisBatchesHealthy (forwarding (vkClient c) (vkClientCacheTTL c)) rv"
  shows "valkeySetMany c cx kvs ttl w = redisSetMany (viaRedis c) cx kvs ttl w"
proof -
  obtain q w' q' w'' where e: "valkeySetMany c cx kvs ttl w = (q, w')" "redisSetMany (viaRedis c) cx kvs ttl w = (q', w'')" by force
  have "q' = None" by (rule redisSetMany_healthy [OF _ e(2), of rv]) (simp add: assms(2))
  with valkeySetMany_redis [OF assms(1) e] e show ?thesis by (auto split: option.splits)
qed

lemma valkeyCache_redis:
  assumes "nilSeparate (vkClient c)" "repliesAll (vkClient c)" "redisBatchesHealthy (forwarding (vkClient c) (vkClientCacheTTL c)) rv"
  shows "valkeyCache c p = redisCache (viaRedis c) p"
proof -
  have "valkeyGet c = redisGet (viaRedis c)" "valkeySet c = redisSet (viaRedis c)" "valkeyDelete c = redisDelete (viaRedis c)"
    "valkeyGetMany c = redisGetMany (viaRedis c)" "valkeySetMany c = redisSetMany (viaRedis c)"
    by (simp_all add: fun_eq_iff valkeyGet_redis [OF assms(1)] valkeySet_redis valkeyDelete_redis
        valkeyGetMany_healthy [OF assms(2,3)] valkeySetMany_healthy [OF assms(2,3)])
  then show ?thesis by (simp add: valkeyCache_def redisCache_def)
qed

section \<open>Over the reference server\<close>

definition pxArg :: "duration \<Rightarrow> duration" where
  "pxArg d = (if 0 < sint (floorTTL d) then milliseconds (floorTTL d) * millisecond else 0)"

lemma refDoMulti_length: "length (fst (refDoMulti cmds w)) = length cmds"
  by (induction cmds w rule: refDoMulti.induct) (auto split: prod.splits)

lemma refValkey_replies: "repliesAll refValkey"
  by (simp add: repliesAll_def refValkey_def refDoMulti_length)

lemma refDoMulti_get:
  "refDoMulti (map VGet ks) w = (map (\<lambda>k. case srvView (store w) (now w) k of None \<Rightarrow> Inl nilReply | Some v \<Rightarrow> Inr v) ks, w)"
  by (induction ks) simp_all

lemma refDoMulti_set:
  "refDoMulti (map (\<lambda>(k, v, d). pxCmd k v (floorTTL d)) cmds) w
    = (replicate (length cmds) (Inr []), srvPipe (map (\<lambda>(k, v, d). (k, v, pxArg d)) cmds) w)"
proof (induction cmds arbitrary: w)
  case (Cons x cmds)
  obtain k v d where x: "x = (k, v, d)" by (cases x)
  have "refDo (pxCmd k v (floorTTL d)) w = (Inr [], srvSet k v (pxArg d) w)" by (simp add: pxCmd_def pxArg_def)
  with Cons x show ?case by simp
qed simp

lemma refValkey_mget: "rcMGet (forwarding refValkey ttl) cx ks (w :: (server, 'h) world) = (Inr (map (srvView (store w) (now w)) ks), w)"
proof -
  let ?r = "\<lambda>k. case srvView (store w) (now w) k of None \<Rightarrow> Inl nilReply | Some v \<Rightarrow> Inr v"
  have "IsValkeyNil (refValkey :: (server, 'h) valkeyClient) nilReply" by (simp add: refValkey_def nilReply_def)
  then have "realErrors (refValkey :: (server, 'h) valkeyClient) (map ?r ks) = []"
    by (induction ks) (auto simp: realErrors_def List.map_filter_simps split: option.splits)
  moreover have "map replyBytes (map ?r ks) = map (srvView (store w) (now w)) ks"
    by (auto simp: replyBytes_def split: option.splits)
  moreover have "(if 0 < sint ttl then vcDoMultiCache refValkey cx (map (\<lambda>k. (VGet k, ttl)) ks) w
      else vcDoMulti refValkey cx (map VGet ks) w) = (map ?r ks, w)"
    by (simp add: refValkey_def comp_def refDoMulti_get)
  ultimately show ?thesis by (simp only: forwarding_mget prod.case list.case)
qed

lemma refValkey_pipe: "rcPipeSet (forwarding refValkey ttl) cx cmds w = (None, srvPipe (map (\<lambda>(k, v, d). (k, v, pxArg d)) cmds) w)"
proof -
  have "List.map_filter resError (replicate n (Inr [])) = []" for n
    by (induction n) (simp_all add: List.map_filter_simps resError_def)
  moreover have "vcDoMulti refValkey cx (map (\<lambda>(k, v, d). pxCmd k v (floorTTL d)) cmds) w
      = (replicate (length cmds) (Inr []), srvPipe (map (\<lambda>(k, v, d). (k, v, pxArg d)) cmds) w)"
    by (simp add: refValkey_def refDoMulti_set)
  ultimately show ?thesis by (simp add: forwarding_def)
qed

lemma refValkey_batchesHealthy: "redisBatchesHealthy (forwarding refValkey ttl) srvView"
  by (simp add: redisBatchesHealthy_def refValkey_mget refValkey_pipe)

lemma refValkey_batches: "redisBatches (forwarding (refValkey :: (server, 'h) valkeyClient) ttl) srvView pxExpiry"
proof -
  let ?px = "map (\<lambda>(k :: key, v :: bytes, d). (k, v, pxArg d))"
  have fst: "map fst (?px cmds) = map fst cmds" for cmds by (induction cmds) auto
  have item: "srvView (store (srvPipe (?px cmds) w)) t k = (if livesUntil (pxExpiry d w) t then Some v else None)"
    if "distinct (map fst cmds)" "(k, v, d) \<in> set cmds" for cmds k v d t and w :: "(server, 'h) world"
  proof -
    have "(k, v, pxArg d) \<in> set (?px cmds)" using that(2) by force
    then have "store (srvPipe (?px cmds) w) k = Some (v, srvExpiry (pxArg d) w)"
      using that(1) by (intro srvPipe_item) (simp_all only: fst)
    then show ?thesis by (simp add: srvView_def pxExpiry_def pxArg_def)
  qed
  have other: "srvView (store (srvPipe (?px cmds) w)) t k = srvView (store w) t k"
    if "k \<notin> fst ` set cmds" for cmds k t and w :: "(server, 'h) world"
  proof -
    have "fst ` set (?px cmds) = fst ` set cmds" by (metis fst set_map)
    with that srvPipe_other [of w "?px cmds" k] show ?thesis by (simp add: srvView_def)
  qed
  show ?thesis
    unfolding redisBatches_def refValkey_mget refValkey_pipe
  proof (intro conjI)
    show "\<forall>cx cmds (w :: (server, 'h) world) w'. (None, srvPipe (?px cmds) w) = (None, w') \<longrightarrow> distinct (map fst cmds) \<longrightarrow>
        (\<forall>(k, v, d)\<in>set cmds. \<forall>t. srvView (store w') t k = (if livesUntil (pxExpiry d w) t then Some v else None))"
      by (clarify, rule item)
    show "\<forall>cx cmds (w :: (server, 'h) world) q w'. (None, srvPipe (?px cmds) w) = (q, w') \<longrightarrow> advances w w'
        \<and> (\<forall>t k. k \<notin> fst ` set cmds \<longrightarrow> srvView (store w') t k = srvView (store w) t k)"
      using other srvPipe_other by blast
  qed simp
qed

lemma pxArg_floor: "0 < sint d \<Longrightarrow> 0 < sint (pxArg d) \<and> sint d - nsPerMilli < sint (pxArg d)"
proof -
  assume d: "0 < sint d"
  let ?f = "floorTTL d"
  have ge: "sint millisecond \<le> sint ?f" "sint d \<le> sint ?f" using d by (auto simp: floorTTL_def)
  define q where "q = sint ?f div nsPerMilli"
  have q: "1 \<le> q" using zdiv_mono1 [OF ge(1), of nsPerMilli] by (simp add: q_def)
  have low: "sint ?f - nsPerMilli < q * nsPerMilli" "q * nsPerMilli \<le> sint ?f" unfolding q_def by linarith+
  have "sint (milliseconds ?f * millisecond) = q * nsPerMilli"
  proof -
    have "milliseconds ?f = word_of_int (sint (milliseconds ?f))" by simp
    also have "\<dots> = word_of_int q" by (simp only: milliseconds_pos [OF ge(1)] q_def)
    finally have "milliseconds ?f * millisecond = word_of_int (q * nsPerMilli)" by (simp add: millisecond_def)
    then show ?thesis using q low sint64_bounds [of ?f] by (simp only:) (rule sint64_of_int, auto)
  qed
  with q low ge show ?thesis by (simp add: pxArg_def)
qed

lemma pxExpiry_keeps: "keepsTTL pxExpiry"
  unfolding keepsTTL_def
proof (intro allI impI)
  fix d :: duration and w :: "(server, 'h) world" and t :: time
  assume d: "0 < sint d" and t: "t < now w + sint d - nsPerMilli"
  from pxArg_floor [OF d] t show "livesUntil (pxExpiry d w) t"
    unfolding pxExpiry_def pxArg_def [symmetric] by (simp add: srvExpiry_def livesUntil_def tAdd_def)
qed

lemma refValkeyCache_redis:
  "valkeyCache (refValkeyCache opt) p = redisCache (viaRedis (refValkeyCache opt)) p"
  by (rule valkeyCache_redis [where rv = srvView]) (simp_all add: refValkey_replies refValkey_batchesHealthy)

interpretation vkb: batch_cache "valkeyCache (refValkeyCache opt) p"
  "\<lambda>s t k. srvView s t (redisKey (viaRedis (refValkeyCache opt)) k)" "redisExpiry (viaRedis (refValkeyCache opt)) pxExpiry"
  "\<lparr>bGetMany = redisGetMany (viaRedis (refValkeyCache opt)), bSetMany = redisSetMany (viaRedis (refValkeyCache opt))\<rparr>"
  "\<lambda>w n. now w" nsPerMilli for opt p
  unfolding refValkeyCache_redis
  by (rule redis_batch_cache) (simp_all add: refValkey_laws refValkey_batches refValkey_batchesHealthy pxExpiry_keeps)

section \<open>Properties\<close>

text \<open>
  (C22) The batch methods of the two backends agree on every batch, whatever replies the server gives: a batch fails on the Valkey cache
  exactly when it fails on the Redis cache over the forwarding client, a batch that succeeds has the same result and the same
  effects, callbacks included, and a batch that fails leaves the server in the same state; only the report of the failure differs
  (one error per failed reply, and one per key).
\<close>

theorem valkey_batches_refine_redis:
  assumes "repliesAll (vkClient c)"
    and "valkeyGetMany c cx ks w = (r, w1)" "redisGetMany (viaRedis c) cx ks w = (r', w1')"
    and "valkeySetMany c cx kvs ttl w = (q, w2)" "redisSetMany (viaRedis c) cx kvs ttl w = (q', w2')"
  shows "(case r of Inr m \<Rightarrow> r' = Inr m \<and> w1 = w1' | Inl _ \<Rightarrow> (\<exists>e. r' = Inl e) \<and> store w1 = store w1')
    \<and> (case q of None \<Rightarrow> q' = None \<and> w2 = w2' | Some _ \<Rightarrow> q' \<noteq> None \<and> store w2 = store w2')"
  using valkeyGetMany_redis [OF assms(1-3)] valkeySetMany_redis [OF assms(1,4,5)] by blast

text \<open>A server that answers the first command of a batch and refuses the others.\<close>

definition halfValkey :: "(server, unit) valkeyClient" where
  "halfValkey = refValkey\<lparr>vcDoMulti := (\<lambda>cx cmds w. case refDoMulti (take 1 cmds) w of (rs, w1) \<Rightarrow>
     (rs @ map (\<lambda>_. Inl DeadlineExceeded) (drop 1 cmds), w1))\<rparr>"

theorem valkey_batches_refine_redis_witness:
  "let c = (refValkeyCache (initialOptions :: (nat, unit) Options))\<lparr>vkClient := halfValkey\<rparr>; w = clusterWorld Map.empty
   in fst (valkeyGetMany c Background [''a''] w) = Inr Map.empty \<and> fst (redisGetMany (viaRedis c) Background [''a''] w) = Inr Map.empty
     \<and> fst (valkeySetMany c Background [(''a'', [1]), (''b'', [2])] minute w) \<noteq> None
     \<and> fst (redisSetMany (viaRedis c) Background [(''a'', [1]), (''b'', [2])] minute w) \<noteq> None"
proof -
  let ?c = "(refValkeyCache (initialOptions :: (nat, unit) Options))\<lparr>vkClient := halfValkey\<rparr>" and ?w = "clusterWorld Map.empty"
  let ?g = "valkeyGetMany ?c Background [''a''] ?w" and ?g' = "redisGetMany (viaRedis ?c) Background [''a''] ?w"
  let ?s = "valkeySetMany ?c Background [(''a'', [1]), (''b'', [2])] minute ?w"
  let ?s' = "redisSetMany (viaRedis ?c) Background [(''a'', [1]), (''b'', [2])] minute ?w"
  have e: "?g = (fst ?g, snd ?g)" "?g' = (fst ?g', snd ?g')" "?s = (fst ?s, snd ?s)" "?s' = (fst ?s', snd ?s')" by simp_all
  have "length (fst (vcDoMulti halfValkey cx cmds w)) = length cmds" for cx cmds w
  proof -
    have "length (fst (refDoMulti (take 1 cmds) w)) = length (take 1 cmds)" by (rule refDoMulti_length)
    then show ?thesis by (cases cmds) (auto simp: halfValkey_def split: prod.splits)
  qed
  moreover have "length (fst (vcDoMultiCache halfValkey cx cmds w)) = length cmds" for cx cmds w
    by (simp add: halfValkey_def refValkey_def refDoMulti_length)
  ultimately have "repliesAll (vkClient ?c)" by (simp add: repliesAll_def)
  note agree = valkey_batches_refine_redis [OF this e]
  have g: "fst ?g = Inr Map.empty"
    by (simp add: valkeyGetMany_def opContext_def refValkeyCache_def newValkeyFromClient_def initialOptions_def halfValkey_def
        refValkey_def srvView_def nilReply_def)
  have "fst ?s \<noteq> None"
    by (simp add: valkeySetMany_def opContext_def refValkeyCache_def newValkeyFromClient_def initialOptions_def halfValkey_def
        refValkey_def rangeItems_def rangeMap_def clusterWorld_def demoWorld_def demoRuntime_def setCmd_def valkeyTTLFor_def applyJitter_def resError_def
        Let_def)
  with agree g show ?thesis unfolding Let_def by (auto split: option.splits)
qed

end
