(* ===== verification/Fleet.thy ===== *)
theory Fleet
  imports Interleaving
begin

text \<open>
  Several processes over one cache server: every process runs the machine of theory Interleaving, with calls and a
  single-flight group of its own, and they all share the world, that is the server and the time. A step of the fleet is a step of one
  process; between two steps of a process the others may have changed the server.

  What holds of every process of a fleet is proved by rely and guarantee: an invariant of one process that its own steps keep, and
  that is stable under what every step of any process guarantees about the world (locale \<open>stable_process\<close>).
\<close>

section \<open>The fleet\<close>

text \<open>The world a process sees is the shared one; its own copy is whatever the world was after its last step.\<close>

record ('v, 's, 'h, 'g) fleet =
  fWorld :: "('s, 'h) world"
  fProc :: "nat \<Rightarrow> ('v, 's, 'h, 'g) machine"

definition newFleet :: "('s, 'h) world \<Rightarrow> 'g \<Rightarrow> ('v, 's, 'h, 'g) fleet" where
  "newFleet w g = \<lparr>fWorld = w, fProc = (\<lambda>_. newMachine w g)\<rparr>"

definition procView :: "('v, 's, 'h, 'g) fleet \<Rightarrow> nat \<Rightarrow> ('v, 's, 'h, 'g) machine" where
  "procView F p = (fProc F p)\<lparr>mWorld := fWorld F\<rparr>"

definition procStepped :: "('v, 's, 'h, 'g) fleet \<Rightarrow> nat \<Rightarrow> ('v, 's, 'h, 'g) machine \<Rightarrow> ('v, 's, 'h, 'g) fleet" where
  "procStepped F p s = \<lparr>fWorld = mWorld s, fProc = (fProc F)(p := s)\<rparr>"

type_synonym ('v, 's, 'h) fleetEvent = "nat \<times> ('v, 's, 'h) machineEvent"

inductive fstep :: "('s, 'h) Cache \<Rightarrow> 'g sfOps \<Rightarrow> ('v, 's, 'h, 'g) fleet \<Rightarrow> ('v, 's, 'h) fleetEvent \<Rightarrow>
    ('v, 's, 'h, 'g) fleet \<Rightarrow> bool" for c sf where
  proc: "mstep c sf (procView F p) ev s \<Longrightarrow> fstep c sf F (p, ev) (procStepped F p s)"

inductive frun :: "('s, 'h) Cache \<Rightarrow> 'g sfOps \<Rightarrow> ('v, 's, 'h, 'g) fleet \<Rightarrow> ('v, 's, 'h) fleetEvent list \<Rightarrow>
    ('v, 's, 'h, 'g) fleet \<Rightarrow> bool" for c sf F0 where
  frun_init: "frun c sf F0 [] F0"
| frun_step: "frun c sf F0 evs F \<Longrightarrow> fstep c sf F ev F' \<Longrightarrow> frun c sf F0 (evs @ [ev]) F'"

inductive_cases fstepE: "fstep c sf F (p, ev) F'"

text \<open>The events of one process.\<close>

definition eventsOf :: "nat \<Rightarrow> ('v, 's, 'h) fleetEvent list \<Rightarrow> ('v, 's, 'h) machineEvent list" where
  "eventsOf p evs = map snd (filter (\<lambda>e. fst e = p) evs)"

lemma eventsOf_simps [simp]:
  "eventsOf p [] = []" "eventsOf p (xs @ ys) = eventsOf p xs @ eventsOf p ys"
  "eventsOf p ((q, ev) # evs) = (if q = p then ev # eventsOf p evs else eventsOf p evs)"
  by (simp_all add: eventsOf_def)

lemma eventsOf_own [simp]: "eventsOf p (map (Pair q) evs) = (if q = p then evs else [])"
  by (induction evs) (auto split: if_splits)

lemma set_eventsOf: "ev \<in> set (eventsOf p evs) \<longleftrightarrow> (p, ev) \<in> set evs"
  by (force simp: eventsOf_def)

lemma procView_sel [simp]:
  "mWorld (procView F p) = fWorld F" "mCalls (procView F p) = mCalls (fProc F p)"
  "mBodies (procView F p) = mBodies (fProc F p)" "mGroup (procView F p) = mGroup (fProc F p)"
  by (simp_all add: procView_def)

lemma procView_new [simp]: "procView (newFleet w g) p = newMachine w g"
  by (simp add: procView_def newFleet_def newMachine_def)

lemma newMachine_world [simp]: "(newMachine w g)\<lparr>mWorld := w'\<rparr> = newMachine w' g"
  by (simp add: newMachine_def)

lemma procStepped_sel [simp]:
  "fWorld (procStepped F p s) = mWorld s" "procView (procStepped F p s) p = s"
  "q \<noteq> p \<Longrightarrow> procView (procStepped F p s) q = (procView F q)\<lparr>mWorld := mWorld s\<rparr>"
  by (simp_all add: procStepped_def procView_def)

lemma frun_append: "frun c sf F1 es' F2 \<Longrightarrow> frun c sf F0 es F1 \<Longrightarrow> frun c sf F0 (es @ es') F2"
proof (induction rule: frun.induct)
  case (frun_step evs F ev F')
  from frun.frun_step [OF frun_step.IH [OF frun_step.prems] frun_step.hyps(2)] show ?case by simp
qed simp

text \<open>A process that runs alone for a while.\<close>

lemma frun_alone:
  assumes "mrun c sf (procView F p) evs s"
  shows "\<exists>F'. frun c sf F (map (Pair p) evs) F' \<and> procView F' p = s \<and> fWorld F' = mWorld s
    \<and> (\<forall>q. q \<noteq> p \<longrightarrow> procView F' q = (procView F q)\<lparr>mWorld := mWorld s\<rparr>)"
  using assms
proof (induction rule: mrun.induct)
  case mrun_init
  show ?case by (rule exI [of _ F]) (auto intro: frun_init simp: procView_def)
next
  case (mrun_step evs s ev s')
  then obtain F' where F': "frun c sf F (map (Pair p) evs) F'" "procView F' p = s"
    "\<forall>q. q \<noteq> p \<longrightarrow> procView F' q = (procView F q)\<lparr>mWorld := mWorld s\<rparr>" by blast
  from mrun_step.hyps(2) have "fstep c sf F' (p, ev) (procStepped F' p s')" unfolding F'(2) [symmetric] by (rule proc)
  from frun_step [OF F'(1) this] F'(3) show ?case by (intro exI [of _ "procStepped F' p s'"]) simp
qed

section \<open>Rely and guarantee\<close>

text \<open>
  \<open>inv\<close> is the invariant of a process, with its events so far, \<open>rely\<close> what a step of any process does to the world, and
  \<open>ok\<close> an assumption on the events, such as what the loaders of the arriving calls do.
\<close>

locale stable_process =
  fixes c :: "('s, 'h) Cache" and sf :: "'g sfOps" and w0 :: "('s, 'h) world" and g0 :: 'g
    and inv :: "('v, 's, 'h) machineEvent list \<Rightarrow> ('v, 's, 'h, 'g) machine \<Rightarrow> bool"
    and rely :: "('s, 'h) world \<Rightarrow> ('s, 'h) world \<Rightarrow> bool"
    and ok :: "('v, 's, 'h) machineEvent \<Rightarrow> bool"
  assumes inv_init: "inv [] (newMachine w0 g0)"
    and inv_step: "inv evs s \<Longrightarrow> mstep c sf s ev s' \<Longrightarrow> ok ev \<Longrightarrow> inv (evs @ [ev]) s' \<and> rely (mWorld s) (mWorld s')"
    and inv_stable: "inv evs s \<Longrightarrow> rely (mWorld s) w \<Longrightarrow> inv evs (s\<lparr>mWorld := w\<rparr>)"
begin

text \<open>A process alone, and every process of a fleet.\<close>

lemma mrun_inv: "mrun c sf (newMachine w0 g0) evs s \<Longrightarrow> (\<forall>ev\<in>set evs. ok ev) \<Longrightarrow> inv evs s"
  by (induction rule: mrun.induct) (simp_all add: inv_init inv_step)

lemma frun_inv:
  "frun c sf (newFleet w0 g0) evs F \<Longrightarrow> (\<forall>(p, ev)\<in>set evs. ok ev) \<Longrightarrow> inv (eventsOf p evs) (procView F p)"
proof (induction arbitrary: p rule: frun.induct)
  case frun_init
  show ?case by (simp add: inv_init)
next
  case (frun_step evs F ev F')
  obtain q e where ev: "ev = (q, e)" by force
  from frun_step.hyps(2) obtain s where st: "mstep c sf (procView F q) e s" and F': "F' = procStepped F q s"
    unfolding ev by (rule fstepE) blast
  have ok: "\<forall>(p, ev)\<in>set evs. ok ev" "ok e" using frun_step.prems ev by auto
  from inv_step [OF frun_step.IH [OF ok(1)] st ok(2)]
  have s: "inv (eventsOf q evs @ [e]) s" "rely (fWorld F) (mWorld s)" by simp_all
  show ?case
  proof (cases "p = q")
    case True
    with s(1) F' ev show ?thesis by simp
  next
    case False
    with inv_stable [OF frun_step.IH [OF ok(1)], of p "mWorld s"] s(2) F' ev show ?thesis by simp
  qed
qed

end

text \<open>
  A second invariant on top of the first, which holds as long as the world is early: before some instant, with assumptions on the
  start that are part of \<open>early\<close>. An early world was early before.
\<close>

locale timed_process = stable_process +
  fixes tinv :: "('c, 'a, 'b) machineEvent list \<Rightarrow> ('c, 'a, 'b, 'd) machine \<Rightarrow> bool"
    and trely :: "('a, 'b) world \<Rightarrow> ('a, 'b) world \<Rightarrow> bool"
    and tok :: "('c, 'a, 'b) machineEvent \<Rightarrow> bool" and early :: "('a, 'b) world \<Rightarrow> bool"
  assumes tok: "tok ev \<Longrightarrow> ok ev"
    and tinv_init: "early w0 \<Longrightarrow> tinv [] (newMachine w0 g0)"
    and tinv_step: "inv evs s \<Longrightarrow> tinv evs s \<Longrightarrow> mstep c sf s ev s' \<Longrightarrow> tok ev \<Longrightarrow> early (mWorld s) \<Longrightarrow> early (mWorld s') \<Longrightarrow>
      tinv (evs @ [ev]) s' \<and> trely (mWorld s) (mWorld s')"
    and tinv_stable: "tinv evs s \<Longrightarrow> trely (mWorld s) w \<Longrightarrow> tinv evs (s\<lparr>mWorld := w\<rparr>)"
    and early_back: "inv evs s \<Longrightarrow> mstep c sf s ev s' \<Longrightarrow> tok ev \<Longrightarrow> early (mWorld s') \<Longrightarrow> early (mWorld s)"
begin

lemma mrun_tinv:
  "mrun c sf (newMachine w0 g0) evs s \<Longrightarrow> (\<forall>ev\<in>set evs. tok ev) \<Longrightarrow> early (mWorld s) \<Longrightarrow> tinv evs s"
proof (induction rule: mrun.induct)
  case mrun_init
  then have "early w0" by (simp add: newMachine_def)
  then show ?case by (rule tinv_init)
next
  case (mrun_step evs s ev s')
  have ok: "\<forall>ev\<in>set evs. tok ev" "tok ev" using mrun_step.prems(1) by simp_all
  then have inv: "inv evs s" using tok by (intro mrun_inv [OF mrun_step.hyps(1)]) blast
  have "early (mWorld s)" by (rule early_back [OF inv mrun_step.hyps(2) ok(2) mrun_step.prems(2)])
  with tinv_step [OF inv mrun_step.IH [OF ok(1)] mrun_step.hyps(2) ok(2) _ mrun_step.prems(2)] show ?case by blast
qed

lemma frun_tinv:
  "frun c sf (newFleet w0 g0) evs F \<Longrightarrow> (\<forall>(p, ev)\<in>set evs. tok ev) \<Longrightarrow> early (fWorld F) \<Longrightarrow>
   tinv (eventsOf p evs) (procView F p)"
proof (induction arbitrary: p rule: frun.induct)
  case frun_init
  then have "early w0" by (simp add: newFleet_def)
  then show ?case by (simp add: tinv_init)
next
  case (frun_step evs F ev F')
  obtain q e where ev: "ev = (q, e)" by force
  from frun_step.hyps(2) obtain s where st: "mstep c sf (procView F q) e s" and F': "F' = procStepped F q s"
    unfolding ev by (rule fstepE) blast
  have ok: "\<forall>(p, ev)\<in>set evs. tok ev" "tok e" and late: "early (mWorld s)" using frun_step.prems ev F' by auto
  have "inv (eventsOf q evs) (procView F q)" by (rule frun_inv [OF frun_step.hyps(1)]) (use ok(1) tok in blast)
  note e = early_back [OF this st ok(2) late] and step = tinv_step [OF this _ st ok(2)]
  have IH: "tinv (eventsOf p evs) (procView F p)" for p by (rule frun_step.IH [OF ok(1)]) (use e in simp)
  from step [OF IH e late] have s: "tinv (eventsOf q evs @ [e]) s" "trely (fWorld F) (mWorld s)" by simp_all
  show ?case
  proof (cases "p = q")
    case True
    with s(1) F' ev show ?thesis by simp
  next
    case False
    with tinv_stable [OF IH, of p "mWorld s"] s(2) F' ev show ?thesis by simp
  qed
qed

end

end
