(* ===== verification/Herd.thy ===== *)
theory Herd
  imports Fleet
begin

text \<open>
  The thundering herd: any number of \<open>GetOrSet\<close> calls for one absent key, arriving at any time and
  interleaved in any way with each other and with calls for other keys, on a cache with the contract. Until the
  stored entry ends its freshness window the key's loader is called at most once, and every call
  for the key that returns has the loaded value, unless its own context ended first.

  The proof is an invariant of the machine of theory Interleaving. It has three shapes, by what has happened to the
  key so far: nothing loaded, the one load under way, the load over. It does not rely on being alone: it is stable under
  whatever other processes with the same invariant do to a shared cache (\<open>entryMoves\<close>, theory Fleet).
\<close>

section \<open>Setting\<close>

text \<open>An entry that serves \<open>v\<close> and is fresh until \<open>D\<close>.\<close>

definition goodEntry :: "'v Codec \<Rightarrow> 'h cacheConfig \<Rightarrow> 'v \<Rightarrow> time \<Rightarrow> bytes \<Rightarrow> bool" where
  "goodEntry codec cfg v D data \<longleftrightarrow> \<not> isNegativeEntry data \<and> Unmarshal codec (snd (parseStored cfg data)) = Inr v
     \<and> (\<forall>t<D. \<not> stale (fst (parseStored cfg data)) t)"

text \<open>
  The calls of the herd agree on codec, TTL and loaded value; calls for other keys are
  arbitrary, but their loaders leave the cache alone.
\<close>

definition herdCall :: "key \<Rightarrow> duration \<Rightarrow> 'v Codec \<Rightarrow> 'v \<Rightarrow> ('v, 's, 'h) call \<Rightarrow> bool" where
  "herdCall k ttl codec v j \<longleftrightarrow>
     (if clKey j = k then clTTL j = ttl \<and> clCodec j = codec \<and> loads (clLoader j) (Ret v)
      else \<exists>r. loads (clLoader j) r)"

definition herdRun :: "key \<Rightarrow> duration \<Rightarrow> 'v Codec \<Rightarrow> 'v \<Rightarrow> ('v, 's, 'h) machineEvent list \<Rightarrow> bool" where
  "herdRun k ttl codec v evs \<longleftrightarrow> (\<forall>a j. Called a j \<in> set evs \<longrightarrow> herdCall k ttl codec v j)"

text \<open>How often the loader of a key was called.\<close>

fun loaderCalls :: "key \<Rightarrow> ('v, 's, 'h) machineEvent list \<Rightarrow> nat" where
  "loaderCalls k [] = 0"
| "loaderCalls k (LoaderCalled i k' # evs) = (if k' = k then 1 else 0) + loaderCalls k evs"
| "loaderCalls k (ev # evs) = loaderCalls k evs"

lemma loaderCalls_append [simp]: "loaderCalls k (xs @ ys) = loaderCalls k xs + loaderCalls k ys"
  by (induction k xs rule: loaderCalls.induct) simp_all

text \<open>Storing \<open>v\<close> at any moment of the run gives an entry that is good until \<open>D\<close> and lives as long.\<close>

definition storesGood :: "('s, 'h) Cache \<Rightarrow> (bytes \<Rightarrow> duration \<Rightarrow> ('s, 'h) world \<Rightarrow> time option) \<Rightarrow> duration \<Rightarrow>
    'v Codec \<Rightarrow> 'h cacheConfig \<Rightarrow> 'v \<Rightarrow> ('s, 'h) world \<Rightarrow> time \<Rightarrow> bool" where
  "storesGood c expiry ttl codec cfg v w0 D \<longleftrightarrow> (\<exists>p. Marshal codec v = Inr p \<and>
     (\<forall>d w data st w1. advances w0 w \<longrightarrow> now w < D \<longrightarrow> configOf c w = cfg \<longrightarrow> packForStore p ttl d cfg w = ((data, st), w1) \<longrightarrow>
        goodEntry codec cfg v D data \<and> (\<forall>t<D. livesUntil (expiry data st w1) t)))"

section \<open>What the steps do to the cache\<close>

text \<open>A step of the world that the entry of \<open>k\<close> survives.\<close>

definition keeps :: "('s, 'h) Cache \<Rightarrow> ('s \<Rightarrow> time \<Rightarrow> key \<Rightarrow> bytes option) \<Rightarrow> key \<Rightarrow> ('s, 'h) world \<Rightarrow>
    ('s, 'h) world \<Rightarrow> bool" where
  "keeps c view k w w' \<longleftrightarrow> advances w w' \<and> configOf c w' = configOf c w
     \<and> (\<forall>t. now w' \<le> t \<longrightarrow> view (store w') t k = view (store w) t k)"

lemma keeps_refl [simp]: "keeps c view k w w"
  by (simp add: keeps_def)

lemma keeps_store:
  assumes "advances w w'" "store w' = store w"
  shows "keeps c view k w w'"
  using assms configOf_cong [OF assms(2), of c] by (simp add: keeps_def)

lemma keeps_trans:
  assumes "keeps c view k w w1" "keeps c view k w1 w2" "wfRuntime (rt w)"
  shows "keeps c view k w w2"
proof -
  have "wfRuntime (rt w1)" using assms(1,3) by (auto simp: keeps_def dest: advances_rt)
  then have "now w1 \<le> now w2" using assms(2) by (auto simp: keeps_def intro: now_mono)
  with assms(1,2) show ?thesis by (auto simp: keeps_def intro: advances_trans)
qed

context reliable_cache begin

lemma keeps_get:
  assumes "cGet c cx k' w = (r, w')" "wfRuntime (rt w)"
  shows "keeps c view k w w'"
proof -
  have "now w \<le> now w'" using assms(2) get_advances [OF assms(1)] by (rule now_mono)
  then have "now w' \<le> t \<Longrightarrow> view (store w') t k = view (store w) t k" for t
    using get_steady [OF assms(1)] by simp
  with get_advances [OF assms(1)] get_config [OF assms(1)] show ?thesis unfolding keeps_def by blast
qed

lemma keeps_set:
  assumes "cSet c cx k' v ttl w = (q, w')" "k' \<noteq> k"
  shows "keeps c view k w w'"
  using set_advances [OF assms(1)] set_config [OF assms(1)] set_other [OF assms(1) assms(2) [symmetric]]
  unfolding keeps_def by blast

lemma keeps_heal:
  assumes "clKey j \<noteq> k"
  shows "keeps c view k w (healEntry c j cx e w)"
proof -
  let ?w1 = "hookError (hooks (clCfg j)) OpDecode (clKey j) e w"
  obtain q w' where d: "cDelete c cx (clKey j) ?w1 = (q, w')" by force
  have "advances w w'" using delete_advances [OF d] by simp
  moreover have "configOf c w' = configOf c w"
    using delete_config [OF d] configOf_cong [of ?w1 w c] by simp
  moreover have "view (store w') t k = view (store w) t k" for t using delete_other [OF d, of k] assms by simp
  ultimately show ?thesis using d by (simp add: keeps_def healEntry_def)
qed


lemma keeps_timeNow: "timeNow w = (t, w') \<Longrightarrow> keeps c view k w w'"
  by (rule keeps_store) (auto dest: timeNow_frame)

lemma lookupRead_keeps:
  assumes "lookupRead c j w = (ls, w')" "wfRuntime (rt w)"
  shows "keeps c view k w w'"
proof -
  obtain r w1 where g: "cGet c (clCtx j) (clKey j) w = (r, w1)" by force
  have "advances w1 w' \<and> store w' = store w1"
    using assms(1) g
    by (auto simp: lookupRead_def timeNow_def split: sum.splits if_splits prod.splits
        dest!: shouldEarlyRefresh_frame)
      (auto simp: advances_def)
  then have "keeps c view k w1 w'" by (simp add: keeps_store)
  from keeps_trans [OF keeps_get [OF g assms(2)] this assms(2)] show ?thesis .
qed

lemma recheckRead_keeps:
  assumes "recheckRead c j opts fctx w = (rs, w')" "wfRuntime (rt w)"
  shows "keeps c view k w w'"
proof -
  obtain r w1 where g: "cGet c fctx (clKey j) w = (r, w1)" by force
  have "advances w1 w' \<and> store w' = store w1"
    using assms(1) g by (auto simp: recheckRead_def timeNow_def Let_def advances_def split: sum.splits if_splits prod.splits)
  then have "keeps c view k w1 w'" by (simp add: keeps_store)
  from keeps_trans [OF keeps_get [OF g assms(2)] this assms(2)] show ?thesis .
qed

lemma flightContext_keeps: "flightContext base opts w = (fctx, w') \<Longrightarrow> keeps c view k w w'"
  by (rule keeps_store) (auto dest: flightContext_frame)

lemma finishLoad_outcome:
  assumes "loads (clLoader j) r" "finishLoad j fctx start w = (res, w')"
  shows "loadedAs r res" "keeps c view k w w'"
proof -
  obtain o' w1 where l: "clLoader j fctx w = (o', w1)" by force
  from assms(1) have "fst (clLoader j fctx w) = r" "advances w (snd (clLoader j fctx w))"
    "store (snd (clLoader j fctx w)) = store w" unfolding loads_def by blast+
  with l have f: "o' = r" "advances w w1" "store w1 = store w" by auto
  with assms(2) l have "loadedAs r res \<and> advances w w' \<and> store w' = store w"
    by (cases r) (auto simp: finishLoad_def timeNow_def advances_def)
  then show "loadedAs r res" "keeps c view k w w'" by (auto intro: keeps_store)
qed

lemma storeLoaded_keeps:
  assumes "storeLoaded c k' ttl codec cfg fctx res w = (out, w')" "k' \<noteq> k" "wfRuntime (rt w)"
  shows "keeps c view k w w'"
proof -
  have set: "keeps c view k w1 (snd (cSet c fctx k' data st w1))" for data st w1
    by (cases "cSet c fctx k' data st w1") (simp add: keeps_set assms(2))
  show ?thesis
  proof (cases res)
    case (Ret vd)
    obtain v d where vd: "vd = (v, d)" by force
    show ?thesis
    proof (cases "Marshal codec v")
      case (Inl merr)
      with assms(1) Ret vd have "w' = hookError (hooks cfg) OpEncode k' merr w" by (simp add: storeLoaded_def)
      then show ?thesis by (simp add: keeps_store)
    next
      case (Inr payload)
      obtain data st w1 where pk: "packForStore payload ttl d cfg w = ((data, st), w1)" by (metis surj_pair)
      with assms(1) Ret vd Inr have "w' = snd (cSet c fctx k' data st w1)" by (auto simp: storeLoaded_def)
      moreover have "keeps c view k w w1" using packForStore_frame [OF pk] by (simp add: keeps_store)
      ultimately show ?thesis using keeps_trans [OF _ set assms(3)] by simp
    qed
  next
    case (Err e)
    with assms(1) set show ?thesis by (auto simp: storeLoaded_def split: if_splits)
  next
    case (Panic p)
    with assms(1) show ?thesis by (simp add: storeLoaded_def)
  qed
qed

lemma refreshOutcome_keeps: "refreshOutcome j out w = (out', w') \<Longrightarrow> keeps c view k w w'"
  by (rule keeps_store) (auto simp: refreshOutcome_def Let_def split: outcome.splits)


text \<open>The steps of a call or flight for the key itself.\<close>

lemma lookupRead_absent:
  assumes "view (store w) (now w) (clKey j) = None" "lookupRead c j w = (ls, w')"
  shows "ls = Miss"
proof -
  obtain e w1 where "cGet c (clCtx j) (clKey j) w = (Inl e, w1)" using assms(1) by (rule get_absent)
  with assms(2) show ?thesis by (simp add: lookupRead_def)
qed

lemma lookupRead_good:
  assumes "view (store w) (now w) (clKey j) = Some data" "goodEntry (clCodec j) (clCfg j) v D data"
    and "earlyRefreshBeta (clCfg j) \<le> 0" "lookupRead c j w = (ls, w')" "now w' < D" "wfRuntime (rt w)"
  shows "ls = Answer (Inr v) None"
proof -
  obtain w1 where g: "cGet c (clCtx j) (clKey j) w = (Inr data, w1)" using assms(1) by (rule get_present)
  obtain env p where e: "parseStored (clCfg j) data = (env, p)" by force
  obtain t w2 where t: "timeNow w1 = (t, w2)" by force
  have off: "shouldEarlyRefresh env t (earlyRefreshBeta (clCfg j)) w2 = (False, w2)"
    using assms(3) by (intro early_refresh_off) simp
  have w': "w' = w2" and ls: "\<not> stale env t \<Longrightarrow> ls = Answer (Inr v) None"
    using assms(2,4) g e t off by (auto simp: goodEntry_def lookupRead_def split: if_splits)
  have "wfRuntime (rt w1)" using get_advances [OF g] assms(6) by (auto dest: advances_rt)
  then have "t < D" using timeNow_frame [OF t] now_mono [of w1 w2] assms(5) w' by simp
  with assms(2) e ls show ?thesis by (simp add: goodEntry_def)
qed

lemma recheckRead_absent:
  assumes "flightContext base opts w = (fctx, w1)" "recheckRead c j opts fctx w1 = (rs, w')" "wfRuntime (rt w)"
    and "\<forall>t. now w \<le> t \<longrightarrow> view (store w) t (clKey j) = None"
  shows "rs = NotFound"
proof -
  note f = flightContext_frame [OF assms(1)]
  have "now w \<le> now w1" using assms(3) f by (intro now_mono) simp_all
  then have "view (store w1) (now w1) (clKey j) = None" using f assms(4) by simp
  then obtain e w2 where "cGet c fctx (clKey j) w1 = (Inl e, w2)" by (rule get_absent)
  with assms(2) show ?thesis by (simp add: recheckRead_def)
qed

lemma recheckRead_good:
  assumes "flightContext base missOpts w = (fctx, w1)" "recheckRead c j missOpts fctx w1 = (rs, w')" "wfRuntime (rt w)"
    and "\<forall>t. now w \<le> t \<longrightarrow> t < D \<longrightarrow> view (store w) t (clKey j) = Some data"
    and "goodEntry (clCodec j) (clCfg j) v D data" "now w' < D"
  shows "rs = Found data"
proof -
  note f = flightContext_frame [OF assms(1)]
  have le: "now w \<le> now w1" and wf1: "wfRuntime (rt w1)"
    using assms(3) f by (auto intro: now_mono dest: advances_rt)
  then have "now w1 \<le> now w'"
    using recheckRead_keeps [OF assms(2)] by (auto simp: keeps_def intro: now_mono)
  then have "view (store w1) (now w1) (clKey j) = Some data" using f assms(4,6) le by simp
  then obtain w2 where g: "cGet c fctx (clKey j) w1 = (Inr data, w2)" by (rule get_present)
  obtain env p where e: "parseStored (clCfg j) data = (env, p)" by force
  obtain t w3 where t: "timeNow w2 = (t, w3)" by force
  have r: "isZero (refreshOf missOpts)" by (simp add: missOpts_def isZero_def)
  have "w' = w3" and found: "\<not> stale env t \<Longrightarrow> rs = Found data"
    using assms(2,5) g e t r by (auto simp: goodEntry_def recheckRead_def Let_def split: if_splits sum.splits)
  have "wfRuntime (rt w2)" using get_advances [OF g] wf1 by (auto dest: advances_rt)
  then have "t < D" using timeNow_frame [OF t] now_mono [of w2 w3] assms(6) \<open>w' = w3\<close> by simp
  with assms(5) e found show ?thesis by (simp add: goodEntry_def)
qed

text \<open>Storing the loaded value.\<close>

lemma storeLoaded_good:
  assumes "storesGood c expiry ttl codec cfg v w0 D" "advances w0 w" "now w < D" "configOf c w = cfg" "wfRuntime (rt w)"
    and "storeLoaded c k ttl codec cfg fctx (Ret (v, d)) w = (out, w')"
  obtains data where "out = Ret data" "goodEntry codec cfg v D data" "advances w w'" "configOf c w' = cfg"
    "\<forall>t<D. view (store w') t k = Some data"
proof -
  obtain p where p: "Marshal codec v = Inr p" and good: "\<forall>d w data st w1. advances w0 w \<longrightarrow> now w < D \<longrightarrow> configOf c w = cfg \<longrightarrow>
      packForStore p ttl d cfg w = ((data, st), w1) \<longrightarrow>
      goodEntry codec cfg v D data \<and> (\<forall>t<D. livesUntil (expiry data st w1) t)"
    using assms(1) unfolding storesGood_def by blast
  obtain data st w1 w2 where pk: "packForStore p ttl d cfg w = ((data, st), w1)"
    and sl: "storeLoaded c k ttl codec cfg fctx (Ret (v, d)) w = (Ret data, w2)"
    and adv: "advances w w2"
    and vw: "\<forall>t. view (store w2) t k = (if livesUntil (expiry data st w1) t then Some data else None)"
    and oth: "\<forall>t k'. k' \<noteq> k \<longrightarrow> view (store w2) t k' = view (store w) t k'"
    and cf: "configOf c w2 = configOf c w"
    by (rule storeLoaded_ret [where ttl = ttl and d = d and cfg = cfg and w = w and k = k and fctx = fctx, OF p])
  from good [rule_format, OF assms(2-4) pk] have g: "goodEntry codec cfg v D data"
    "\<forall>t<D. livesUntil (expiry data st w1) t" by blast+
  show ?thesis
    by (rule that [of data]) (use sl assms(4,6) g adv cf vw in auto)
qed

end

section \<open>The invariant\<close>

definition callerOk :: "'v \<Rightarrow> caller option \<Rightarrow> 'v callerPc \<Rightarrow> bool" where
  "callerOk v g pc \<longleftrightarrow> (case pc of
      Healing _ \<Rightarrow> False
    | Refreshing _ _ \<Rightarrow> False
    | Done r \<Rightarrow> r = Inr v \<or> (\<exists>i e. g = Some (GaveUp i e) \<and> r = Inl e)
    | _ \<Rightarrow> True)"

definition bodyOk :: "'v \<Rightarrow> 'v flightPc \<Rightarrow> bool" where
  "bodyOk v pc \<longleftrightarrow> (case pc of FHealing _ _ \<Rightarrow> False | Loaded _ res \<Rightarrow> loadedAs (Ret v) res | _ \<Rightarrow> True)"

definition loading :: "'v flightPc \<Rightarrow> bool" where
  "loading pc \<longleftrightarrow> (case pc of InLoader _ _ \<Rightarrow> True | Loaded _ _ \<Rightarrow> True | _ \<Rightarrow> False)"

definition keyBody :: "key \<Rightarrow> ('v, 's, 'h, 'g) machine \<Rightarrow> nat \<Rightarrow> ('v, 's, 'h) body \<Rightarrow> bool" where
  "keyBody k s i b \<longleftrightarrow> mBodies s i = Some b \<and> clKey (bdCall b) = k"

text \<open>The calls, the running functions, and the results of the flights that have returned.\<close>

definition herdCalls :: "key \<Rightarrow> duration \<Rightarrow> 'v Codec \<Rightarrow> 'h cacheConfig \<Rightarrow> 'v \<Rightarrow> ('v, 's, 'h, 'g) machine \<Rightarrow> bool" where
  "herdCalls k ttl codec cfg v s \<longleftrightarrow> (\<forall>a j pc. mCalls s a = Some (j, pc) \<longrightarrow>
     herdCall k ttl codec v j \<and> clCfg j = cfg \<and> (clKey j = k \<longrightarrow> callerOk v (callers (mGroup s) a) pc))"

definition herdBodies :: "key \<Rightarrow> duration \<Rightarrow> 'v Codec \<Rightarrow> 'h cacheConfig \<Rightarrow> 'v \<Rightarrow> ('v, 's, 'h, 'g) machine \<Rightarrow> bool" where
  "herdBodies k ttl codec cfg v s \<longleftrightarrow> (\<forall>i b. mBodies s i = Some b \<longrightarrow>
     herdCall k ttl codec v (bdCall b) \<and> clCfg (bdCall b) = cfg
     \<and> (clKey (bdCall b) = k \<longrightarrow> bdOpts b = missOpts \<and> \<not> bdRefresh b \<and> bodyOk v (bdPc b)))"

definition herdResults :: "('s, 'h) Cache \<Rightarrow> key \<Rightarrow> 'v Codec \<Rightarrow> 'h cacheConfig \<Rightarrow> 'v \<Rightarrow> time \<Rightarrow>
    ('v, 's, 'h, 'g) machine \<Rightarrow> bool" where
  "herdResults c k codec cfg v D s \<longleftrightarrow> (\<forall>i f r. flights (mGroup s) i = Some f \<longrightarrow> fKey f = flightKey c k \<longrightarrow>
     fPhase f = Returned r \<or> fPhase f = Finished r \<longrightarrow> (\<exists>data. r = Inr data \<and> goodEntry codec cfg v D data))"

text \<open>What the cache holds for the key: nothing, or a good entry.\<close>

definition absentFrom :: "('s \<Rightarrow> time \<Rightarrow> key \<Rightarrow> bytes option) \<Rightarrow> key \<Rightarrow> ('s, 'h) world \<Rightarrow> bool" where
  "absentFrom view k w \<longleftrightarrow> (\<forall>t. now w \<le> t \<longrightarrow> view (store w) t k = None)"

definition goodUntil :: "('s \<Rightarrow> time \<Rightarrow> key \<Rightarrow> bytes option) \<Rightarrow> key \<Rightarrow> 'v Codec \<Rightarrow> 'h cacheConfig \<Rightarrow> 'v \<Rightarrow> time \<Rightarrow>
    ('s, 'h) world \<Rightarrow> bool" where
  "goodUntil view k codec cfg v D w \<longleftrightarrow> (\<exists>data. goodEntry codec cfg v D data
     \<and> (\<forall>t. now w \<le> t \<longrightarrow> t < D \<longrightarrow> view (store w) t k = Some data))"

text \<open>
  And how far its load is: not begun, under way, or over, with the entry stored and no function of the key past its
  re-check. Before and during the load the entry may be there already when another process stored it.
\<close>

definition herdContent :: "('s \<Rightarrow> time \<Rightarrow> key \<Rightarrow> bytes option) \<Rightarrow> key \<Rightarrow> 'v Codec \<Rightarrow> 'h cacheConfig \<Rightarrow> 'v \<Rightarrow> time \<Rightarrow>
    nat \<Rightarrow> ('v, 's, 'h, 'g) machine \<Rightarrow> bool" where
  "herdContent view k codec cfg v D n s \<longleftrightarrow> (absentFrom view k (mWorld s) \<or> goodUntil view k codec cfg v D (mWorld s))
   \<and> ((n = 0 \<and> (\<forall>i b. keyBody k s i b \<longrightarrow> \<not> loading (bdPc b)))
    \<or> (n = 1 \<and> (\<exists>i b. keyBody k s i b \<and> loading (bdPc b)))
    \<or> (n = 1 \<and> goodUntil view k codec cfg v D (mWorld s) \<and> (\<forall>i b. keyBody k s i b \<longrightarrow> bdPc b = Begin)))"

text \<open>What a step may do to the entry of the key, whoever makes it: the guarantee of every process, on which the others rely.\<close>

definition entryMoves :: "('s, 'h) Cache \<Rightarrow> ('s \<Rightarrow> time \<Rightarrow> key \<Rightarrow> bytes option) \<Rightarrow> key \<Rightarrow> 'v Codec \<Rightarrow> 'h cacheConfig \<Rightarrow> 'v \<Rightarrow> time \<Rightarrow>
    ('s, 'h) world \<Rightarrow> ('s, 'h) world \<Rightarrow> bool" where
  "entryMoves c view k codec cfg v D w w' \<longleftrightarrow> advances w w' \<and> configOf c w' = configOf c w
     \<and> (absentFrom view k w \<longrightarrow> absentFrom view k w' \<or> goodUntil view k codec cfg v D w')
     \<and> (goodUntil view k codec cfg v D w \<longrightarrow> goodUntil view k codec cfg v D w')"

lemma entryMovesD:
  assumes "entryMoves c view k codec cfg v D w w'"
  shows "advances w w'" "configOf c w' = configOf c w"
    "absentFrom view k w \<Longrightarrow> absentFrom view k w' \<or> goodUntil view k codec cfg v D w'"
    "goodUntil view k codec cfg v D w \<Longrightarrow> goodUntil view k codec cfg v D w'"
  using assms unfolding entryMoves_def by blast+

lemma keeps_moves:
  assumes "keeps c view k w w'" "wfRuntime (rt w)"
  shows "entryMoves c view k codec cfg v D w w'"
proof -
  have le: "now w \<le> now w'" using assms by (auto simp: keeps_def intro: now_mono)
  have vw: "now w' \<le> t \<Longrightarrow> view (store w') t k = view (store w) t k" for t using assms(1) by (simp add: keeps_def)
  have "absentFrom view k w \<Longrightarrow> absentFrom view k w'" using le vw by (simp add: absentFrom_def)
  moreover have "goodUntil view k codec cfg v D w'" if g: "goodUntil view k codec cfg v D w"
  proof -
    obtain data where "goodEntry codec cfg v D data" "\<forall>t. now w \<le> t \<longrightarrow> t < D \<longrightarrow> view (store w) t k = Some data"
      using g unfolding goodUntil_def by blast
    then show ?thesis unfolding goodUntil_def using le vw by (intro exI [of _ data]) simp
  qed
  ultimately show ?thesis using assms(1) unfolding entryMoves_def keeps_def by blast
qed

lemma flightKey_same [simp]: "flightKey c k = flightKey c k' \<longleftrightarrow> k = k'"
  by (simp add: flightKey_def)

lemma herdContent_cases:
  assumes "herdContent view k codec cfg v D n s"
  obtains (before) "n = 0" "\<forall>i b. keyBody k s i b \<longrightarrow> \<not> loading (bdPc b)"
  | (during) i b where "n = 1" "keyBody k s i b" "loading (bdPc b)"
  | (after) "n = 1" "goodUntil view k codec cfg v D (mWorld s)" "\<forall>i b. keyBody k s i b \<longrightarrow> bdPc b = Begin"
  using assms unfolding herdContent_def by blast

lemma herdContent_entry:
  assumes "herdContent view k codec cfg v D n s"
  shows "absentFrom view k (mWorld s) \<or> goodUntil view k codec cfg v D (mWorld s)"
  using assms unfolding herdContent_def by blast

lemma herdContent_le: "herdContent view k codec cfg v D n s \<Longrightarrow> n \<le> 1"
  unfolding herdContent_def by auto

lemma herdContentI:
  assumes "absentFrom view k (mWorld s) \<or> goodUntil view k codec cfg v D (mWorld s)"
  shows "\<forall>i b. keyBody k s i b \<longrightarrow> \<not> loading (bdPc b) \<Longrightarrow> herdContent view k codec cfg v D 0 s"
    and "keyBody k s i b \<Longrightarrow> loading (bdPc b) \<Longrightarrow> herdContent view k codec cfg v D 1 s"
    and "goodUntil view k codec cfg v D (mWorld s) \<Longrightarrow> \<forall>i b. keyBody k s i b \<longrightarrow> bdPc b = Begin \<Longrightarrow> herdContent view k codec cfg v D 1 s"
  using assms unfolding herdContent_def by blast+

lemma herdContent_moves:
  assumes "herdContent view k codec cfg v D n s" "entryMoves c view k codec cfg v D (mWorld s) (mWorld s')"
    and "\<forall>i b. keyBody k s' i b \<longrightarrow> keyBody k s i b \<or> bdPc b = Begin"
    and "\<forall>i b. keyBody k s i b \<longrightarrow> loading (bdPc b) \<longrightarrow> keyBody k s' i b"
  shows "herdContent view k codec cfg v D n s'"
proof -
  have e: "absentFrom view k (mWorld s') \<or> goodUntil view k codec cfg v D (mWorld s')"
    using herdContent_entry [OF assms(1)] entryMovesD(3,4) [OF assms(2)] by blast
  have b: "\<not> loading Begin" by (simp add: loading_def)
  from assms(1) show ?thesis
  proof (cases rule: herdContent_cases)
    case before
    have "\<forall>i b. keyBody k s' i b \<longrightarrow> \<not> loading (bdPc b)" using before(2) assms(3) b by metis
    then show ?thesis unfolding before(1) by (rule herdContentI(1) [OF e])
  next
    case (during i b)
    then have "keyBody k s' i b" using assms(4) by blast
    then show ?thesis unfolding during(1) using during(3) by (rule herdContentI(2) [OF e])
  next
    case after
    have "\<forall>i b. keyBody k s' i b \<longrightarrow> bdPc b = Begin" using after(3) assms(3) by blast
    with entryMovesD(4) [OF assms(2) after(2)] show ?thesis unfolding after(1) by (rule herdContentI(3) [OF e])
  qed
qed

lemma herdContent_keeps:
  assumes "herdContent view k codec cfg v D n s" "keeps c view k (mWorld s) (mWorld s')" "wfRuntime (rt (mWorld s))"
    and "\<forall>i b. keyBody k s' i b \<longrightarrow> keyBody k s i b \<or> bdPc b = Begin"
    and "\<forall>i b. keyBody k s i b \<longrightarrow> loading (bdPc b) \<longrightarrow> keyBody k s' i b"
  shows "herdContent view k codec cfg v D n s'"
  by (rule herdContent_moves [OF assms(1) keeps_moves [OF assms(2,3)] assms(4,5)])

lemma herdResults_phase:
  assumes "herdResults c k codec cfg v D s" "flights (mGroup s) i = Some f"
    and "fKey f = flightKey c k \<Longrightarrow> \<exists>data. r = Inr data \<and> goodEntry codec cfg v D data" "ph = Returned r \<or> ph = Finished r"
    and "mGroup s' = setPhase i f ph ((mGroup s)\<lparr>sfState := g\<rparr>)"
  shows "herdResults c k codec cfg v D s'"
  unfolding herdResults_def
proof (intro allI impI)
  fix i' f' r'
  assume f': "flights (mGroup s') i' = Some f'" "fKey f' = flightKey c k" "fPhase f' = Returned r' \<or> fPhase f' = Finished r'"
  show "\<exists>data. r' = Inr data \<and> goodEntry codec cfg v D data"
  proof (cases "i' = i")
    case True
    with f' assms(3-5) show ?thesis by auto
  next
    case False
    with f' assms(5) have "flights (mGroup s) i' = Some f'" by simp
    with f' assms(1) show ?thesis unfolding herdResults_def by blast
  qed
qed

definition herdInv :: "('s, 'h) Cache \<Rightarrow> ('s \<Rightarrow> time \<Rightarrow> key \<Rightarrow> bytes option) \<Rightarrow> key \<Rightarrow> duration \<Rightarrow> 'v Codec \<Rightarrow>
    'h cacheConfig \<Rightarrow> 'v \<Rightarrow> ('s, 'h) world \<Rightarrow> time \<Rightarrow> nat \<Rightarrow> ('v, 's, 'h, 'g) machine \<Rightarrow> bool" where
  "herdInv c view k ttl codec cfg v w0 D n s \<longleftrightarrow> advances w0 (mWorld s) \<and> configOf c (mWorld s) = cfg
     \<and> herdCalls k ttl codec cfg v s \<and> herdBodies k ttl codec cfg v s \<and> herdResults c k codec cfg v D s
     \<and> herdContent view k codec cfg v D n s"

lemma herdInvD:
  assumes "herdInv c view k ttl codec cfg v w0 D n s"
  shows "advances w0 (mWorld s)" "configOf c (mWorld s) = cfg" "herdCalls k ttl codec cfg v s"
    "herdBodies k ttl codec cfg v s" "herdResults c k codec cfg v D s" "herdContent view k codec cfg v D n s"
  using assms unfolding herdInv_def by blast+

lemma linked_unique:
  assumes "gInv inflight (mGroup s)" "linked c s" "mBodies s i = Some b" "mBodies s i' = Some b'"
    and "clKey (bdCall b) = clKey (bdCall b')"
  shows "i' = i"
  using gInvD(1) [OF assms(1), of "flightKey c (clKey (bdCall b))" i] linkedD(1) [OF assms(2,3)]
    gInvD(1) [OF assms(1), of "flightKey c (clKey (bdCall b'))" i'] linkedD(1) [OF assms(2,4)] assms(5) by simp

lemma herdCalls_cong:
  "herdCalls k ttl codec cfg v s \<Longrightarrow> mCalls s' = mCalls s \<Longrightarrow> callers (mGroup s') = callers (mGroup s) \<Longrightarrow>
   herdCalls k ttl codec cfg v s'"
  by (simp add: herdCalls_def)

lemma herdCalls_set:
  assumes "herdCalls k ttl codec cfg v s" "mCalls s' = (mCalls s)(a \<mapsto> (j, pc))"
    and "\<And>a'. a' \<noteq> a \<Longrightarrow> callers (mGroup s') a' = callers (mGroup s) a'"
    and "herdCall k ttl codec v j" "clCfg j = cfg" "clKey j = k \<Longrightarrow> callerOk v (callers (mGroup s') a) pc"
  shows "herdCalls k ttl codec cfg v s'"
  unfolding herdCalls_def
proof (intro allI impI)
  fix a' j' pc' assume m: "mCalls s' a' = Some (j', pc')"
  show "herdCall k ttl codec v j' \<and> clCfg j' = cfg \<and> (clKey j' = k \<longrightarrow> callerOk v (callers (mGroup s') a') pc')"
  proof (cases "a' = a")
    case True
    with m assms show ?thesis by auto
  next
    case False
    with m assms(2) have "mCalls s a' = Some (j', pc')" by simp
    with assms(1) assms(3) [OF False] show ?thesis unfolding herdCalls_def by simp
  qed
qed

lemma herdBodies_setBody:
  assumes "herdBodies k ttl codec cfg v s" "mBodies s i = Some b" "clKey (bdCall b) = k \<Longrightarrow> bodyOk v pc"
  shows "herdBodies k ttl codec cfg v (setBody i b pc w s)"
  using assms unfolding herdBodies_def by (auto split: if_splits)

lemma herdBodies_returned:
  "herdBodies k ttl codec cfg v s \<Longrightarrow> herdBodies k ttl codec cfg v (returned sf i f b out w s)"
  unfolding herdBodies_def by (auto split: if_splits)

lemma herdBodies_register:
  assumes "herdBodies k ttl codec cfg v s" "herdCall k ttl codec v j" "clCfg j = cfg"
    and "clKey j = k \<Longrightarrow> opts = missOpts \<and> \<not> bg"
  shows "herdBodies k ttl codec cfg v (setCall a j pc (register c j opts bg g s))"
  using assms unfolding herdBodies_def by (auto simp: register_def bodyOk_def split: if_splits)

lemma herdResults_cong:
  "herdResults c k codec cfg v D s \<Longrightarrow> flights (mGroup s') = flights (mGroup s) \<Longrightarrow> herdResults c k codec cfg v D s'"
  by (simp add: herdResults_def)

lemma herdResults_register:
  assumes "singleflight sf inflight" "gInv inflight (mGroup s)" "herdResults c k codec cfg v D s"
    and "groupStart sf key (mGroup s) = (i, g1)" "flights (mGroup s') = flights g1"
  shows "herdResults c k codec cfg v D s'"
  using assms(1,2,4)
proof (cases rule: groupStart_cases)
  case join
  with assms(5) herdResults_cong [OF assms(3)] show ?thesis by simp
next
  case start
  with assms(3,5) show ?thesis unfolding herdResults_def by (simp split: if_splits)
qed

lemma herdContent_register:
  assumes "gInv inflight (mGroup s)" "linked c s" "herdContent view k codec cfg v D n s" "wfRuntime (rt (mWorld s))"
  shows "herdContent view k codec cfg v D n (setCall a j pc (register c j opts bg g s))"
proof (rule herdContent_keeps [OF assms(3) _ assms(4)])
  have "flights (mGroup s) (nextId (mGroup s)) = None" using gInvD(2) [OF assms(1), of "nextId (mGroup s)"] by fastforce
  then have new: "mBodies s (nextId (mGroup s)) = None" using linkedD(1) [OF assms(2), of "nextId (mGroup s)"] by fastforce
  let ?s = "setCall a j pc (register c j opts bg g s)"
  show "\<forall>i b. keyBody k ?s i b \<longrightarrow> keyBody k s i b \<or> bdPc b = Begin"
    by (auto simp: keyBody_def register_def split: if_splits)
  show "\<forall>i b. keyBody k s i b \<longrightarrow> loading (bdPc b) \<longrightarrow> keyBody k ?s i b"
    using new by (auto simp: keyBody_def register_def)
qed simp

text \<open>A body of another key moves on: the content for \<open>k\<close> is as before.\<close>

lemma herdContent_other:
  assumes "herdContent view k codec cfg v D n s" "keeps c view k (mWorld s) (mWorld s')" "wfRuntime (rt (mWorld s))"
    and "mBodies s i = Some b" "clKey (bdCall b) \<noteq> k" "\<And>i'. i' \<noteq> i \<Longrightarrow> mBodies s' i' = mBodies s i'"
    and "\<And>b'. mBodies s' i = Some b' \<Longrightarrow> clKey (bdCall b') \<noteq> k"
  shows "herdContent view k codec cfg v D n s'"
proof (rule herdContent_keeps [OF assms(1-3)])
  have "keyBody k s' i' b' \<longleftrightarrow> keyBody k s i' b'" for i' b'
    using assms(4-7) by (cases "i' = i") (auto simp: keyBody_def)
  then show "\<forall>i b. keyBody k s' i b \<longrightarrow> keyBody k s i b \<or> bdPc b = Begin"
    "\<forall>i b. keyBody k s i b \<longrightarrow> loading (bdPc b) \<longrightarrow> keyBody k s' i b" by blast+
qed

text \<open>The one body of the key moves on, without the cache content changing.\<close>

lemma herdContent_own:
  assumes "gInv inflight (mGroup s)" "linked c s" "mBodies s i = Some b" "clKey (bdCall b) = k"
    and "keeps c view k (mWorld s) w" "wfRuntime (rt (mWorld s))" "herdContent view k codec cfg v D n s"
    and "n = 0 \<or> bdPc b \<noteq> Begin" "loading (bdPc b) = loading pc"
  shows "herdContent view k codec cfg v D n (setBody i b pc w s)"
proof -
  have only: "keyBody k s i' b' \<Longrightarrow> i' = i \<and> b' = b" for i' b'
    using linked_unique [OF assms(1-3), of i' b'] assms(3,4) by (auto simp: keyBody_def)
  have new: "keyBody k (setBody i b pc w s) i' b' \<Longrightarrow> i' = i \<and> b' = b\<lparr>bdPc := pc\<rparr>" for i' b'
    using only [of i' b'] by (auto simp: keyBody_def split: if_splits)
  have e: "absentFrom view k (mWorld (setBody i b pc w s)) \<or> goodUntil view k codec cfg v D (mWorld (setBody i b pc w s))"
    using herdContent_entry [OF assms(7)] entryMovesD(3,4) [OF keeps_moves [OF assms(5,6), of codec cfg v D]] by auto
  from assms(7) show ?thesis
  proof (cases rule: herdContent_cases)
    case before
    have "\<not> loading (bdPc b)" using before(2) assms(3,4) by (simp add: keyBody_def)
    with assms(9) new have "\<forall>i' b'. keyBody k (setBody i b pc w s) i' b' \<longrightarrow> \<not> loading (bdPc b')" by fastforce
    then show ?thesis unfolding before(1) by (rule herdContentI(1) [OF e])
  next
    case (during i' b')
    have "loading pc" using during(2,3) only assms(9) by simp
    then show ?thesis
      unfolding during(1) using assms(4)
      by (intro herdContentI(2) [OF e, where i = i and b = "b\<lparr>bdPc := pc\<rparr>"]) (auto simp: keyBody_def)
  next
    case after
    with assms(3,4,8) have False by (auto simp: keyBody_def)
    then show ?thesis ..
  qed
qed

text \<open>The loader is called: this is the one load.\<close>

lemma herdContent_load:
  assumes "gInv inflight (mGroup s)" "linked c s" "mBodies s i = Some b" "clKey (bdCall b) = k" "bdPc b = ToLoad fctx"
    and "keeps c view k (mWorld s) w" "wfRuntime (rt (mWorld s))" "herdContent view k codec cfg v D n s"
  shows "herdContent view k codec cfg v D (Suc n) (setBody i b (InLoader fctx t) w s)"
proof -
  have only: "keyBody k s i' b' \<Longrightarrow> b' = b" for i' b'
    using linked_unique [OF assms(1-3), of i' b'] assms(3,4) by (auto simp: keyBody_def)
  have e: "absentFrom view k (mWorld (setBody i b (InLoader fctx t) w s))
      \<or> goodUntil view k codec cfg v D (mWorld (setBody i b (InLoader fctx t) w s))"
    using herdContent_entry [OF assms(8)] entryMovesD(3,4) [OF keeps_moves [OF assms(6,7), of codec cfg v D]] by auto
  have own: "keyBody k (setBody i b (InLoader fctx t) w s) i (b\<lparr>bdPc := InLoader fctx t\<rparr>)"
    "loading (bdPc (b\<lparr>bdPc := InLoader fctx t\<rparr>))" using assms(4) by (simp_all add: keyBody_def loading_def)
  have b: "\<not> loading (bdPc b)" "bdPc b \<noteq> Begin" using assms(5) by (simp_all add: loading_def)
  from assms(8) show ?thesis
  proof (cases rule: herdContent_cases)
    case before
    then show ?thesis using herdContentI(2) [OF e own] by simp
  next
    case (during i' b')
    with only b have False by blast
    then show ?thesis ..
  next
    case after
    with assms(3,4) b have False by (simp add: keyBody_def)
    then show ?thesis ..
  qed
qed

text \<open>The function of the key's flight returns, with a good entry in the cache.\<close>

lemma herdContent_returned:
  assumes "gInv inflight (mGroup s)" "linked c s" "mBodies s i = Some b" "clKey (bdCall b) = k" "\<not> bdRefresh b"
    and "goodEntry codec cfg v D data" "\<forall>t. now w \<le> t \<longrightarrow> t < D \<longrightarrow> view (store w) t k = Some data" "n \<le> 1"
  shows "herdContent view k codec cfg v D n (returned sf i f b out w s)" (is "herdContent _ _ _ _ _ _ _ ?s")
proof -
  have none: "\<not> keyBody k ?s i' b'" for i' b'
    using linked_unique [OF assms(1-3), of i' b'] assms(4) by (auto simp: keyBody_def split: if_splits)
  have g: "goodUntil view k codec cfg v D (mWorld ?s)"
    unfolding goodUntil_def by (rule exI [of _ data]) (use assms(5-7) in simp)
  consider "n = 0" | "n = 1" using assms(8) by linarith
  then show ?thesis
    by cases (use none herdContentI(1,3) [of view k ?s codec cfg v D] g in auto)
qed

section \<open>Every step keeps the invariant\<close>

lemma herdInv_keeps:
  assumes "herdInv c view k ttl codec cfg v w0 D n s" "keeps c view k (mWorld s) (mWorld s')"
    and "herdCalls k ttl codec cfg v s'" "herdBodies k ttl codec cfg v s'" "herdResults c k codec cfg v D s'"
    and "herdContent view k codec cfg v D m s'"
  shows "herdInv c view k ttl codec cfg v w0 D m s'"
  unfolding herdInv_def using assms herdInvD(1,2) [OF assms(1)] by (auto simp: keeps_def intro: advances_trans)

lemma herdInv_wf: "herdInv c view k ttl codec cfg v w0 D n s \<Longrightarrow> wfRuntime (rt w0) \<Longrightarrow> wfRuntime (rt (mWorld s))"
  using herdInvD(1) advances_rt by metis

text \<open>A step of a call that only touches the world and that call.\<close>

lemma herdInv_call:
  assumes "herdInv c view k ttl codec cfg v w0 D n s" "wfRuntime (rt w0)" "keeps c view k (mWorld s) w"
    and "herdCall k ttl codec v j" "clCfg j = cfg" "clKey j = k \<Longrightarrow> callerOk v (callers (mGroup s) a) pc"
  shows "herdInv c view k ttl codec cfg v w0 D n (setCall a j pc (s\<lparr>mWorld := w\<rparr>))" (is "herdInv _ _ _ _ _ _ _ _ _ _ ?s")
proof (rule herdInv_keeps [OF assms(1)])
  note i = herdInvD [OF assms(1)]
  show "keeps c view k (mWorld s) (mWorld ?s)" using assms(3) by simp
  show "herdCalls k ttl codec cfg v ?s" by (rule herdCalls_set [OF i(3)]) (use assms(4-6) in simp_all)
  show "herdBodies k ttl codec cfg v ?s" using i(4) by (simp add: herdBodies_def)
  show "herdResults c k codec cfg v D ?s" using i(5) by (simp add: herdResults_def)
  show "herdContent view k codec cfg v D n ?s"
    by (rule herdContent_keeps [OF i(6) _ herdInv_wf [OF assms(1,2)]]) (use assms(3) in \<open>simp_all add: keyBody_def\<close>)
qed

lemma herdCallsD:
  assumes "herdCalls k ttl codec cfg v s" "mCalls s a = Some (j, pc)"
  shows "herdCall k ttl codec v j" "clCfg j = cfg" "clKey j = k \<Longrightarrow> callerOk v (callers (mGroup s) a) pc"
  using assms unfolding herdCalls_def by blast+

lemma herdBodiesD:
  assumes "herdBodies k ttl codec cfg v s" "mBodies s i = Some b"
  shows "herdCall k ttl codec v (bdCall b)" "clCfg (bdCall b) = cfg"
    "clKey (bdCall b) = k \<Longrightarrow> bdOpts b = missOpts" "clKey (bdCall b) = k \<Longrightarrow> \<not> bdRefresh b"
    "clKey (bdCall b) = k \<Longrightarrow> bodyOk v (bdPc b)"
  using assms unfolding herdBodies_def by blast+

lemma herdCall_own: "herdCall (clKey j) ttl codec v j \<Longrightarrow> clTTL j = ttl \<and> clCodec j = codec \<and> loads (clLoader j) (Ret v)"
  by (simp add: herdCall_def)

lemma herdCall_loads: "herdCall k ttl codec v j \<Longrightarrow> \<exists>r. loads (clLoader j) r"
  unfolding herdCall_def by (auto split: if_splits)

lemma herdInv_register:
  assumes "singleflight sf inflight" "gInv inflight (mGroup s)" "linked c s"
    and "herdInv c view k ttl codec cfg v w0 D n s" "wfRuntime (rt w0)" "mCalls s a = Some (j, pc0)"
    and "groupStart sf (flightKey c (clKey j)) (mGroup s) = (i, g1)" "flights g = flights g1"
    and "\<And>a'. a' \<noteq> a \<Longrightarrow> callers g a' = callers (mGroup s) a'"
    and "clKey j = k \<Longrightarrow> callerOk v (callers g a) pc \<and> opts = missOpts \<and> \<not> bg"
  shows "herdInv c view k ttl codec cfg v w0 D n (setCall a j pc (register c j opts bg g s))" (is "herdInv _ _ _ _ _ _ _ _ _ _ ?s")
proof (rule herdInv_keeps [OF assms(4)])
  note i = herdInvD [OF assms(4)]
  note j = herdCallsD [OF i(3) assms(6)]
  show "keeps c view k (mWorld s) (mWorld ?s)" by simp
  show "herdCalls k ttl codec cfg v ?s"
    by (rule herdCalls_set [OF i(3)]) (use j(1,2) assms(9,10) in auto)
  show "herdBodies k ttl codec cfg v ?s"
    by (rule herdBodies_register [OF i(4) j(1,2)]) (use assms(10) in simp)
  show "herdResults c k codec cfg v D ?s"
    by (rule herdResults_register [OF assms(1,2) i(5) assms(7)]) (simp add: assms(8))
  show "herdContent view k codec cfg v D n ?s"
    by (rule herdContent_register [OF assms(2,3) i(6) herdInv_wf [OF assms(4,5)]])
qed

text \<open>A step of a running function that does not return.\<close>

lemma herdInv_body:
  assumes "herdInv c view k ttl codec cfg v w0 D n s" "mBodies s i = Some b" "keeps c view k (mWorld s) w"
    and "clKey (bdCall b) = k \<Longrightarrow> bodyOk v pc" "herdContent view k codec cfg v D m (setBody i b pc w s)"
  shows "herdInv c view k ttl codec cfg v w0 D m (setBody i b pc w s)"
  using herdInvD [OF assms(1)] assms(3,5)
  by (intro herdInv_keeps [OF assms(1)])
    (auto intro: herdCalls_cong herdResults_cong herdBodies_setBody [OF _ assms(2,4)])

lemma herdInv_body_other:
  assumes "herdInv c view k ttl codec cfg v w0 D n s" "wfRuntime (rt w0)" "mBodies s i = Some b"
    and "keeps c view k (mWorld s) w" "clKey (bdCall b) \<noteq> k"
  shows "herdInv c view k ttl codec cfg v w0 D n (setBody i b pc w s)"
  by (rule herdInv_body [OF assms(1,3,4)])
    (use assms(4,5) in \<open>auto intro!: herdContent_other [OF herdInvD(6) [OF assms(1)] _ herdInv_wf [OF assms(1,2)] assms(3,5)]\<close>)

lemma returned_callers [simp]: "callers (mGroup (returned sf i f b out w s)) = callers (mGroup s)"
proof -
  obtain out' where "mGroup (returned sf i f b out w s) = setPhase i f (Returned (recovered out'))
      ((mGroup s)\<lparr>sfState := sfForget sf (fKey f) (sfState (mGroup s))\<rparr>)" using returned_sel(3) by blast
  then show ?thesis by simp
qed

lemma herdInv_returned_own:
  assumes "gInv inflight (mGroup s)" "linked c s" "herdInv c view k ttl codec cfg v w0 D n s"
    and "mBodies s i = Some b" "clKey (bdCall b) = k" "flights (mGroup s) i = Some f"
    and "advances (mWorld s) w" "configOf c w = cfg" "goodEntry codec cfg v D data"
    and "\<forall>t. now w \<le> t \<longrightarrow> t < D \<longrightarrow> view (store w) t k = Some data"
  shows "herdInv c view k ttl codec cfg v w0 D n (returned sf i f b (Ret data) w s)" (is "herdInv _ _ _ _ _ _ _ _ _ _ ?s")
proof -
  note i = herdInvD [OF assms(3)]
  have bg: "\<not> bdRefresh b" using herdBodiesD(4) [OF i(4) assms(4,5)] .
  have g: "mGroup ?s = setPhase i f (Returned (Inr data))
      ((mGroup s)\<lparr>sfState := sfForget sf (fKey f) (sfState (mGroup s))\<rparr>)"
    using bg by (simp add: returned_def recovered_def)
  show ?thesis
    unfolding herdInv_def
  proof (intro conjI)
    show "advances w0 (mWorld ?s)" using i(1) assms(7) bg by (simp add: advances_trans)
    show "configOf c (mWorld ?s) = cfg" using assms(8) bg by simp
    show "herdCalls k ttl codec cfg v ?s" by (rule herdCalls_cong [OF i(3)]) simp_all
    show "herdBodies k ttl codec cfg v ?s" by (rule herdBodies_returned [OF i(4)])
    show "herdResults c k codec cfg v D ?s"
      by (rule herdResults_phase [OF i(5) assms(6) _ _ g]) (use assms(9) in auto)
    show "herdContent view k codec cfg v D n ?s"
      by (rule herdContent_returned [OF assms(1,2,4,5) bg assms(9)]) (use assms(10) herdContent_le [OF i(6)] in auto)
  qed
qed

context reliable_cache begin

lemma herdInv_returned_other:
  assumes "linked c s" "herdInv c view k ttl codec cfg v w0 D n s" "wfRuntime (rt w0)"
    and "mBodies s i = Some b" "clKey (bdCall b) \<noteq> k" "flights (mGroup s) i = Some f" "keeps c view k (mWorld s) w"
  shows "herdInv c view k ttl codec cfg v w0 D n (returned sf i f b out w s)" (is "herdInv _ _ _ _ _ _ _ _ _ _ ?s")
proof (rule herdInv_keeps [OF assms(2)])
  note i = herdInvD [OF assms(2)]
  note wf = herdInv_wf [OF assms(2,3)]
  have f: "fKey f \<noteq> flightKey c k" using linkedD(1) [OF assms(1,4)] assms(5,6) by simp
  show k: "keeps c view k (mWorld s) (mWorld ?s)"
  proof (cases "bdRefresh b")
    case True
    obtain out' w' where r: "refreshOutcome (bdCall b) out w = (out', w')" by force
    then have "mWorld ?s = w'" using True by (simp add: returned_def)
    with keeps_trans [OF assms(7) refreshOutcome_keeps [OF r] wf] show ?thesis by simp
  qed (use assms(7) in simp)
  show "herdCalls k ttl codec cfg v ?s" by (rule herdCalls_cong [OF i(3)]) simp_all
  show "herdBodies k ttl codec cfg v ?s" by (rule herdBodies_returned [OF i(4)])
  obtain out' where g: "mGroup ?s = setPhase i f (Returned (recovered out'))
      ((mGroup s)\<lparr>sfState := sfForget sf (fKey f) (sfState (mGroup s))\<rparr>)" using returned_sel(3) by blast
  show "herdResults c k codec cfg v D ?s"
    by (rule herdResults_phase [OF i(5) assms(6) _ _ g]) (use f in auto)
  show "herdContent view k codec cfg v D n ?s"
    by (rule herdContent_other [OF i(6) k wf assms(4,5)]) simp_all
qed

text \<open>The first read of a call.\<close>

lemma herd_read:
  assumes "herdInv c view k ttl codec cfg v w0 D n s" "wfRuntime (rt w0)" "earlyRefreshBeta cfg \<le> 0"
    and "mCalls s a = Some (j, Start)" "lookupRead c j (mWorld s) = (ls, w)" "now w < D"
  shows "herdInv c view k ttl codec cfg v w0 D n (setCall a j (afterRead ls) (s\<lparr>mWorld := w\<rparr>))"
proof -
  note i = herdInvD [OF assms(1)]
  note wf = herdInv_wf [OF assms(1,2)]
  note j = herdCallsD [OF i(3) assms(4)]
  have ok: "callerOk v (callers (mGroup s) a) (afterRead ls)" if k: "clKey j = k"
    using herdContent_entry [OF i(6)]
  proof
    assume "absentFrom view k (mWorld s)"
    then have "ls = Miss" using k by (intro lookupRead_absent [OF _ assms(5)]) (simp add: absentFrom_def)
    then show ?thesis by (simp add: afterRead_def callerOk_def)
  next
    assume "goodUntil view k codec cfg v D (mWorld s)"
    then obtain data where data: "goodEntry codec cfg v D data"
      "\<forall>t. now (mWorld s) \<le> t \<longrightarrow> t < D \<longrightarrow> view (store (mWorld s)) t k = Some data" unfolding goodUntil_def by blast
    have "advances (mWorld s) w" using lookupRead_keeps [OF assms(5) wf] by (simp add: keeps_def)
    then have "now (mWorld s) < D" using now_mono [OF wf] assms(6) by fastforce
    then have v: "view (store (mWorld s)) (now (mWorld s)) (clKey j) = Some data" using data(2) k by simp
    have "goodEntry (clCodec j) (clCfg j) v D data" using data(1) j k by (simp add: herdCall_def)
    from lookupRead_good [OF v this _ assms(5,6) wf] assms(3) j(2) show ?thesis
      by (simp add: afterRead_def callerOk_def)
  qed
  show ?thesis by (rule herdInv_call [OF assms(1,2) lookupRead_keeps [OF assms(5) wf] j(1,2) ok])
qed

text \<open>The re-check of a flight.\<close>

lemma afterRecheck_world [simp]: "mWorld (afterRecheck sf i f b fctx rs w s) = w"
  by (simp add: afterRecheck_def returned_def refreshOutcome_def split: recheckStep.splits)

lemma herd_recheck:
  assumes "gInv inflight (mGroup s)" "linked c s" "herdInv c view k ttl codec cfg v w0 D n s" "wfRuntime (rt w0)"
    and "mBodies s i = Some b" "bdPc b = Begin" "flights (mGroup s) i = Some f"
    and fc: "flightContext (clCtx (bdCall b)) (bdOpts b) (mWorld s) = (fctx, w1)"
    and rr: "recheckRead c (bdCall b) (bdOpts b) fctx w1 = (rs, w)" and "now w < D"
  shows "herdInv c view k ttl codec cfg v w0 D n (afterRecheck sf i f b fctx rs w s)"
proof -
  note i = herdInvD [OF assms(3)]
  note wf = herdInv_wf [OF assms(3,4)]
  note b = herdBodiesD [OF i(4) assms(5)]
  have k1: "keeps c view k (mWorld s) w1" using fc by (rule flightContext_keeps)
  then have "wfRuntime (rt w1)" using wf by (auto simp: keeps_def dest: advances_rt)
  from keeps_trans [OF k1 recheckRead_keeps [OF rr this] wf] have kp: "keeps c view k (mWorld s) w" .
  show ?thesis
  proof (cases "clKey (bdCall b) = k")
    case False
    then show ?thesis
      using herdInv_returned_other [OF assms(2-5) False assms(7) kp] herdInv_body_other [OF assms(3-5) kp False]
      by (cases rs) (simp_all add: afterRecheck_def)
  next
    case True
    have le: "now (mWorld s) \<le> now w" using kp wf by (auto simp: keeps_def intro: now_mono)
    have found: ?thesis if good: "goodUntil view k codec cfg v D (mWorld s)"
    proof -
      obtain data where data: "goodEntry codec cfg v D data"
        "\<forall>t. now (mWorld s) \<le> t \<longrightarrow> t < D \<longrightarrow> view (store (mWorld s)) t k = Some data" using good unfolding goodUntil_def by blast
      have g: "goodEntry (clCodec (bdCall b)) (clCfg (bdCall b)) v D data"
        using data(1) b(1,2) True by (simp add: herdCall_def)
      have "rs = Found data"
        by (rule recheckRead_good [OF fc [unfolded b(3) [OF True]] rr [unfolded b(3) [OF True]] wf _ g assms(10)])
          (use data(2) True in simp)
      moreover have "herdInv c view k ttl codec cfg v w0 D n (returned sf i f b (Ret data) w s)"
        using kp i(2) data(2) le
        by (intro herdInv_returned_own [OF assms(1-3,5) True assms(7) _ _ data(1)]) (auto simp: keeps_def)
      ultimately show ?thesis by (simp add: afterRecheck_def)
    qed
    from i(6) show ?thesis
    proof (cases rule: herdContent_cases)
      case before
      from herdContent_entry [OF i(6)] show ?thesis
      proof
        assume "absentFrom view k (mWorld s)"
        then have "rs = NotFound"
          using True by (intro recheckRead_absent [OF fc rr wf]) (simp add: absentFrom_def)
        moreover have "herdContent view k codec cfg v D n (setBody i b (ToLoad fctx) w s)"
          by (rule herdContent_own [OF assms(1,2,5) True kp wf i(6)])
            (simp_all add: before(1) assms(6) loading_def)
        ultimately show ?thesis
          using herdInv_body [OF assms(3,5) kp] by (simp add: afterRecheck_def bodyOk_def)
      qed (rule found)
    next
      case (during i' b')
      then have "b' = b" using linked_unique [OF assms(1,2,5), of i' b'] True assms(5) by (auto simp: keyBody_def)
      with during(3) assms(6) have False by (simp add: loading_def)
      then show ?thesis ..
    next
      case after
      from after(2) show ?thesis by (rule found)
    qed
  qed
qed


lemma herd_flight_heal:
  assumes "herdInv c view k ttl codec cfg v w0 D n s" "wfRuntime (rt w0)" "mBodies s i = Some b" "bdPc b = FHealing fctx e"
  shows "herdInv c view k ttl codec cfg v w0 D n (setBody i b (ToLoad fctx) (healEntry c (bdCall b) fctx e (mWorld s)) s)"
proof -
  have "clKey (bdCall b) \<noteq> k"
    using herdBodiesD(5) [OF herdInvD(4) [OF assms(1)] assms(3)] assms(4) by (auto simp: bodyOk_def)
  then show ?thesis by (intro herdInv_body_other [OF assms(1-3)] keeps_heal)
qed

lemma herd_load:
  assumes "gInv inflight (mGroup s)" "linked c s" "herdInv c view k ttl codec cfg v w0 D n s" "wfRuntime (rt w0)"
    and "mBodies s i = Some b" "bdPc b = ToLoad fctx" "timeNow (mWorld s) = (t, w)"
  shows "herdInv c view k ttl codec cfg v w0 D (n + loaderCalls k [LoaderCalled i (clKey (bdCall b))])
    (setBody i b (InLoader fctx t) w s)"
proof -
  note kp = keeps_timeNow [OF assms(7), of k]
  note wf = herdInv_wf [OF assms(3,4)]
  show ?thesis
  proof (cases "clKey (bdCall b) = k")
    case True
    have "herdInv c view k ttl codec cfg v w0 D (Suc n) (setBody i b (InLoader fctx t) w s)"
      by (rule herdInv_body [OF assms(3,5) kp _ herdContent_load [OF assms(1,2,5) True assms(6) kp wf herdInvD(6) [OF assms(3)]]])
        (simp add: bodyOk_def)
    with True show ?thesis by simp
  next
    case False
    with herdInv_body_other [OF assms(3-5) kp False] show ?thesis by simp
  qed
qed

lemma herd_loaded:
  assumes "gInv inflight (mGroup s)" "linked c s" "herdInv c view k ttl codec cfg v w0 D n s" "wfRuntime (rt w0)"
    and "mBodies s i = Some b" "bdPc b = InLoader fctx t" "finishLoad (bdCall b) fctx t (mWorld s) = (res, w)"
  shows "herdInv c view k ttl codec cfg v w0 D n (setBody i b (Loaded fctx res) w s)"
proof -
  note i = herdInvD [OF assms(3)]
  note wf = herdInv_wf [OF assms(3,4)]
  note b = herdBodiesD [OF i(4) assms(5)]
  show ?thesis
  proof (cases "clKey (bdCall b) = k")
    case True
    then have "loads (clLoader (bdCall b)) (Ret v)" using b(1) by (simp add: herdCall_def)
    note f = finishLoad_outcome [OF this assms(7)]
    have ct: "herdContent view k codec cfg v D n (setBody i b (Loaded fctx res) w s)"
      by (rule herdContent_own [OF assms(1,2,5) True f(2) wf i(6)]) (simp_all add: assms(6) loading_def)
    show ?thesis by (rule herdInv_body [OF assms(3,5) f(2) _ ct]) (use f(1) in \<open>simp add: bodyOk_def\<close>)
  next
    case False
    obtain r where "loads (clLoader (bdCall b)) r" using herdCall_loads [OF b(1)] by blast
    from herdInv_body_other [OF assms(3-5) finishLoad_outcome(2) [OF this assms(7)] False] show ?thesis .
  qed
qed

lemma herd_stored:
  assumes "gInv inflight (mGroup s)" "linked c s" "herdInv c view k ttl codec cfg v w0 D n s" "wfRuntime (rt w0)"
    and "mBodies s i = Some b" "bdPc b = Loaded fctx res" "flights (mGroup s) i = Some f"
    and st: "storeLoaded c (clKey (bdCall b)) (clTTL (bdCall b)) (clCodec (bdCall b)) (clCfg (bdCall b)) fctx res (mWorld s)
      = (out, w)"
    and "storesGood c expiry ttl codec cfg v w0 D" "now (mWorld s) < D"
  shows "herdInv c view k ttl codec cfg v w0 D n (returned sf i f b out w s)"
proof -
  note i = herdInvD [OF assms(3)]
  note wf = herdInv_wf [OF assms(3,4)]
  note b = herdBodiesD [OF i(4) assms(5)]
  show ?thesis
  proof (cases "clKey (bdCall b) = k")
    case True
    obtain d where res: "res = Ret (v, d)" using b(5) [OF True] assms(6) by (auto simp: bodyOk_def)
    have eq: "clTTL (bdCall b) = ttl" "clCodec (bdCall b) = codec" using b(1) True by (simp_all add: herdCall_def)
    obtain data where data: "out = Ret data" "goodEntry codec cfg v D data" "advances (mWorld s) w" "configOf c w = cfg"
      "\<forall>t<D. view (store w) t k = Some data"
      by (rule storeLoaded_good [OF assms(9) i(1) assms(10) i(2) wf st [unfolded eq b(2) True res]])
    from herdInv_returned_own [OF assms(1-3,5) True assms(7) data(3,4,2)] data(1,5) show ?thesis by simp
  next
    case False
    from herdInv_returned_other [OF assms(2-5) False assms(7) storeLoaded_keeps [OF st False wf]] show ?thesis .
  qed
qed


lemma herd_result:
  assumes "linked c s" "herdInv c view k ttl codec cfg v w0 D n s" "wfRuntime (rt w0)"
    and "mCalls s a = Some (j, Awaiting)" "callers (mGroup s) a = Some (Waiting i)" "flights (mGroup s) i = Some f"
    and "fPhase f = Finished r"
  shows "herdInv c view k ttl codec cfg v w0 D n (setCall a j (Done (finishFlight (clCodec j) (clCfg j) (clKey j) r))
      (s\<lparr>mGroup := (mGroup s)\<lparr>callers := (callers (mGroup s))(a \<mapsto> Received i r)\<rparr>\<rparr>))"
    (is "herdInv _ _ _ _ _ _ _ _ _ _ ?s")
proof (rule herdInv_keeps [OF assms(2)])
  note inv = herdInvD [OF assms(2)]
  note j = herdCallsD [OF inv(3) assms(4)]
  have "callerOk v (callers (mGroup ?s) a) (Done (finishFlight (clCodec j) (clCfg j) (clKey j) r))" if k: "clKey j = k"
  proof -
    have "fKey f = flightKey c k" using linkedD(5) [OF assms(1,4)] assms(5,6) k by auto
    with inv(5) assms(6,7) obtain data where "r = Inr data" "goodEntry codec cfg v D data"
      unfolding herdResults_def by blast
    then show ?thesis using j(1,2) k by (simp add: callerOk_def finishFlight_def goodEntry_def herdCall_def)
  qed
  then show "herdCalls k ttl codec cfg v ?s"
    by (intro herdCalls_set [OF inv(3) _ _ j(1,2)]) auto
  show "keeps c view k (mWorld s) (mWorld ?s)" by simp
  show "herdBodies k ttl codec cfg v ?s" using inv(4) by (simp add: herdBodies_def)
  show "herdResults c k codec cfg v D ?s" using inv(5) by (simp add: herdResults_def)
  show "herdContent view k codec cfg v D n ?s"
    by (rule herdContent_keeps [OF inv(6) _ herdInv_wf [OF assms(2,3)]]) (simp_all add: keyBody_def)
qed

lemma herd_ctx:
  assumes "herdInv c view k ttl codec cfg v w0 D n s" "wfRuntime (rt w0)" "mCalls s a = Some (j, Awaiting)"
  shows "herdInv c view k ttl codec cfg v w0 D n (setCall a j (Done (Inl e))
      (s\<lparr>mGroup := (mGroup s)\<lparr>callers := (callers (mGroup s))(a \<mapsto> GaveUp i e)\<rparr>\<rparr>))"
    (is "herdInv _ _ _ _ _ _ _ _ _ _ ?s")
proof (rule herdInv_keeps [OF assms(1)])
  note inv = herdInvD [OF assms(1)]
  note j = herdCallsD [OF inv(3) assms(3)]
  show "herdCalls k ttl codec cfg v ?s"
    by (rule herdCalls_set [OF inv(3) _ _ j(1,2)]) (auto simp: callerOk_def)
  show "keeps c view k (mWorld s) (mWorld ?s)" by simp
  show "herdBodies k ttl codec cfg v ?s" using inv(4) by (simp add: herdBodies_def)
  show "herdResults c k codec cfg v D ?s" using inv(5) by (simp add: herdResults_def)
  show "herdContent view k codec cfg v D n ?s"
    by (rule herdContent_keeps [OF inv(6) _ herdInv_wf [OF assms(1,2)]]) (simp_all add: keyBody_def)
qed

lemma herd_flight_done:
  assumes "herdInv c view k ttl codec cfg v w0 D n s" "wfRuntime (rt w0)" "flights (mGroup s) i = Some f"
    and "fPhase f = Returned r"
  shows "herdInv c view k ttl codec cfg v w0 D n (s\<lparr>mGroup := setPhase i f (Finished r)
      ((mGroup s)\<lparr>sfState := g\<rparr>)\<rparr>)" (is "herdInv _ _ _ _ _ _ _ _ _ _ ?s")
proof (rule herdInv_keeps [OF assms(1)])
  note inv = herdInvD [OF assms(1)]
  show "herdCalls k ttl codec cfg v ?s" by (rule herdCalls_cong [OF inv(3)]) simp_all
  show "keeps c view k (mWorld s) (mWorld ?s)" by simp
  show "herdBodies k ttl codec cfg v ?s" using inv(4) by (simp add: herdBodies_def)
  show "herdResults c k codec cfg v D ?s"
    by (rule herdResults_phase [OF inv(5) assms(3), where r = r and ph = "Finished r"])
      (use inv(5) assms(3,4) in \<open>auto simp: herdResults_def\<close>)
  show "herdContent view k codec cfg v D n ?s"
    by (rule herdContent_keeps [OF inv(6) _ herdInv_wf [OF assms(1,2)]]) (simp_all add: keyBody_def)
qed

lemma herd_world:
  assumes "herdInv c view k ttl codec cfg v w0 D n s" "wfRuntime (rt w0)" "keeps c view k (mWorld s) w"
  shows "herdInv c view k ttl codec cfg v w0 D n (s\<lparr>mWorld := w\<rparr>)" (is "herdInv _ _ _ _ _ _ _ _ _ _ ?s")
proof (rule herdInv_keeps [OF assms(1)])
  note inv = herdInvD [OF assms(1)]
  show "herdCalls k ttl codec cfg v ?s" by (rule herdCalls_cong [OF inv(3)]) simp_all
  show "keeps c view k (mWorld s) (mWorld ?s)" using assms(3) by simp
  show "herdBodies k ttl codec cfg v ?s" using inv(4) by (simp add: herdBodies_def)
  show "herdResults c k codec cfg v D ?s" using inv(5) by (simp add: herdResults_def)
  show "herdContent view k codec cfg v D n ?s"
    by (rule herdContent_keeps [OF inv(6) _ herdInv_wf [OF assms(1,2)]]) (use assms(3) in \<open>simp_all add: keyBody_def\<close>)
qed

lemma herd_join:
  assumes "singleflight sf inflight" "gInv inflight (mGroup s)" "linked c s"
    and "herdInv c view k ttl codec cfg v w0 D n s" "wfRuntime (rt w0)" "mCalls s a = Some (j, Joining)"
  shows "herdInv c view k ttl codec cfg v w0 D n (setCall a j Awaiting
      (register c j missOpts False (callDo sf a (flightKey c (clKey j)) (mGroup s)) s))"
proof -
  obtain i g1 where g: "groupStart sf (flightKey c (clKey j)) (mGroup s) = (i, g1)" by force
  from groupStart_inv [OF assms(1,2) g] have "callers g1 = callers (mGroup s)" by simp
  with g show ?thesis
    by (intro herdInv_register [OF assms g]) (simp_all add: callDo_def callerOk_def)
qed

lemma herd_refresh:
  assumes "singleflight sf inflight" "gInv inflight (mGroup s)" "linked c s"
    and "herdInv c view k ttl codec cfg v w0 D n s" "wfRuntime (rt w0)" "mCalls s a = Some (j, Refreshing r opts)"
  shows "herdInv c view k ttl codec cfg v w0 D n (setCall a j (Done r)
      (register c j opts True (callDoAsync sf (flightKey c (clKey j)) (mGroup s)) s))"
proof -
  obtain i g1 where g: "groupStart sf (flightKey c (clKey j)) (mGroup s) = (i, g1)" by force
  from groupStart_inv [OF assms(1,2) g] have cs: "callers g1 = callers (mGroup s)" by simp
  have "clKey j \<noteq> k" using herdCallsD(3) [OF herdInvD(3) [OF assms(4)] assms(6)] by (auto simp: callerOk_def)
  with g cs show ?thesis by (intro herdInv_register [OF assms g]) (simp_all add: callDoAsync_def)
qed

text \<open>All steps together.\<close>

lemma mstep_herd:
  assumes sf: "singleflight sf inflight" and g: "gInv inflight (mGroup s)" and l: "linked c s"
    and st: "mstep c sf s ev s'" and inv: "herdInv c view k ttl codec cfg v w0 D n s"
    and wf: "wfRuntime (rt w0)" and beta: "earlyRefreshBeta cfg \<le> 0" and good: "storesGood c expiry ttl codec cfg v w0 D"
    and calls: "\<And>a j. ev = Called a j \<Longrightarrow> herdCall k ttl codec v j" and early: "now (mWorld s) < D"
    and late: "now (mWorld s') < D"
  shows "herdInv c view k ttl codec cfg v w0 D (n + loaderCalls k [ev]) s'"
  using st g l inv calls early late
proof (induction rule: mstep.induct)
  case (called s a j)
  have "herdCall k ttl codec v (j\<lparr>clCfg := configOf c (mWorld s)\<rparr>)" using called(5) by (simp add: herdCall_def)
  with herdInv_call [OF called(4) wf keeps_refl, of _ a Start] herdInvD(2) [OF called(4)] show ?case
    by (simp add: callerOk_def)
next
  case (read s a j ls w)
  with herd_read [OF read(5) wf beta read(1,2)] show ?case by simp
next
  case (heal s a j e)
  have "clKey j \<noteq> k" using herdCallsD(3) [OF herdInvD(3) [OF heal(4)] heal(1)] by (auto simp: callerOk_def)
  with herdInv_call [OF heal(4) wf keeps_heal herdCallsD(1,2) [OF herdInvD(3) [OF heal(4)] heal(1)], of _ a Joining]
  show ?case by simp
next
  case (join s a j)
  with herd_join [OF sf join(2-4) wf join(1)] show ?case by simp
next
  case (refresh s a j r opts)
  with herd_refresh [OF sf refresh(2-4) wf refresh(1)] show ?case by simp
next
  case (result s a j i f r)
  with herd_result [OF result(6,7) wf result(1-4)] show ?case by simp
next
  case (ctx s a j i e)
  with herd_ctx [OF ctx(6) wf ctx(1)] show ?case by simp
next
  case (recheck s i b f fctx w1 rs w2)
  with herd_recheck [OF recheck(6-8) wf recheck(1-5)] show ?case by simp
next
  case (flight_heal s i b fctx e)
  with herd_flight_heal [OF flight_heal(5) wf flight_heal(1,2)] show ?case by simp
next
  case (load s i b fctx t w)
  with herd_load [OF load(4-6) wf load(1-3)] show ?case by simp
next
  case (loaded s i b fctx t res w)
  with herd_loaded [OF loaded(4-6) wf loaded(1-3)] show ?case by simp
next
  case (stored s i b fctx res f out w)
  with herd_stored [OF stored(5-7) wf stored(1-4) good stored(9)] show ?case by simp
next
  case (flight_done s i f r)
  with herd_flight_done [OF flight_done(5) wf flight_done(1,2)] show ?case by simp
next
  case (tick s)
  obtain t w where "timeNow (mWorld s) = (t, w)" by force
  with herd_world [OF tick(3) wf keeps_timeNow] show ?case by simp
qed


end

text \<open>Time never goes back, as long as no loader rewinds it.\<close>

definition callsLoad :: "('v, 's, 'h, 'g) machine \<Rightarrow> bool" where
  "callsLoad s \<longleftrightarrow> (\<forall>a j pc. mCalls s a = Some (j, pc) \<longrightarrow> (\<exists>r. loads (clLoader j) r))
     \<and> (\<forall>i b. mBodies s i = Some b \<longrightarrow> (\<exists>r. loads (clLoader (bdCall b)) r))"

definition callLoads :: "('v, 's, 'h) machineEvent \<Rightarrow> bool" where
  "callLoads ev \<longleftrightarrow> (\<forall>a j. ev = Called a j \<longrightarrow> (\<exists>r. loads (clLoader j) r))"

lemma callsLoadD:
  assumes "callsLoad s"
  shows "mCalls s a = Some (j, pc) \<Longrightarrow> \<exists>r. loads (clLoader j) r" "mBodies s i = Some b \<Longrightarrow> \<exists>r. loads (clLoader (bdCall b)) r"
  using assms unfolding callsLoad_def by blast+

context reliable_cache begin

lemma mstep_callsLoad:
  assumes "mstep c sf s ev s'" "callsLoad s" "\<And>a j. ev = Called a j \<Longrightarrow> \<exists>r. loads (clLoader j) r"
  shows "callsLoad s'"
  using assms
proof (induction rule: mstep.induct)
  case (recheck s i b f fctx w1 rs w2)
  show ?case unfolding callsLoad_def
    using callsLoadD [OF recheck(6)] callsLoadD(2) [OF recheck(6,1)]
    by (cases rs) (auto simp: afterRecheck_def split: if_splits)
qed (auto simp: callsLoad_def register_def split: if_splits)

lemma other_key: "CHR ''x'' # k \<noteq> k"
  by (metis not_Cons_self2)

lemma mstep_advances:
  assumes "mstep c sf s ev s'" "callsLoad s" "wfRuntime (rt (mWorld s))"
  shows "advances (mWorld s) (mWorld s')"
  using assms
proof (induction rule: mstep.induct)
  case (read s a j ls w)
  with lookupRead_keeps [OF read(2,4)] show ?case by (simp add: keeps_def)
next
  case (heal s a j e)
  from keeps_heal [OF other_key [symmetric], of j] show ?case by (simp add: keeps_def)
next
  case (recheck s i b f fctx w1 rs w2)
  note k1 = flightContext_keeps [OF recheck(4)]
  have "wfRuntime (rt w1)" using recheck(7) advances_rt flightContext_frame [OF recheck(4)] by metis
  from keeps_trans [OF k1 recheckRead_keeps [OF recheck(5) this] recheck(7)] show ?case by (simp add: keeps_def)
next
  case (flight_heal s i b fctx e)
  from keeps_heal [OF other_key [symmetric], of "bdCall b"] show ?case by (simp add: keeps_def)
next
  case (load s i b fctx t w)
  from keeps_timeNow [OF load(3)] show ?case by (simp add: keeps_def)
next
  case (loaded s i b fctx t res w)
  obtain r where "loads (clLoader (bdCall b)) r" using callsLoadD(2) [OF loaded(4,1)] by blast
  from finishLoad_outcome(2) [OF this loaded(3)] show ?case by (simp add: keeps_def)
next
  case (stored s i b fctx res f out w)
  note k1 = storeLoaded_keeps [OF stored(4) other_key [symmetric] stored(6)]
  show ?case
  proof (cases "bdRefresh b")
    case True
    obtain out' w' where r: "refreshOutcome (bdCall b) out w = (out', w')" by force
    then have "mWorld (returned sf i f b out w s) = w'" using True by (simp add: returned_def)
    with keeps_trans [OF k1 refreshOutcome_keeps [OF r] stored(6)] show ?thesis by (simp add: keeps_def)
  qed (use k1 in \<open>simp add: keeps_def\<close>)
next
  case (tick s)
  obtain t w where t: "timeNow (mWorld s) = (t, w)" by force
  from keeps_timeNow [OF t] t show ?case by (simp add: keeps_def)
qed simp_all

text \<open>The invariant every proof about time starts from, in the form of theory Fleet.\<close>

lemma loads_process:
  "stable_process c sf w0 g0 (\<lambda>_ s. wfRuntime (rt w0) \<longrightarrow> callsLoad s \<and> advances w0 (mWorld s))
     (\<lambda>w w'. wfRuntime (rt w0) \<longrightarrow> advances w w') callLoads"
proof (unfold_locales, goal_cases)
  case 1
  show ?case by (simp add: callsLoad_def newMachine_def)
next
  case (2 evs s ev s')
  have "callsLoad s' \<and> advances w0 (mWorld s') \<and> advances (mWorld s) (mWorld s')" if wf: "wfRuntime (rt w0)"
  proof -
    have s: "callsLoad s" "advances w0 (mWorld s)" using 2(1) wf by simp_all
    then have "wfRuntime (rt (mWorld s))" using wf by (auto dest: advances_rt)
    with mstep_advances [OF 2(2) s(1)] have adv: "advances (mWorld s) (mWorld s')" by blast
    moreover have "callsLoad s'" by (rule mstep_callsLoad [OF 2(2) s(1)]) (use 2(3) in \<open>simp add: callLoads_def\<close>)
    ultimately show ?thesis using s(2) by (auto intro: advances_trans)
  qed
  then show ?case by blast
qed (auto simp: callsLoad_def intro: advances_trans)

lemma mrun_loads:
  assumes "mrun c sf (newMachine w0 g0) evs s" "wfRuntime (rt w0)"
    and "\<And>a j. Called a j \<in> set evs \<Longrightarrow> \<exists>r. loads (clLoader j) r"
  shows "callsLoad s \<and> advances w0 (mWorld s)"
  using stable_process.mrun_inv [OF loads_process assms(1)] assms(2,3) by (auto simp: callLoads_def)

lemma frun_loads:
  assumes "frun c sf (newFleet w0 g0) evs F" "wfRuntime (rt w0)" "\<And>p ev. (p, ev) \<in> set evs \<Longrightarrow> callLoads ev"
  shows "advances w0 (fWorld F)"
  using stable_process.frun_inv [OF loads_process assms(1), of undefined] assms(2,3) by auto

lemma mrun_advances:
  assumes "mrun c sf (newMachine w0 g0) evs s" "herdRun k ttl codec v evs" "wfRuntime (rt w0)"
  shows "callsLoad s \<and> advances w0 (mWorld s)"
  by (rule mrun_loads [OF assms(1,3)]) (use assms(2) in \<open>auto simp: herdRun_def intro: herdCall_loads\<close>)

lemma early_step:
  assumes "mstep c sf s ev s'" "wfRuntime (rt w0)" "wfRuntime (rt w0) \<longrightarrow> callsLoad s \<and> advances w0 (mWorld s)" "now (mWorld s') < D"
  shows "now (mWorld s) < D"
proof -
  have "callsLoad s" "wfRuntime (rt (mWorld s))" using assms(2,3) by (auto dest: advances_rt)
  with now_mono [OF _ mstep_advances [OF assms(1)]] assms(4) show ?thesis by fastforce
qed

text \<open>What a step guarantees about the entry of the key.\<close>

lemma mstep_moves:
  assumes "mstep c sf s ev s'" "herdInv c view k ttl codec cfg v w0 D n s" "wfRuntime (rt w0)"
    and good: "storesGood c expiry ttl codec cfg v w0 D" and "now (mWorld s) < D"
  shows "entryMoves c view k codec cfg v D (mWorld s) (mWorld s')"
  using assms(1,2,5)
proof (induction rule: mstep.induct)
  case (read s a j ls w)
  note wf = herdInv_wf [OF read(3) assms(3)]
  from keeps_moves [OF lookupRead_keeps [OF read(2) wf] wf] show ?case by simp
next
  case (heal s a j e)
  have "clKey j \<noteq> k" using herdCallsD(3) [OF herdInvD(3) [OF heal(2)] heal(1)] by (auto simp: callerOk_def)
  from keeps_moves [OF keeps_heal [OF this] herdInv_wf [OF heal(2) assms(3)]] show ?case by simp
next
  case (recheck s i b f fctx w1 rs w2)
  note wf = herdInv_wf [OF recheck(6) assms(3)]
  note k1 = flightContext_keeps [OF recheck(4), of k]
  then have "wfRuntime (rt w1)" using wf by (auto simp: keeps_def dest: advances_rt)
  from keeps_moves [OF keeps_trans [OF k1 recheckRead_keeps [OF recheck(5) this] wf] wf] show ?case by simp
next
  case (flight_heal s i b fctx e)
  have "clKey (bdCall b) \<noteq> k"
    using herdBodiesD(5) [OF herdInvD(4) [OF flight_heal(3)] flight_heal(1)] flight_heal(2) by (auto simp: bodyOk_def)
  from keeps_moves [OF keeps_heal [OF this] herdInv_wf [OF flight_heal(3) assms(3)]] show ?case by simp
next
  case (load s i b fctx t w)
  from keeps_moves [OF keeps_timeNow [OF load(3)] herdInv_wf [OF load(4) assms(3)]] show ?case by simp
next
  case (loaded s i b fctx t res w)
  obtain r where "loads (clLoader (bdCall b)) r"
    using herdCall_loads [OF herdBodiesD(1) [OF herdInvD(4) [OF loaded(4)] loaded(1)]] by blast
  from keeps_moves [OF finishLoad_outcome(2) [OF this loaded(3)] herdInv_wf [OF loaded(4) assms(3)]] show ?case by simp
next
  case (stored s i b fctx res f out w)
  note i = herdInvD [OF stored(5)] and wf = herdInv_wf [OF stored(5) assms(3)]
  note b = herdBodiesD [OF i(4) stored(1)]
  show ?case
  proof (cases "clKey (bdCall b) = k")
    case True
    obtain d where res: "res = Ret (v, d)" using b(5) [OF True] stored(2) by (auto simp: bodyOk_def)
    have eq: "clTTL (bdCall b) = ttl" "clCodec (bdCall b) = codec" using b(1) True by (simp_all add: herdCall_def)
    obtain data where data: "out = Ret data" "goodEntry codec cfg v D data" "advances (mWorld s) w" "configOf c w = cfg"
      "\<forall>t<D. view (store w) t k = Some data"
      by (rule storeLoaded_good [OF good i(1) stored(6) i(2) wf stored(4) [unfolded eq b(2) True res]])
    have "mWorld (returned sf i f b out w s) = w" using b(4) [OF True] by (simp add: returned_def)
    moreover have "goodUntil view k codec cfg v D w" unfolding goodUntil_def using data(2,5) by blast
    ultimately show ?thesis using data(3,4) i(2) by (simp add: entryMoves_def)
  next
    case False
    note k1 = storeLoaded_keeps [OF stored(4) False wf]
    obtain out' w' where r: "(if bdRefresh b then refreshOutcome (bdCall b) out w else (out, w)) = (out', w')" by force
    then have w': "mWorld (returned sf i f b out w s) = w'" by (simp add: returned_def)
    have "keeps c view k w w'" using r refreshOutcome_keeps by (auto split: if_splits)
    from keeps_moves [OF keeps_trans [OF k1 this wf] wf] w' show ?thesis by simp
  qed
next
  case (tick s)
  obtain t w where t: "timeNow (mWorld s) = (t, w)" by force
  from keeps_moves [OF keeps_timeNow [OF t] herdInv_wf [OF tick(1) assms(3)]] t show ?case by simp
qed (simp_all add: entryMoves_def)

end

text \<open>And the invariant relies on no more.\<close>

lemma herdInv_stable:
  assumes "herdInv c view k ttl codec cfg v w0 D n s" "entryMoves c view k codec cfg v D (mWorld s) w"
  shows "herdInv c view k ttl codec cfg v w0 D n (s\<lparr>mWorld := w\<rparr>)" (is "herdInv _ _ _ _ _ _ _ _ _ _ ?s")
proof -
  note inv = herdInvD [OF assms(1)] and mv = entryMovesD [OF assms(2)]
  have "herdContent view k codec cfg v D n ?s"
    by (rule herdContent_moves [OF inv(6)]) (use assms(2) in \<open>simp_all add: keyBody_def\<close>)
  moreover have "herdCalls k ttl codec cfg v ?s" by (rule herdCalls_cong [OF inv(3)]) simp_all
  moreover have "herdBodies k ttl codec cfg v ?s" using inv(4) by (simp add: herdBodies_def)
  moreover have "herdResults c k codec cfg v D ?s" using inv(5) by (simp add: herdResults_def)
  ultimately show ?thesis using inv(1,2) mv(1,2) by (auto simp: herdInv_def intro: advances_trans)
qed

section \<open>All runs\<close>

text \<open>The start of a herd.\<close>

definition herdSetting :: "('s, 'h) Cache \<Rightarrow> ('s \<Rightarrow> time \<Rightarrow> key \<Rightarrow> bytes option) \<Rightarrow>
    (bytes \<Rightarrow> duration \<Rightarrow> ('s, 'h) world \<Rightarrow> time option) \<Rightarrow> 'g sfOps \<Rightarrow> ('g \<Rightarrow> string \<rightharpoonup> nat) \<Rightarrow> ('s, 'h) world \<Rightarrow> 'g \<Rightarrow>
    key \<Rightarrow> duration \<Rightarrow> 'v Codec \<Rightarrow> 'h cacheConfig \<Rightarrow> 'v \<Rightarrow> time \<Rightarrow> bool" where
  "herdSetting c view expiry sf inflight w0 g0 k ttl codec cfg v D \<longleftrightarrow>
     singleflight sf inflight \<and> inflight g0 = Map.empty \<and> wfRuntime (rt w0) \<and> view (store w0) (now w0) k = None
     \<and> cfg = configOf c w0 \<and> earlyRefreshBeta cfg \<le> 0 \<and> storesGood c expiry ttl codec cfg v w0 D"

definition herdEvent :: "key \<Rightarrow> duration \<Rightarrow> 'v Codec \<Rightarrow> 'v \<Rightarrow> ('v, 's, 'h) machineEvent \<Rightarrow> bool" where
  "herdEvent k ttl codec v ev \<longleftrightarrow> (\<forall>a j. ev = Called a j \<longrightarrow> herdCall k ttl codec v j)"

lemma herdRun_events: "herdRun k ttl codec v evs \<longleftrightarrow> (\<forall>ev\<in>set evs. herdEvent k ttl codec v ev)"
  by (auto simp: herdRun_def herdEvent_def)

context reliable_cache begin

lemma herdInv_init:
  assumes "herdSetting c view expiry sf inflight w0 g0 k ttl codec cfg v D"
  shows "herdInv c view k ttl codec cfg v w0 D 0 (newMachine w0 g0)"
proof -
  have absent: "view (store w0) (now w0) k = None" and cfg: "configOf c w0 = cfg" using assms by (simp_all add: herdSetting_def)
  have "view (store w0) t k = None" if "now w0 \<le> t" for t
    using view_lapse [OF that] absent by (metis not_None_eq)
  then show ?thesis
    by (auto simp: herdInv_def newMachine_def emptyGroup_def herdCalls_def herdBodies_def herdResults_def
        herdContent_def absentFrom_def keyBody_def cfg)
qed

lemma herd_process:
  "timed_process c sf w0 g0 (\<lambda>_ s. wfRuntime (rt w0) \<longrightarrow> callsLoad s \<and> advances w0 (mWorld s))
     (\<lambda>w w'. wfRuntime (rt w0) \<longrightarrow> advances w w') callLoads
     (\<lambda>evs s. gInv inflight (mGroup s) \<and> linked c s \<and> herdInv c view k ttl codec cfg v w0 D (loaderCalls k evs) s)
     (entryMoves c view k codec cfg v D) (herdEvent k ttl codec v)
     (\<lambda>w. herdSetting c view expiry sf inflight w0 g0 k ttl codec cfg v D \<and> now w < D)"
proof (rule timed_process.intro [OF loads_process], unfold_locales, goal_cases)
  case (1 ev)
  then show ?case by (auto simp: herdEvent_def callLoads_def intro: herdCall_loads)
next
  case 2
  then have sf: "singleflight sf inflight" "inflight g0 = Map.empty" by (simp_all add: herdSetting_def)
  have "herdInv c view k ttl codec cfg v w0 D (loaderCalls k []) (newMachine w0 g0)" using herdInv_init [of sf inflight w0 g0 k ttl codec cfg v D] 2 by simp
  then show ?case by (intro conjI mrun_gInv [OF sf mrun_init] mrun_linked [OF sf mrun_init])
next
  case (3 evs s ev s')
  then have g: "gInv inflight (mGroup s)" and l: "linked c s" and inv: "herdInv c view k ttl codec cfg v w0 D (loaderCalls k evs) s"
    by blast+
  have h: "singleflight sf inflight" "wfRuntime (rt w0)" "earlyRefreshBeta cfg \<le> 0" "storesGood c expiry ttl codec cfg v w0 D"
    and early: "now (mWorld s) < D" "now (mWorld s') < D" using 3(5,6) by (auto simp: herdSetting_def)
  have calls: "\<And>a j. ev = Called a j \<Longrightarrow> herdCall k ttl codec v j" using 3(4) by (simp add: herdEvent_def)
  from mstep_group [OF h(1) g l 3(3)] have l': "linked c s'" "gInv inflight (mGroup s')"
    using gstep_inv [OF h(1) g] g by auto
  from mstep_herd [OF h(1) g l 3(3) inv h(2-4) calls early] mstep_moves [OF 3(3) inv h(2,4) early(1)] l'
  show ?case by simp
next
  case (4 evs s w)
  then show ?case using herdInv_stable by auto
next
  case (5 evs s ev s')
  then have "wfRuntime (rt w0)" by (simp add: herdSetting_def)
  from early_step [OF 5(2) this 5(1), of D] 5(4) show ?case by simp
qed

text \<open>As long as the clock has not reached \<open>D\<close>, the invariant holds with the number of loads so far; of a fleet, in every process.\<close>

lemma mrun_herd:
  assumes "singleflight sf inflight" "inflight g0 = Map.empty" "wfRuntime (rt w0)"
    and "view (store w0) (now w0) k = None" "cfg = configOf c w0"
    and "earlyRefreshBeta cfg \<le> 0" "storesGood c expiry ttl codec cfg v w0 D"
    and "mrun c sf (newMachine w0 g0) evs s" "herdRun k ttl codec v evs" "now (mWorld s) < D"
  shows "herdInv c view k ttl codec cfg v w0 D (loaderCalls k evs) s"
proof -
  have "herdSetting c view expiry sf inflight w0 g0 k ttl codec cfg v D" using assms(1-7) by (simp add: herdSetting_def)
  with timed_process.mrun_tinv [OF herd_process assms(8)] assms(9,10) show ?thesis by (simp add: herdRun_events)
qed

lemma frun_herd:
  assumes "singleflight sf inflight" "inflight g0 = Map.empty" "wfRuntime (rt w0)"
    and "view (store w0) (now w0) k = None" "cfg = configOf c w0"
    and "earlyRefreshBeta cfg \<le> 0" "storesGood c expiry ttl codec cfg v w0 D"
    and "frun c sf (newFleet w0 g0) evs F" "\<forall>p. herdRun k ttl codec v (eventsOf p evs)" "now (fWorld F) < D"
  shows "herdInv c view k ttl codec cfg v w0 D (loaderCalls k (eventsOf p evs)) (procView F p)"
proof -
  have "herdSetting c view expiry sf inflight w0 g0 k ttl codec cfg v D" using assms(1-7) by (simp add: herdSetting_def)
  moreover have "\<forall>(p, ev)\<in>set evs. herdEvent k ttl codec v ev" using assms(9) by (auto simp: herdRun_events set_eventsOf)
  ultimately show ?thesis using timed_process.frun_tinv [OF herd_process assms(8)] assms(10) by simp
qed

end

section \<open>The memory cache\<close>

lemma fresh_until:
  assumes "nsPerMilli \<le> t" "t < 2 ^ 63" "u < t - nsPerMilli"
  shows "\<not> stale (fst (parseEnvelope (wrapEnvelope p t d))) u"
proof -
  have "1 \<le> t div nsPerMilli" using zdiv_mono1 [OF assms(1), of nsPerMilli] by simp
  moreover have "t div nsPerMilli < 2 ^ 63" using zdiv_mono1 [of t "2 ^ 63 - 1" nsPerMilli] assms(2) by simp
  ultimately have "msRange t" by (simp add: msRange_def)
  from wrapped_stale_bounds [OF this, of u p d] assms(1,3) show ?thesis by auto
qed

lemma packed_shape:
  assumes "packForStore p ttl d cfg w = ((data, st), w1)" "ttlJitter cfg \<le> 0"
    and "eff = (if sint ttl \<le> 0 then defaultTTL cfg else ttl)" "0 < sint eff"
  shows "if envelopeEnabled cfg then data = wrapEnvelope p (now w + sint eff) d \<and> st = eff + staleTTL cfg
    else data = p \<and> st = ttl"
proof -
  have fresh: "eff = fst (applyJitter (if sint ttl \<le> 0 then defaultTTL cfg else ttl) (ttlJitter cfg) w)"
    using assms(2,3) by simp
  show ?thesis
    using packForStore_window [OF assms(1) _ fresh] assms(1,4) packForStore_plain [of cfg p ttl d w]
    by (auto simp: tAdd_def split: if_splits)
qed

lemma packed_goodEntry:
  assumes "packForStore p ttl d cfg w = ((data, st), w1)" "Unmarshal codec p = Inr v" "envelopeEnabled cfg \<or> \<not> isNegativeEntry p"
    and "ttlJitter cfg \<le> 0" "eff = (if sint ttl \<le> 0 then defaultTTL cfg else ttl)" "nsPerMilli \<le> now w"
    and "D \<le> now w + sint eff - nsPerMilli" "0 < sint eff" "now w + sint eff < 2 ^ 63"
  shows "goodEntry codec cfg v D data"
proof -
  have "\<not> stale (fst (parseStored cfg data)) u" if "u < D" for u
  proof (cases "envelopeEnabled cfg")
    case False
    then show ?thesis by (simp add: parseStored_def stale_def emptyEnvelope_def isZero_def)
  next
    case True
    with packed_shape [OF assms(1,4,5,8)] fresh_until [of "now w + sint eff" u p d] assms(6-9) that show ?thesis
      by (simp add: parseStored_def)
  qed
  then show ?thesis
    using packForStore_not_negative [OF assms(1,3)] packForStore_payload [OF assms(1)] assms(2)
    by (simp add: goodEntry_def)
qed

lemma packed_lives:
  fixes w :: "(('c, 'h) MemoryCache, 'h) world"
  assumes "packForStore p ttl d cfg w = ((data, st), w1)" "cfg = memConfig (store w)" "wfRuntime (rt w)" "ttlJitter cfg \<le> 0"
    and "0 \<le> sint (staleTTL cfg)" "eff = (if sint ttl \<le> 0 then defaultTTL cfg else ttl)"
    and "sint eff + sint (staleTTL cfg) < 2 ^ 63" "0 \<le> now w" "t < now w + sint eff"
  shows "livesUntil (memExpiry data st w1) t"
proof -
  have m: "mcDefaultTTL (store w) = defaultTTL cfg" "mcTTLJitter (store w) = ttlJitter cfg" "mcStaleTTL (store w) = staleTTL cfg"
    by (simp_all add: assms(2) memConfig_def)
  show ?thesis
    using memExpiry_packed [OF assms(1) [unfolded assms(2)] assms(3), unfolded m, OF assms(4,8,6,5,7)] assms(9) by simp
qed

text \<open>
  A backend keeps what is stored until \<open>D\<close>, if it keeps it for the backend TTL.
\<close>

lemma packed_storesGood:
  assumes "wfRuntime (rt w0)" "Marshal codec v = Inr p" "Unmarshal codec p = Inr v"
    and "envelopeEnabled cfg \<or> \<not> isNegativeEntry p" "ttlJitter cfg \<le> 0"
    and "eff = (if sint ttl \<le> 0 then defaultTTL cfg else ttl)"
    and "nsPerMilli \<le> now w0" "D = now w0 + sint eff - nsPerMilli" "D + sint eff < 2 ^ 63"
    and lives: "\<And>d w data st w1 t. advances w0 w \<Longrightarrow> wfRuntime (rt w) \<Longrightarrow> now w0 \<le> now w \<Longrightarrow> configOf c w = cfg \<Longrightarrow> packForStore p ttl d cfg w = ((data, st), w1) \<Longrightarrow>
      0 < sint eff \<Longrightarrow> t < D \<Longrightarrow> livesUntil (expiry data st w1) t"
  shows "storesGood c expiry ttl codec cfg v w0 D"
  unfolding storesGood_def
proof (intro exI conjI allI impI)
  show "Marshal codec v = Inr p" by (rule assms(2))
  fix d w data st w1
  assume w: "advances w0 w" "now w < D" "configOf c w = cfg" "packForStore p ttl d cfg w = ((data, st), w1)"
  have le: "now w0 \<le> now w" and wf: "wfRuntime (rt w)" using assms(1) w(1) by (auto intro: now_mono dest: advances_rt)
  have pos: "0 < sint eff" using w(2) le assms(8) by simp
  show "goodEntry codec cfg v D data"
    by (rule packed_goodEntry [OF w(4) assms(3-6)]) (use w(2) le pos assms(7-9) in auto)
  show "livesUntil (expiry data st w1) t" if "t < D" for t by (rule lives [OF w(1) wf le w(3,4) pos that])
qed

lemma memory_storesGood:
  fixes w0 :: "(('c, 'h) MemoryCache, 'h) world"
  assumes "wfRuntime (rt w0)" "Marshal codec v = Inr p" "Unmarshal codec p = Inr v"
    and "envelopeEnabled cfg \<or> \<not> isNegativeEntry p" "ttlJitter cfg \<le> 0" "0 \<le> sint (staleTTL cfg)"
    and "eff = (if sint ttl \<le> 0 then defaultTTL cfg else ttl)" "sint eff + sint (staleTTL cfg) < 2 ^ 63"
    and "nsPerMilli \<le> now w0" "D = now w0 + sint eff - nsPerMilli" "D + sint eff < 2 ^ 63"
  shows "storesGood (memoryCache a) memExpiry ttl codec cfg v w0 D"
proof (rule packed_storesGood [OF assms(1-5,7,9-11)])
  fix d data st w1 t and w :: "(('c, 'h) MemoryCache, 'h) world"
  assume w: "advances w0 w" "wfRuntime (rt w)" "now w0 \<le> now w" "configOf (memoryCache a) w = cfg"
    "packForStore p ttl d cfg w = ((data, st), w1)" "0 < sint eff" "t < D"
  show "livesUntil (memExpiry data st w1) t"
    by (rule packed_lives [OF w(5) _ w(2) assms(5-8)]) (use w(3,4,7) assms(9,10) in auto)
qed

interpretation memh: timed_process "memoryCache a" sf w0 g0 "\<lambda>_ s. wfRuntime (rt w0) \<longrightarrow> callsLoad s \<and> advances w0 (mWorld s)"
  "\<lambda>w w'. wfRuntime (rt w0) \<longrightarrow> advances w w'" callLoads
  "\<lambda>evs s. gInv inflight (mGroup s) \<and> linked (memoryCache a) s \<and> herdInv (memoryCache a) memView k ttl codec cfg v w0 D (loaderCalls k evs) s"
  "entryMoves (memoryCache a) memView k codec cfg v D" "herdEvent k ttl codec v"
  "\<lambda>w. herdSetting (memoryCache a) memView memExpiry sf inflight w0 g0 k ttl codec cfg v D \<and> now w < D"
  for a sf w0 g0 inflight k ttl codec cfg v D
  by (rule mem.herd_process)

section \<open>Property\<close>

lemma herdInv_outcome:
  assumes "herdInv c view k ttl codec cfg v w0 D n s"
  shows "n \<le> 1 \<and> (\<forall>a j r. mCalls s a = Some (j, Done r) \<longrightarrow> clKey j = k \<longrightarrow>
    r = Inr v \<or> (\<exists>i e. callers (mGroup s) a = Some (GaveUp i e) \<and> r = Inl e))"
proof -
  note inv = herdInvD(3,6) [OF assms]
  from inv(2) have "n \<le> 1" by (rule herdContent_le)
  with inv(1) show ?thesis by (fastforce simp: herdCalls_def callerOk_def)
qed



end
