(* ===== verification/Serving.thy ===== *)
theory Serving
  imports Herd Refresh
begin

text \<open>
  Requests do not wait for refreshes: while a key has a decodable entry, fresh or stale, any number of
  \<open>GetOrSet\<close> calls for it, interleaved in any way with the refreshes they ask for and with calls for other
  keys, are answered from the cache. None waits for a flight, heals the entry or returns an error.

  An invariant of the machine of theory Interleaving again, with a single shape: the key's entry serves one of the values
  that were cached or loaded, until \<open>D\<close>.
\<close>

section \<open>Setting\<close>

definition serves :: "'v Codec \<Rightarrow> 'h cacheConfig \<Rightarrow> 'v set \<Rightarrow> bytes \<Rightarrow> bool" where
  "serves codec cfg V data \<longleftrightarrow> \<not> isNegativeEntry data \<and> (\<exists>v\<in>V. Unmarshal codec (snd (parseStored cfg data)) = Inr v)"

text \<open>
  The loaders of the key return values of \<open>V\<close>, panic, or fail with anything but a not-found that negative caching would
  store over the entry.
\<close>

definition okLoad :: "'h cacheConfig \<Rightarrow> 'v set \<Rightarrow> 'v outcome \<Rightarrow> bool" where
  "okLoad cfg V r \<longleftrightarrow> (case r of Ret v \<Rightarrow> v \<in> V
     | Err e \<Rightarrow> \<not> (0 < sint (negativeTTL cfg) \<and> errorsIs e ErrNotFound)
     | Panic _ \<Rightarrow> True)"

definition servingCall :: "key \<Rightarrow> duration \<Rightarrow> 'v Codec \<Rightarrow> 'h cacheConfig \<Rightarrow> 'v set \<Rightarrow> ('v, 's, 'h) call \<Rightarrow> bool" where
  "servingCall k ttl codec cfg V j \<longleftrightarrow>
     (if clKey j = k then clTTL j = ttl \<and> clCodec j = codec \<and> (\<exists>r. okLoad cfg V r \<and> loads (clLoader j) r)
      else \<exists>r. loads (clLoader j) r)"

definition servingRun :: "key \<Rightarrow> duration \<Rightarrow> 'v Codec \<Rightarrow> 'h cacheConfig \<Rightarrow> 'v set \<Rightarrow> ('v, 's, 'h) machineEvent list \<Rightarrow> bool" where
  "servingRun k ttl codec cfg V evs \<longleftrightarrow> (\<forall>a j. Called a j \<in> set evs \<longrightarrow> servingCall k ttl codec cfg V j)"

text \<open>Whatever value of \<open>V\<close> is stored during the run, its entry serves it and lives until \<open>D\<close>.\<close>

definition storesServing :: "('s, 'h) Cache \<Rightarrow> (bytes \<Rightarrow> duration \<Rightarrow> ('s, 'h) world \<Rightarrow> time option) \<Rightarrow> duration \<Rightarrow>
    'v Codec \<Rightarrow> 'h cacheConfig \<Rightarrow> 'v set \<Rightarrow> ('s, 'h) world \<Rightarrow> time \<Rightarrow> bool" where
  "storesServing c expiry ttl codec cfg V w0 D \<longleftrightarrow> (\<forall>v\<in>V. \<exists>p. Marshal codec v = Inr p \<and>
     (\<forall>d w data st w1. advances w0 w \<longrightarrow> configOf c w = cfg \<longrightarrow> packForStore p ttl d cfg w = ((data, st), w1) \<longrightarrow>
        serves codec cfg V data \<and> (\<forall>t<D. livesUntil (expiry data st w1) t)))"

section \<open>The invariant\<close>

definition servedPc :: "'v set \<Rightarrow> 'v callerPc \<Rightarrow> bool" where
  "servedPc V pc \<longleftrightarrow> (case pc of Start \<Rightarrow> True | Refreshing r _ \<Rightarrow> r \<in> Inr ` V | Done r \<Rightarrow> r \<in> Inr ` V | _ \<Rightarrow> False)"

definition servingPc :: "'h cacheConfig \<Rightarrow> 'v set \<Rightarrow> 'v flightPc \<Rightarrow> bool" where
  "servingPc cfg V pc \<longleftrightarrow> (case pc of FHealing _ _ \<Rightarrow> False | Loaded _ res \<Rightarrow> \<exists>r. okLoad cfg V r \<and> loadedAs r res | _ \<Rightarrow> True)"

definition entryServes :: "('s \<Rightarrow> time \<Rightarrow> key \<Rightarrow> bytes option) \<Rightarrow> key \<Rightarrow> 'v Codec \<Rightarrow> 'h cacheConfig \<Rightarrow> 'v set \<Rightarrow> time \<Rightarrow>
    ('s, 'h) world \<Rightarrow> bool" where
  "entryServes view k codec cfg V D w \<longleftrightarrow> (\<exists>data. serves codec cfg V data
     \<and> (\<forall>t. now w \<le> t \<longrightarrow> t < D \<longrightarrow> view (store w) t k = Some data))"

definition servCalls :: "key \<Rightarrow> duration \<Rightarrow> 'v Codec \<Rightarrow> 'h cacheConfig \<Rightarrow> 'v set \<Rightarrow> ('v, 's, 'h, 'g) machine \<Rightarrow> bool" where
  "servCalls k ttl codec cfg V s \<longleftrightarrow> (\<forall>a j pc. mCalls s a = Some (j, pc) \<longrightarrow>
     servingCall k ttl codec cfg V j \<and> clCfg j = cfg \<and> (clKey j = k \<longrightarrow> servedPc V pc))"

definition servBodies :: "key \<Rightarrow> duration \<Rightarrow> 'v Codec \<Rightarrow> 'h cacheConfig \<Rightarrow> 'v set \<Rightarrow> ('v, 's, 'h, 'g) machine \<Rightarrow> bool" where
  "servBodies k ttl codec cfg V s \<longleftrightarrow> (\<forall>i b. mBodies s i = Some b \<longrightarrow>
     servingCall k ttl codec cfg V (bdCall b) \<and> clCfg (bdCall b) = cfg \<and> (clKey (bdCall b) = k \<longrightarrow> servingPc cfg V (bdPc b)))"

definition servInv :: "('s, 'h) Cache \<Rightarrow> ('s \<Rightarrow> time \<Rightarrow> key \<Rightarrow> bytes option) \<Rightarrow> key \<Rightarrow> duration \<Rightarrow> 'v Codec \<Rightarrow>
    'h cacheConfig \<Rightarrow> 'v set \<Rightarrow> ('s, 'h) world \<Rightarrow> time \<Rightarrow> ('v, 's, 'h, 'g) machine \<Rightarrow> bool" where
  "servInv c view k ttl codec cfg V w0 D s \<longleftrightarrow> advances w0 (mWorld s) \<and> configOf c (mWorld s) = cfg
     \<and> servCalls k ttl codec cfg V s \<and> servBodies k ttl codec cfg V s \<and> entryServes view k codec cfg V D (mWorld s)"

lemma servInvD:
  assumes "servInv c view k ttl codec cfg V w0 D s"
  shows "advances w0 (mWorld s)" "configOf c (mWorld s) = cfg" "servCalls k ttl codec cfg V s" "servBodies k ttl codec cfg V s"
    "entryServes view k codec cfg V D (mWorld s)"
  using assms unfolding servInv_def by blast+

lemma servCallsD:
  assumes "servCalls k ttl codec cfg V s" "mCalls s a = Some (j, pc)"
  shows "servingCall k ttl codec cfg V j" "clCfg j = cfg" "clKey j = k \<Longrightarrow> servedPc V pc"
  using assms unfolding servCalls_def by blast+

lemma servBodiesD:
  assumes "servBodies k ttl codec cfg V s" "mBodies s i = Some b"
  shows "servingCall k ttl codec cfg V (bdCall b)" "clCfg (bdCall b) = cfg" "clKey (bdCall b) = k \<Longrightarrow> servingPc cfg V (bdPc b)"
  using assms unfolding servBodies_def by blast+

lemma servingCall_loads: "servingCall k ttl codec cfg V j \<Longrightarrow> \<exists>r. loads (clLoader j) r"
  unfolding servingCall_def by (auto split: if_splits)

lemma entryServes_keeps:
  assumes "entryServes view k codec cfg V D w" "keeps c view k w w'" "wfRuntime (rt w)"
  shows "entryServes view k codec cfg V D w'"
proof -
  have "now w \<le> now w'" using assms(2,3) by (auto simp: keeps_def intro: now_mono)
  moreover obtain data where "serves codec cfg V data" "\<forall>t. now w \<le> t \<longrightarrow> t < D \<longrightarrow> view (store w) t k = Some data"
    using assms(1) unfolding entryServes_def by blast
  ultimately show ?thesis using assms(2) unfolding entryServes_def keeps_def by (intro exI [of _ data]) simp
qed

lemma servInv_wf: "servInv c view k ttl codec cfg V w0 D s \<Longrightarrow> wfRuntime (rt w0) \<Longrightarrow> wfRuntime (rt (mWorld s))"
  using servInvD(1) advances_rt by metis

text \<open>A step that keeps the entry and changes the call \<open>a\<close> or the body \<open>i\<close>.\<close>

lemma servInv_keeps:
  assumes "servInv c view k ttl codec cfg V w0 D s" "wfRuntime (rt w0)" "keeps c view k (mWorld s) (mWorld s')"
    and "servCalls k ttl codec cfg V s'" "servBodies k ttl codec cfg V s'"
  shows "servInv c view k ttl codec cfg V w0 D s'"
  using servInvD [OF assms(1)] entryServes_keeps [OF _ assms(3) servInv_wf [OF assms(1,2)]] assms(3-5)
  by (auto simp: servInv_def keeps_def intro: advances_trans)

lemma servCalls_set:
  assumes "servCalls k ttl codec cfg V s" "mCalls s' = (mCalls s)(a \<mapsto> (j, pc))"
    and "servingCall k ttl codec cfg V j" "clCfg j = cfg" "clKey j = k \<Longrightarrow> servedPc V pc"
  shows "servCalls k ttl codec cfg V s'"
  using assms unfolding servCalls_def by (auto split: if_splits)

lemma servCalls_cong: "servCalls k ttl codec cfg V s \<Longrightarrow> mCalls s' = mCalls s \<Longrightarrow> servCalls k ttl codec cfg V s'"
  by (simp add: servCalls_def)

lemma servBodies_cong: "servBodies k ttl codec cfg V s \<Longrightarrow> mBodies s' = mBodies s \<Longrightarrow> servBodies k ttl codec cfg V s'"
  by (simp add: servBodies_def)

lemma servBodies_register:
  assumes "servBodies k ttl codec cfg V s" "servingCall k ttl codec cfg V j" "clCfg j = cfg"
  shows "servBodies k ttl codec cfg V (setCall a j pc (register c j opts bg g s))"
  using assms unfolding servBodies_def by (auto simp: register_def servingPc_def split: if_splits)

lemma servInv_call:
  assumes "servInv c view k ttl codec cfg V w0 D s" "wfRuntime (rt w0)" "keeps c view k (mWorld s) (mWorld s')"
    and "mCalls s' = (mCalls s)(a \<mapsto> (j, pc))" "mBodies s' = mBodies s"
    and "servingCall k ttl codec cfg V j" "clCfg j = cfg" "clKey j = k \<Longrightarrow> servedPc V pc"
  shows "servInv c view k ttl codec cfg V w0 D s'"
  by (rule servInv_keeps [OF assms(1-3) servCalls_set [OF servInvD(3) [OF assms(1)] assms(4,6-8)]
        servBodies_cong [OF servInvD(4) [OF assms(1)] assms(5)]])

lemma servInv_register:
  assumes "servInv c view k ttl codec cfg V w0 D s" "wfRuntime (rt w0)" "mCalls s a = Some (j, pc0)"
    and "clKey j = k \<Longrightarrow> servedPc V pc"
  shows "servInv c view k ttl codec cfg V w0 D (setCall a j pc (register c j opts bg g s))"
proof (rule servInv_keeps [OF assms(1,2)])
  note i = servInvD [OF assms(1)]
  note j = servCallsD [OF i(3) assms(3)]
  show "servCalls k ttl codec cfg V (setCall a j pc (register c j opts bg g s))"
    by (rule servCalls_set [OF i(3) _ j(1,2) assms(4)]) simp_all
  show "servBodies k ttl codec cfg V (setCall a j pc (register c j opts bg g s))"
    by (rule servBodies_register [OF i(4) j(1,2)])
qed simp

lemma servInv_body:
  assumes "servInv c view k ttl codec cfg V w0 D s" "wfRuntime (rt w0)" "mBodies s i = Some b" "keeps c view k (mWorld s) w"
    and "clKey (bdCall b) = k \<Longrightarrow> servingPc cfg V pc"
  shows "servInv c view k ttl codec cfg V w0 D (setBody i b pc w s)"
proof (rule servInv_keeps [OF assms(1,2)])
  note i = servInvD [OF assms(1)]
  show "servCalls k ttl codec cfg V (setBody i b pc w s)" by (rule servCalls_cong [OF i(3)]) simp
  show "servBodies k ttl codec cfg V (setBody i b pc w s)"
    using i(4) assms(3,5) unfolding servBodies_def by (auto split: if_splits)
qed (use assms(4) in simp)

context reliable_cache begin

lemma servInv_returned:
  assumes "servInv c view k ttl codec cfg V w0 D s" "wfRuntime (rt w0)" "mBodies s i = Some b"
    and "advances (mWorld s) w" "configOf c w = cfg" "entryServes view k codec cfg V D w"
  shows "servInv c view k ttl codec cfg V w0 D (returned sf i f b out w s)"
proof -
  note i = servInvD [OF assms(1)]
  obtain out' w' where r: "(if bdRefresh b then refreshOutcome (bdCall b) out w else (out, w)) = (out', w')" by force
  then have w': "mWorld (returned sf i f b out w s) = w'" by (simp add: returned_def)
  have kp: "keeps c view k w w'" using r refreshOutcome_keeps by (auto split: if_splits)
  have "wfRuntime (rt w)" using servInv_wf [OF assms(1,2)] assms(4) by (auto dest: advances_rt)
  then have "entryServes view k codec cfg V D w'" by (rule entryServes_keeps [OF assms(6) kp])
  moreover have "advances w0 w'" "configOf c w' = cfg"
    using i(1) assms(4,5) kp by (auto simp: keeps_def intro: advances_trans)
  moreover have "servCalls k ttl codec cfg V (returned sf i f b out w s)" by (rule servCalls_cong [OF i(3)]) simp
  moreover have "servBodies k ttl codec cfg V (returned sf i f b out w s)"
    using i(4) unfolding servBodies_def by (auto split: if_splits)
  ultimately show ?thesis using w' by (simp add: servInv_def)
qed

lemma lookupRead_serves:
  assumes "view (store w) (now w) (clKey j) = Some data" "serves (clCodec j) (clCfg j) V data" "lookupRead c j w = (ls, w')"
  shows "servedPc V (afterRead ls)"
proof -
  obtain w1 where g: "cGet c (clCtx j) (clKey j) w = (Inr data, w1)" using assms(1) by (rule get_present)
  obtain env p where e: "parseStored (clCfg j) data = (env, p)" by force
  from assms(2) e obtain v where v: "v \<in> V" "Unmarshal (clCodec j) p = Inr v" "\<not> isNegativeEntry data"
    by (auto simp: serves_def)
  with assms(3) g e obtain req where "ls = Answer (Inr v) req"
    by (auto simp: lookupRead_def split: prod.splits if_splits)
  with v(1) show ?thesis by (auto simp: afterRead_def servedPc_def split: option.splits)
qed

lemma recheckRead_serves:
  assumes "view (store w) (now w) (clKey j) = Some data" "serves (clCodec j) (clCfg j) V data" "recheckRead c j opts fctx w = (rs, w')"
  shows "rs \<noteq> FoundCorrupt e"
proof -
  obtain w1 where g: "cGet c fctx (clKey j) w = (Inr data, w1)" using assms(1) by (rule get_present)
  from assms(2,3) g show ?thesis
    by (auto simp: serves_def recheckRead_def Let_def split: prod.splits if_splits)
qed

lemma storeLoaded_serves:
  assumes "storesServing c expiry ttl codec cfg V w0 D" "okLoad cfg V r" "loadedAs r res" "advances w0 w" "configOf c w = cfg"
    and "storeLoaded c k ttl codec cfg fctx res w = (out, w')" "entryServes view k codec cfg V D w"
  shows "advances w w' \<and> configOf c w' = cfg \<and> entryServes view k codec cfg V D w'"
proof (cases r)
  case (Ret v)
  with assms(2,3) obtain d where v: "v \<in> V" and res: "res = Ret (v, d)" by (auto simp: okLoad_def)
  obtain p where p: "Marshal codec v = Inr p" and good: "\<forall>d w data st w1. advances w0 w \<longrightarrow> configOf c w = cfg \<longrightarrow>
      packForStore p ttl d cfg w = ((data, st), w1) \<longrightarrow>
      serves codec cfg V data \<and> (\<forall>t<D. livesUntil (expiry data st w1) t)"
    using assms(1) v unfolding storesServing_def by blast
  obtain data st w1 w2 where pk: "packForStore p ttl d cfg w = ((data, st), w1)"
    and sl: "storeLoaded c k ttl codec cfg fctx (Ret (v, d)) w = (Ret data, w2)"
    and adv: "advances w w2"
    and vw: "\<forall>t. view (store w2) t k = (if livesUntil (expiry data st w1) t then Some data else None)"
    and oth: "\<forall>t k'. k' \<noteq> k \<longrightarrow> view (store w2) t k' = view (store w) t k'"
    and cf: "configOf c w2 = configOf c w"
    by (rule storeLoaded_ret [where ttl = ttl and d = d and cfg = cfg and w = w and k = k and fctx = fctx, OF p])
  from good [rule_format, OF assms(4,5) pk] have g: "serves codec cfg V data" "\<forall>t<D. livesUntil (expiry data st w1) t" by blast+
  have "w' = w2" using sl assms(6) res by simp
  with g vw adv cf assms(5) show ?thesis unfolding entryServes_def by auto
qed (use assms(2,3,5-7) in \<open>auto simp: storeLoaded_def okLoad_def\<close>)

end

section \<open>Every step keeps the invariant\<close>

context reliable_cache begin

lemma serv_read:
  assumes "servInv c view k ttl codec cfg V w0 D s" "wfRuntime (rt w0)" "mCalls s a = Some (j, Start)"
    and "lookupRead c j (mWorld s) = (ls, w)" "now (mWorld s) < D"
  shows "servInv c view k ttl codec cfg V w0 D (setCall a j (afterRead ls) (s\<lparr>mWorld := w\<rparr>))"
proof -
  note i = servInvD [OF assms(1)]
  note j = servCallsD [OF i(3) assms(3)]
  have ok: "servedPc V (afterRead ls)" if k: "clKey j = k"
  proof -
    obtain data where d: "serves codec cfg V data" "view (store (mWorld s)) (now (mWorld s)) k = Some data"
      using i(5) assms(5) unfolding entryServes_def by blast
    show ?thesis
      by (rule lookupRead_serves [OF _ _ assms(4)]) (use d j(1,2) k in \<open>simp_all add: servingCall_def\<close>)
  qed
  show ?thesis
    by (rule servInv_call [OF assms(1,2) _ _ _ j(1,2) ok])
      (use lookupRead_keeps [OF assms(4) servInv_wf [OF assms(1,2)]] in simp_all)
qed

lemma servInv_returned_keeps:
  assumes "servInv c view k ttl codec cfg V w0 D s" "wfRuntime (rt w0)" "mBodies s i = Some b" "keeps c view k (mWorld s) w"
  shows "servInv c view k ttl codec cfg V w0 D (returned sf i f b out w s)"
proof (rule servInv_returned [OF assms(1-3)])
  note inv = servInvD [OF assms(1)]
  show "advances (mWorld s) w" "configOf c w = cfg" using assms(4) inv(2) by (simp_all add: keeps_def)
  show "entryServes view k codec cfg V D w"
    by (rule entryServes_keeps [OF inv(5) assms(4) servInv_wf [OF assms(1,2)]])
qed

lemma serv_recheck:
  assumes "servInv c view k ttl codec cfg V w0 D s" "wfRuntime (rt w0)" "mBodies s i = Some b"
    and fc: "flightContext (clCtx (bdCall b)) (bdOpts b) (mWorld s) = (fctx, w1)"
    and rr: "recheckRead c (bdCall b) (bdOpts b) fctx w1 = (rs, w)" and "now w < D"
  shows "servInv c view k ttl codec cfg V w0 D (afterRecheck sf i f b fctx rs w s)"
proof -
  note inv = servInvD [OF assms(1)]
  note wf = servInv_wf [OF assms(1,2)]
  note b = servBodiesD [OF inv(4) assms(3)]
  have k1: "keeps c view k (mWorld s) w1" using fc by (rule flightContext_keeps)
  then have wf1: "wfRuntime (rt w1)" using wf by (auto simp: keeps_def dest: advances_rt)
  have k2: "keeps c view k w1 w" by (rule recheckRead_keeps [OF rr wf1])
  note kp = keeps_trans [OF k1 k2 wf]
  have own: "rs \<noteq> FoundCorrupt e" if k: "clKey (bdCall b) = k" for e
  proof -
    have "now w1 \<le> now w" using k2 wf1 by (auto simp: keeps_def intro: now_mono)
    moreover have "entryServes view k codec cfg V D w1" by (rule entryServes_keeps [OF inv(5) k1 wf])
    ultimately obtain data where d: "serves codec cfg V data" "view (store w1) (now w1) k = Some data"
      using assms(6) unfolding entryServes_def by fastforce
    show ?thesis
      by (rule recheckRead_serves [OF _ _ rr]) (use d b(1,2) k in \<open>simp_all add: servingCall_def\<close>)
  qed
  note step = servInv_returned_keeps [OF assms(1-3) kp] servInv_body [OF assms(1-3) kp]
  show ?thesis
  proof (cases rs)
    case (FoundCorrupt e)
    with own have "clKey (bdCall b) \<noteq> k" by blast
    with FoundCorrupt step(2) show ?thesis by (simp add: afterRecheck_def)
  qed (simp_all add: afterRecheck_def step servingPc_def)
qed

lemma serv_loaded:
  assumes "servInv c view k ttl codec cfg V w0 D s" "wfRuntime (rt w0)" "mBodies s i = Some b"
    and "finishLoad (bdCall b) fctx t (mWorld s) = (res, w)"
  shows "servInv c view k ttl codec cfg V w0 D (setBody i b (Loaded fctx res) w s)"
proof -
  note b = servBodiesD [OF servInvD(4) [OF assms(1)] assms(3)]
  obtain r where r: "loads (clLoader (bdCall b)) r" and ok: "clKey (bdCall b) = k \<Longrightarrow> okLoad cfg V r"
    using b(1) unfolding servingCall_def by (auto split: if_splits)
  note f = finishLoad_outcome [OF r assms(4)]
  show ?thesis
    by (rule servInv_body [OF assms(1-3) f(2)]) (use f(1) ok in \<open>auto simp: servingPc_def\<close>)
qed

lemma serv_stored:
  assumes "servInv c view k ttl codec cfg V w0 D s" "wfRuntime (rt w0)" "mBodies s i = Some b" "bdPc b = Loaded fctx res"
    and st: "storeLoaded c (clKey (bdCall b)) (clTTL (bdCall b)) (clCodec (bdCall b)) (clCfg (bdCall b)) fctx res (mWorld s)
      = (out, w)"
    and "storesServing c expiry ttl codec cfg V w0 D"
  shows "servInv c view k ttl codec cfg V w0 D (returned sf i f b out w s)"
proof -
  note inv = servInvD [OF assms(1)]
  note b = servBodiesD [OF inv(4) assms(3)]
  show ?thesis
  proof (cases "clKey (bdCall b) = k")
    case True
    obtain r where r: "okLoad cfg V r" "loadedAs r res" using b(3) [OF True] assms(4) by (auto simp: servingPc_def)
    have eq: "clTTL (bdCall b) = ttl" "clCodec (bdCall b) = codec" using b(1) True by (simp_all add: servingCall_def)
    from storeLoaded_serves [OF assms(6) r inv(1,2) st [unfolded eq b(2) True] inv(5)]
    show ?thesis by (intro servInv_returned [OF assms(1-3)]) simp_all
  next
    case False
    from servInv_returned_keeps [OF assms(1-3) storeLoaded_keeps [OF st False servInv_wf [OF assms(1,2)]]] show ?thesis .
  qed
qed

lemma mstep_serving:
  assumes st: "mstep c sf s ev s'" and inv: "servInv c view k ttl codec cfg V w0 D s"
    and wf: "wfRuntime (rt w0)" and good: "storesServing c expiry ttl codec cfg V w0 D"
    and calls: "\<And>a j. ev = Called a j \<Longrightarrow> servingCall k ttl codec cfg V j" and early: "now (mWorld s) < D"
    and late: "now (mWorld s') < D"
  shows "servInv c view k ttl codec cfg V w0 D s'"
  using st inv calls early late
proof (induction rule: mstep.induct)
  case (called s a j)
  let ?j = "j\<lparr>clCfg := configOf c (mWorld s)\<rparr>"
  have "servingCall k ttl codec cfg V ?j" using called(3) by (simp add: servingCall_def)
  moreover have "clCfg ?j = cfg" using servInvD(2) [OF called(2)] by simp
  ultimately show ?case
    by (intro servInv_call [OF called(2) wf, of _ a ?j Start]) (simp_all add: servedPc_def)
next
  case (read s a j ls w)
  from serv_read [OF read(3) wf read(1,2,5)] show ?case .
next
  case (heal s a j e)
  note j = servCallsD [OF servInvD(3) [OF heal(2)] heal(1)]
  from j(3) have "clKey j \<noteq> k" by (auto simp: servedPc_def)
  then show ?case by (intro servInv_call [OF heal(2) wf _ _ _ j(1,2), of _ a Joining]) (simp_all add: keeps_heal)
next
  case (join s a j)
  from servCallsD(3) [OF servInvD(3) [OF join(2)] join(1)] have "clKey j \<noteq> k" by (auto simp: servedPc_def)
  then show ?case by (intro servInv_register [OF join(2) wf join(1)]) simp
next
  case (refresh s a j r opts)
  from servCallsD(3) [OF servInvD(3) [OF refresh(2)] refresh(1)] have "clKey j = k \<Longrightarrow> servedPc V (Done r)"
    by (simp add: servedPc_def)
  with servInv_register [OF refresh(2) wf refresh(1)] show ?case by blast
next
  case (result s a j i f r)
  note j = servCallsD [OF servInvD(3) [OF result(5)] result(1)]
  from j(3) have "clKey j \<noteq> k" by (auto simp: servedPc_def)
  then show ?case
    by (intro servInv_call [OF result(5) wf _ _ _ j(1,2), of _ a "Done (finishFlight (clCodec j) (clCfg j) (clKey j) r)"])
      simp_all
next
  case (ctx s a j i e)
  note j = servCallsD [OF servInvD(3) [OF ctx(4)] ctx(1)]
  from j(3) have "clKey j \<noteq> k" by (auto simp: servedPc_def)
  then show ?case by (intro servInv_call [OF ctx(4) wf _ _ _ j(1,2), of _ a "Done (Inl e)"]) simp_all
next
  case (recheck s i b f fctx w1 rs w2)
  then have "now w2 < D" by simp
  from serv_recheck [OF recheck(6) wf recheck(1,4,5) this] show ?case .
next
  case (flight_heal s i b fctx e)
  from servBodiesD(3) [OF servInvD(4) [OF flight_heal(3)] flight_heal(1)] flight_heal(2)
  have "clKey (bdCall b) \<noteq> k" by (auto simp: servingPc_def)
  with servInv_body [OF flight_heal(3) wf flight_heal(1) keeps_heal] show ?case by blast
next
  case (load s i b fctx t w)
  from servInv_body [OF load(4) wf load(1) keeps_timeNow [OF load(3)]] show ?case by (simp add: servingPc_def)
next
  case (loaded s i b fctx t res w)
  from serv_loaded [OF loaded(4) wf loaded(1,3)] show ?case .
next
  case (stored s i b fctx res f out w)
  from serv_stored [OF stored(5) wf stored(1,2,4) good] show ?case .
next
  case (flight_done s i f r)
  note inv = servInvD [OF flight_done(3)]
  show ?case
    by (rule servInv_keeps [OF flight_done(3) wf _ servCalls_cong [OF inv(3)] servBodies_cong [OF inv(4)]]) simp_all
next
  case (tick s)
  note inv = servInvD [OF tick(1)]
  obtain t w where "timeNow (mWorld s) = (t, w)" by force
  with keeps_timeNow have "keeps c view k (mWorld s) (snd (timeNow (mWorld s)))" by simp
  then show ?case
    by (intro servInv_keeps [OF tick(1) wf _ servCalls_cong [OF inv(3)] servBodies_cong [OF inv(4)]]) simp_all
qed

end

section \<open>All runs\<close>

definition servingSetting :: "('s, 'h) Cache \<Rightarrow> ('s \<Rightarrow> time \<Rightarrow> key \<Rightarrow> bytes option) \<Rightarrow>
    (bytes \<Rightarrow> duration \<Rightarrow> ('s, 'h) world \<Rightarrow> time option) \<Rightarrow> ('s, 'h) world \<Rightarrow>
    key \<Rightarrow> duration \<Rightarrow> 'v Codec \<Rightarrow> 'h cacheConfig \<Rightarrow> 'v set \<Rightarrow> time \<Rightarrow> bool" where
  "servingSetting c view expiry w0 k ttl codec cfg V D \<longleftrightarrow> wfRuntime (rt w0)
     \<and> (\<exists>data. (\<forall>t. now w0 \<le> t \<longrightarrow> t < D \<longrightarrow> view (store w0) t k = Some data) \<and> serves codec cfg V data)
     \<and> cfg = configOf c w0 \<and> storesServing c expiry ttl codec cfg V w0 D"

definition servingEvent :: "key \<Rightarrow> duration \<Rightarrow> 'v Codec \<Rightarrow> 'h cacheConfig \<Rightarrow> 'v set \<Rightarrow> ('v, 's, 'h) machineEvent \<Rightarrow> bool" where
  "servingEvent k ttl codec cfg V ev \<longleftrightarrow> (\<forall>a j. ev = Called a j \<longrightarrow> servingCall k ttl codec cfg V j)"

lemma servingRun_events: "servingRun k ttl codec cfg V evs \<longleftrightarrow> (\<forall>ev\<in>set evs. servingEvent k ttl codec cfg V ev)"
  by (auto simp: servingRun_def servingEvent_def)

text \<open>What a step of any process does to the key's entry: it may be replaced, but the key is served.\<close>

definition staysServed :: "('s, 'h) Cache \<Rightarrow> ('s \<Rightarrow> time \<Rightarrow> key \<Rightarrow> bytes option) \<Rightarrow> key \<Rightarrow> 'v Codec \<Rightarrow> 'h cacheConfig \<Rightarrow> 'v set \<Rightarrow> time \<Rightarrow>
    ('s, 'h) world \<Rightarrow> ('s, 'h) world \<Rightarrow> bool" where
  "staysServed c view k codec cfg V D w w' \<longleftrightarrow> advances w w' \<and> configOf c w' = configOf c w
     \<and> (entryServes view k codec cfg V D w \<longrightarrow> entryServes view k codec cfg V D w')"

lemma servInv_stable:
  assumes "servInv c view k ttl codec cfg V w0 D s" "staysServed c view k codec cfg V D (mWorld s) w"
  shows "servInv c view k ttl codec cfg V w0 D (s\<lparr>mWorld := w\<rparr>)" (is "servInv _ _ _ _ _ _ _ _ _ ?s")
proof -
  note inv = servInvD [OF assms(1)]
  have "servCalls k ttl codec cfg V ?s" by (rule servCalls_cong [OF inv(3)]) simp
  moreover have "servBodies k ttl codec cfg V ?s" by (rule servBodies_cong [OF inv(4)]) simp
  ultimately show ?thesis using inv(1,2,5) assms(2) by (auto simp: servInv_def staysServed_def intro: advances_trans)
qed

context reliable_cache begin

lemma serving_process:
  "timed_process c sf w0 g0 (\<lambda>_ s. wfRuntime (rt w0) \<longrightarrow> callsLoad s \<and> advances w0 (mWorld s))
     (\<lambda>w w'. wfRuntime (rt w0) \<longrightarrow> advances w w') callLoads
     (\<lambda>_ s. servInv c view k ttl codec cfg V w0 D s)
     (staysServed c view k codec cfg V D) (servingEvent k ttl codec cfg V)
     (\<lambda>w. servingSetting c view expiry w0 k ttl codec cfg V D \<and> now w < D)"
proof (rule timed_process.intro [OF loads_process], unfold_locales, goal_cases)
  case (1 ev)
  then show ?case by (auto simp: servingEvent_def callLoads_def intro: servingCall_loads)
next
  case 2
  then show ?case
    by (auto simp: servingSetting_def servInv_def newMachine_def servCalls_def servBodies_def entryServes_def)
next
  case (3 evs s ev s')
  have h: "wfRuntime (rt w0)" "storesServing c expiry ttl codec cfg V w0 D"
    and early: "now (mWorld s) < D" "now (mWorld s') < D" using 3(5,6) by (auto simp: servingSetting_def)
  have calls: "\<And>a j. ev = Called a j \<Longrightarrow> servingCall k ttl codec cfg V j" using 3(4) by (simp add: servingEvent_def)
  have inv': "servInv c view k ttl codec cfg V w0 D s'" by (rule mstep_serving [OF 3(3,2) h calls early])
  moreover have "advances (mWorld s) (mWorld s')"
    using mstep_advances [OF 3(3)] 3(1) h(1) by (auto dest: advances_rt)
  ultimately show ?case using servInvD(2) [OF 3(2)] servInvD(2,5) [OF inv'] by (simp add: staysServed_def)
next
  case (4 evs s w)
  then show ?case by (rule servInv_stable)
next
  case (5 evs s ev s')
  then have "wfRuntime (rt w0)" by (simp add: servingSetting_def)
  from early_step [OF 5(2) this 5(1), of D] 5(4) show ?case by simp
qed

lemma mrun_serving:
  assumes "wfRuntime (rt w0)" "\<forall>t. now w0 \<le> t \<longrightarrow> t < D \<longrightarrow> view (store w0) t k = Some data" "serves codec cfg V data"
    and "cfg = configOf c w0" "storesServing c expiry ttl codec cfg V w0 D"
    and "mrun c sf (newMachine w0 g0) evs s" "servingRun k ttl codec cfg V evs" "now (mWorld s) < D"
  shows "servInv c view k ttl codec cfg V w0 D s"
proof -
  have "servingSetting c view expiry w0 k ttl codec cfg V D" using assms(1-5) unfolding servingSetting_def by blast
  with timed_process.mrun_tinv [OF serving_process assms(6)] assms(7,8) show ?thesis by (simp add: servingRun_events)
qed

lemma frun_serving:
  assumes "wfRuntime (rt w0)" "\<forall>t. now w0 \<le> t \<longrightarrow> t < D \<longrightarrow> view (store w0) t k = Some data" "serves codec cfg V data"
    and "cfg = configOf c w0" "storesServing c expiry ttl codec cfg V w0 D"
    and "frun c sf (newFleet w0 g0) evs F" "\<forall>p. servingRun k ttl codec cfg V (eventsOf p evs)" "now (fWorld F) < D"
  shows "servInv c view k ttl codec cfg V w0 D (procView F p)"
proof -
  have "servingSetting c view expiry w0 k ttl codec cfg V D" using assms(1-5) unfolding servingSetting_def by blast
  moreover have "\<forall>(p, ev)\<in>set evs. servingEvent k ttl codec cfg V ev" using assms(7) by (auto simp: servingRun_events set_eventsOf)
  ultimately show ?thesis using timed_process.frun_tinv [OF serving_process assms(6)] assms(8) by simp
qed

end

section \<open>The memory cache\<close>

lemma packed_storesServing:
  assumes "wfRuntime (rt w0)" "\<forall>v\<in>V. \<exists>p. Marshal codec v = Inr p \<and> Unmarshal codec p = Inr v \<and> (envelopeEnabled cfg \<or> \<not> isNegativeEntry p)"
    and lives: "\<And>p d w data st w1 t. advances w0 w \<Longrightarrow> wfRuntime (rt w) \<Longrightarrow> now w0 \<le> now w \<Longrightarrow> configOf c w = cfg \<Longrightarrow>
      packForStore p ttl d cfg w = ((data, st), w1) \<Longrightarrow> t < D \<Longrightarrow> livesUntil (expiry data st w1) t"
  shows "storesServing c expiry ttl codec cfg V w0 D"
  unfolding storesServing_def
proof
  fix v assume "v \<in> V"
  with assms(2) obtain p where p: "Marshal codec v = Inr p" "Unmarshal codec p = Inr v" "envelopeEnabled cfg \<or> \<not> isNegativeEntry p"
    by blast
  have "serves codec cfg V data \<and> (\<forall>t<D. livesUntil (expiry data st w1) t)"
    if w: "advances w0 w" "configOf c w = cfg" "packForStore p ttl d cfg w = ((data, st), w1)" for d w data st w1
  proof (intro conjI allI impI)
    show "serves codec cfg V data"
      using packForStore_not_negative [OF w(3) p(3)] packForStore_payload [OF w(3)] p(2) \<open>v \<in> V\<close>
      by (auto simp: serves_def)
    have le: "now w0 \<le> now w" and wf: "wfRuntime (rt w)" using assms(1) w(1) by (auto intro: now_mono dest: advances_rt)
    show "livesUntil (expiry data st w1) t" if "t < D" for t by (rule lives [OF w(1) wf le w(2,3) that])
  qed
  with p(1) show "\<exists>p. Marshal codec v = Inr p \<and> (\<forall>d w data st w1. advances w0 w \<longrightarrow> configOf c w = cfg \<longrightarrow>
      packForStore p ttl d cfg w = ((data, st), w1) \<longrightarrow> serves codec cfg V data \<and> (\<forall>t<D. livesUntil (expiry data st w1) t))"
    by blast
qed

lemma memory_storesServing:
  fixes w0 :: "(('c, 'h) MemoryCache, 'h) world"
  assumes "wfRuntime (rt w0)" "\<forall>v\<in>V. \<exists>p. Marshal codec v = Inr p \<and> Unmarshal codec p = Inr v \<and> (envelopeEnabled cfg \<or> \<not> isNegativeEntry p)"
    and "ttlJitter cfg \<le> 0" "0 \<le> sint (staleTTL cfg)" "eff = (if sint ttl \<le> 0 then defaultTTL cfg else ttl)"
    and "sint eff + sint (staleTTL cfg) < 2 ^ 63" "0 \<le> now w0" "D \<le> now w0 + sint eff"
  shows "storesServing (memoryCache a) memExpiry ttl codec cfg V w0 D"
proof (rule packed_storesServing [OF assms(1,2)])
  fix p d data st w1 t and w :: "(('c, 'h) MemoryCache, 'h) world"
  assume w: "advances w0 w" "wfRuntime (rt w)" "now w0 \<le> now w" "configOf (memoryCache a) w = cfg"
    "packForStore p ttl d cfg w = ((data, st), w1)" "t < D"
  show "livesUntil (memExpiry data st w1) t"
    by (rule packed_lives [OF w(5) _ w(2) assms(3-6)]) (use w(3,4,6) assms(7,8) in auto)
qed

text \<open>For the worked instance: one call arrives at a cache with a stale entry, under a clock that stands still.\<close>

definition agedWorld :: "((nat, event list) MemoryCache, event list) world" where
  "agedWorld = (staleWorld 1699999999000000000)\<lparr>rt := (demoRuntime 0)\<lparr>clock := (\<lambda>_. 1700000000000000000)\<rparr>\<rparr>"

lemma agedWorld_simps [simp]:
  "clock (rt agedWorld) n = 1700000000000000000" "now agedWorld = 1700000000000000000"
  "memView (store agedWorld) t ''k'' = Some (staleBytes 1699999999000000000)"
  "memConfig (store agedWorld) = (memConfig demoMemory)\<lparr>staleTTL := minute\<rparr>" "wfRuntime (rt agedWorld)"
  using staleWorld_simps [of 1699999999000000000] wfRuntime_demo_zero
  by (simp_all add: agedWorld_def now_def wfRuntime_def mono_def)

definition agedCall :: "(nat, (nat, event list) MemoryCache, event list) call" where
  "agedCall = demoCall\<lparr>clLoader := constLoader (Ret 8), clCfg := (memConfig demoMemory)\<lparr>staleTTL := minute\<rparr>\<rparr>"

lemma agedCall_simps [simp]:
  "clCtx agedCall = Background" "clKey agedCall = ''k''" "clTTL agedCall = 0" "clCodec agedCall = demoCodec"
  "clLoader agedCall = constLoader (Ret 8)" "clCfg agedCall = (memConfig demoMemory)\<lparr>staleTTL := minute\<rparr>"
  "agedCall\<lparr>clCfg := (memConfig demoMemory)\<lparr>staleTTL := minute\<rparr>\<rparr> = agedCall"
  by (simp_all add: agedCall_def demoCall_def)

lemma servInv_outcome:
  assumes "servInv c view k ttl codec cfg V w0 D s" "now (mWorld s) < D"
  shows "(\<forall>a j pc. mCalls s a = Some (j, pc) \<longrightarrow> clKey j = k \<longrightarrow>
      pc = Start \<or> (\<exists>v\<in>V. pc = Done (Inr v) \<or> (\<exists>opts. pc = Refreshing (Inr v) opts)))
    \<and> (\<exists>data'. view (store (mWorld s)) (now (mWorld s)) k = Some data' \<and> serves codec cfg V data')"
proof (intro conjI allI impI)
  note inv = servInvD(3,5) [OF assms(1)]
  { fix a j pc assume "mCalls s a = Some (j, pc)" "clKey j = k"
    then have "servedPc V pc" using servCallsD(3) [OF inv(1)] by blast
    then show "pc = Start \<or> (\<exists>v\<in>V. pc = Done (Inr v) \<or> (\<exists>opts. pc = Refreshing (Inr v) opts))"
      by (auto simp: servedPc_def split: callerPc.splits) }
  show "\<exists>data'. view (store (mWorld s)) (now (mWorld s)) k = Some data' \<and> serves codec cfg V data'"
    using inv(2) assms(2) unfolding entryServes_def by blast
qed

section \<open>Property\<close>



end
