(* ===== verification/RedisRuns.thy ===== *)
theory RedisRuns
  imports Serving RefServer
begin

text \<open>
  The concurrent runs of theories Herd and Serving over Redis: the same two invariants, for any client of a
  server that keeps what is stored for the TTL it was stored with, to the millisecond of its \<open>PX\<close> option; of one process, and of
  a fleet of any number of processes that share the server (theory Fleet), where every process has its own flights.
\<close>

section \<open>How long an entry lives\<close>

lemma redis_lives:
  assumes "keepsTTL re" "packForStore p ttl d cfg w = ((data, st), w1)" "cfg = redisConfig c" "sint (rdOpTimeout c) \<le> 0"
    and "wfRuntime (rt w)" "ttlJitter cfg \<le> 0" "0 \<le> sint (staleTTL cfg)" "eff = (if sint ttl \<le> 0 then defaultTTL cfg else ttl)"
    and "sint eff + sint (staleTTL cfg) < 2 ^ 63" "0 < sint eff" "t < now w + sint eff - nsPerMilli"
  shows "livesUntil (redisExpiry c re data st w1) t"
proof -
  have r: "rdDefaultTTL c = defaultTTL cfg" "rdTTLJitter c = ttlJitter cfg" by (simp_all add: assms(3) redisConfig_def)
  have le: "now w \<le> now w1" using packForStore_frame [OF assms(2)] assms(5) by (intro now_mono) auto
  obtain d' where d: "redisTTLFor c st data w1 = (d', w1)" and "sint eff \<le> sint d'"
  proof (cases "envelopeEnabled cfg")
    case True
    then have "data = wrapEnvelope p (now w + sint eff) d" "st = eff + staleTTL cfg"
      using packed_shape [OF assms(2,6,8,10)] by simp_all
    moreover have "sint (eff + staleTTL cfg) = sint eff + sint (staleTTL cfg)"
      using assms(7,9,10) by (intro sint64_add) auto
    ultimately show ?thesis using assms(7,10) by (intro that [of st]) (simp_all add: redisTTLFor_def)
  next
    case False
    then have "st = ttl" using packed_shape [OF assms(2,6,8,10)] by simp
    with assms(6,8) r show ?thesis by (intro that [of eff]) (simp_all add: redisTTLFor_def Let_def)
  qed
  then have "0 < sint d'" "t < now w1 + sint d' - nsPerMilli" using assms(10,11) le by simp_all
  then show ?thesis
    using assms(1,4) d by (simp add: keepsTTL_def redisExpiry_def opContext_def)
qed

lemma redis_storesGood:
  fixes c :: "('c, 's, 'h) RedisCache"
  assumes "sint (rdOpTimeout c) \<le> 0" "keepsTTL re" "wfRuntime (rt w0)" "cfg = redisConfig c"
    and "Marshal codec v = Inr p" "Unmarshal codec p = Inr v" "envelopeEnabled cfg \<or> \<not> isNegativeEntry p"
    and "ttlJitter cfg \<le> 0" "0 \<le> sint (staleTTL cfg)"
    and "eff = (if sint ttl \<le> 0 then defaultTTL cfg else ttl)" "sint eff + sint (staleTTL cfg) < 2 ^ 63"
    and "nsPerMilli \<le> now w0" "now w0 + 2 * sint eff < 2 ^ 63"
  shows "storesGood (redisCache c n) (redisExpiry c re) ttl codec cfg v w0 (now w0 + sint eff - nsPerMilli)"
proof (rule packed_storesGood [OF assms(3,5-8,10,12) refl])
  show "now w0 + sint eff - nsPerMilli + sint eff < 2 ^ 63" using assms(13) by simp
  fix d data st t and w w1 :: "('s, 'h) world"
  assume w: "wfRuntime (rt w)" "now w0 \<le> now w" "packForStore p ttl d cfg w = ((data, st), w1)" "0 < sint eff"
    "t < now w0 + sint eff - nsPerMilli"
  show "livesUntil (redisExpiry c re data st w1) t"
    by (rule redis_lives [OF assms(2) w(3) assms(4,1) w(1) assms(8-11) w(4)]) (use w(2,5) in simp)
qed

lemma redis_storesServing:
  fixes c :: "('c, 's, 'h) RedisCache"
  assumes "sint (rdOpTimeout c) \<le> 0" "keepsTTL re" "wfRuntime (rt w0)" "cfg = redisConfig c"
    and "\<forall>v\<in>V. \<exists>p. Marshal codec v = Inr p \<and> Unmarshal codec p = Inr v \<and> (envelopeEnabled cfg \<or> \<not> isNegativeEntry p)"
    and "ttlJitter cfg \<le> 0" "0 \<le> sint (staleTTL cfg)"
    and "eff = (if sint ttl \<le> 0 then defaultTTL cfg else ttl)" "sint eff + sint (staleTTL cfg) < 2 ^ 63" "0 < sint eff"
    and "D \<le> now w0 + sint eff - nsPerMilli"
  shows "storesServing (redisCache c n) (redisExpiry c re) ttl codec cfg V w0 D"
proof (rule packed_storesServing [OF assms(3,5)])
  fix p d data st t and w w1 :: "('s, 'h) world"
  assume w: "wfRuntime (rt w)" "now w0 \<le> now w" "packForStore p ttl d cfg w = ((data, st), w1)" "t < D"
  show "livesUntil (redisExpiry c re data st w1) t"
    by (rule redis_lives [OF assms(2) w(3) assms(4,1) w(1) assms(6-10)]) (use w(2,4) assms(11) in simp)
qed

section \<open>Properties\<close>

text \<open>
  No thundering herd on a healthy Redis server: of any number of concurrent calls of one process for a key the server does not
  hold, at most one calls the loader until a TTL (less a millisecond) has passed, and every call that
  returned has the loaded value, unless it gave up with the error of its own context.
\<close>

theorem redis_thundering_herd:
  fixes c :: "('c, 's, 'h) RedisCache"
  assumes "redisReads (rdClient c) rv" "redisWrites (rdClient c) rv re" "redisHealthy (rdClient c) rv" "sint (rdOpTimeout c) \<le> 0"
    and "keepsTTL re" "singleflight sf inflight" "inflight g0 = Map.empty" "wfRuntime (rt w0)"
    and "rv (store w0) (now w0) (redisKey c k) = None" "cfg = redisConfig c"
    and "Marshal codec v = Inr p" "Unmarshal codec p = Inr v" "envelopeEnabled cfg \<or> \<not> isNegativeEntry p"
    and "earlyRefreshBeta cfg \<le> 0" "ttlJitter cfg \<le> 0" "0 \<le> sint (staleTTL cfg)"
    and "eff = (if sint ttl \<le> 0 then defaultTTL cfg else ttl)" "sint eff + sint (staleTTL cfg) < 2 ^ 63"
    and "nsPerMilli \<le> now w0" "now w0 + 2 * sint eff < 2 ^ 63"
    and "mrun (redisCache c n) sf (newMachine w0 g0) evs s" "herdRun k ttl codec v evs"
    and "now (mWorld s) < now w0 + sint eff - nsPerMilli"
  shows "loaderCalls k evs \<le> 1 \<and> (\<forall>a j r. mCalls s a = Some (j, Done r) \<longrightarrow> clKey j = k \<longrightarrow>
    r = Inr v \<or> (\<exists>i e. callers (mGroup s) a = Some (GaveUp i e) \<and> r = Inl e))"
proof -
  have "storesGood (redisCache c n) (redisExpiry c re) ttl codec cfg v w0 (now w0 + sint eff - nsPerMilli)"
    by (rule redis_storesGood [OF assms(4,5,8,10-13,15-20)])
  from reliable_cache.mrun_herd [OF redis_reliable [OF assms(1-4), of n] assms(6-9) _ assms(14) this assms(21-23)]
  show ?thesis by (intro herdInv_outcome) (simp add: assms(10))
qed

definition clusterCall :: "(nat, server, unit) call" where
  "clusterCall = \<lparr>clCtx = Background, clKey = ''k'', clTTL = minute, clCodec = demoCodec, clLoader = constLoader (Ret 7),
     clCfg = redisConfig cluster\<rparr>"

theorem redis_thundering_herd_witness:
  "\<exists>evs s r. mrun (redisCache cluster 0) mapFlights (newMachine (clusterWorld Map.empty) Map.empty) ([Called 1 clusterCall] @ evs) s
     \<and> loaderCalls ''k'' evs \<le> 1 \<and> mCalls s 1 = Some (clusterCall, Done r)
     \<and> (r = Inr 7 \<or> (\<exists>i e. callers (mGroup s) 1 = Some (GaveUp i e) \<and> r = Inl e))"
proof -
  let ?w = "clusterWorld Map.empty"
  obtain evs s r where n: "noCalls evs"
    and run: "mrun (redisCache cluster 0) mapFlights (newMachine ?w Map.empty) ([Called 1 clusterCall] @ evs) s"
    and r: "mCalls s 1 = Some (clusterCall, Done r)"
    by (rule single_call [where a = 1 and ?g0.0 = Map.empty, OF mapFlights_singleflight refl, of clusterCall "redisCache cluster 0" ?w])
      (simp_all add: clusterCall_def)
  let ?evs = "[Called 1 clusterCall] @ evs"
  have herd: "herdRun ''k'' minute demoCodec 7 ?evs"
    using n by (auto simp: herdRun_def herdCall_def clusterCall_def noCalls_def)
  have "advances ?w (mWorld s)"
    using reliable_cache.mrun_advances [OF redis_reliable [OF cluster_healthy cluster_simps(2)] run herd] by simp
  then have now: "now (mWorld s) = 1700000000000000000" by (simp add: advances_rt now_def)
  have "loaderCalls ''k'' ?evs \<le> 1 \<and> (\<forall>a j r. mCalls s a = Some (j, Done r) \<longrightarrow> clKey j = ''k'' \<longrightarrow>
    r = Inr 7 \<or> (\<exists>i e. callers (mGroup s) a = Some (GaveUp i e) \<and> r = Inl e))"
    by (rule redis_thundering_herd [OF cluster_healthy cluster_simps(2) srvExpiry_keeps mapFlights_singleflight refl _ _ refl
          demoCodec_simps(1,2) _ _ _ _ refl _ _ _ run herd])
      (simp_all add: now srvView_def)
  then have "loaderCalls ''k'' evs \<le> 1" "r = Inr 7 \<or> (\<exists>i e. callers (mGroup s) 1 = Some (GaveUp i e) \<and> r = Inl e)"
    using r by (simp_all add: clusterCall_def)
  with run r show ?thesis by blast
qed

text \<open>The loads of a fleet are those of the processes that took part.\<close>

lemma eventsOf_other: "p \<notin> fst ` set evs \<Longrightarrow> eventsOf p evs = []"
  by (auto simp: eventsOf_def filter_empty_conv image_iff)

lemma fleet_loads: "loaderCalls k (map snd evs) = (\<Sum>p\<in>fst ` set evs. loaderCalls k (eventsOf p evs))"
proof (induction evs)
  case (Cons e evs)
  obtain q ev where e: "e = (q, ev)" by force
  let ?P = "fst ` set evs" and ?own = "loaderCalls k [ev]"
  have hd: "loaderCalls k (ev # xs) = ?own + loaderCalls k xs" for xs using loaderCalls_append [of k "[ev]" xs] by simp
  have split: "loaderCalls k (eventsOf p (e # evs)) = (if p = q then ?own else 0) + loaderCalls k (eventsOf p evs)" for p
    using hd [of "eventsOf p evs"] e by (cases "p = q") simp_all
  have "(\<Sum>p\<in>insert q ?P. loaderCalls k (eventsOf p evs)) = (\<Sum>p\<in>?P. loaderCalls k (eventsOf p evs))"
    using eventsOf_other [of q evs] by (cases "q \<in> ?P") (simp_all add: insert_absorb)
  moreover have "(\<Sum>p\<in>insert q ?P. if p = q then ?own else 0) = ?own" by simp
  ultimately have "(\<Sum>p\<in>insert q ?P. loaderCalls k (eventsOf p (e # evs))) = ?own + (\<Sum>p\<in>?P. loaderCalls k (eventsOf p evs))"
    by (simp only: split sum.distrib)
  with Cons hd [of "map snd evs"] e show ?case by simp
qed simp

lemma herdRun_append: "herdRun k ttl codec v (xs @ ys) \<longleftrightarrow> herdRun k ttl codec v xs \<and> herdRun k ttl codec v ys"
  by (auto simp: herdRun_def)

lemma herdRun_if: "herdRun k ttl codec v (if b then evs else []) \<longleftrightarrow> (b \<longrightarrow> herdRun k ttl codec v evs)"
  by (cases b) (simp_all add: herdRun_def)




text \<open>For the worked instance: a server that holds a stale entry, and a cache with a stale window.\<close>

definition staleCluster :: "(nat, server, unit) RedisCache" where
  "staleCluster = refRedisCache (initialOptions\<lparr>StaleTTL := minute\<rparr>)"

lemma staleCluster_simps [simp]:
  "rdClient staleCluster = refRedis" "sint (rdOpTimeout staleCluster) \<le> 0" "redisKey staleCluster k = k"
  "redisConfig staleCluster = \<lparr>hooks = noHooks, negativeTTL = 0, defaultTTL = 0, staleTTL = minute, earlyRefreshBeta = 0, ttlJitter = 0\<rparr>"
  by (simp_all add: staleCluster_def refRedisCache_def newFromClient_def redisKey_def redisConfig_def initialOptions_def)

definition staleClusterCall :: "(nat, server, unit) call" where
  "staleClusterCall = clusterCall\<lparr>clLoader := constLoader (Ret 8), clCfg := redisConfig staleCluster\<rparr>"

lemma staleCluster_entry:
  "\<forall>t. srvView [''k'' \<mapsto> (staleBytes 1699999999000000000, None)] t ''k'' = Some (staleBytes 1699999999000000000)"
  "serves demoCodec (redisConfig staleCluster) {7, 8} (staleBytes 1699999999000000000)"
proof -
  have "parseStored (redisConfig staleCluster) (staleBytes 1699999999000000000)
      = parseStored ((memConfig demoMemory)\<lparr>staleTTL := minute\<rparr>) (staleBytes 1699999999000000000)"
    by (simp add: parseStored_def envelopeEnabled_def)
  then show "serves demoCodec (redisConfig staleCluster) {7, 8} (staleBytes 1699999999000000000)"
    using staleBytes_simps(1,2) by (simp add: serves_def)
qed (simp add: srvView_def livesUntil_def)


end
