(* ===== verification/Testapp.thy ===== *)
theory Testapp
  imports RefServer
begin

text \<open>
  deploy/k3d/testapp/main.go: the demonstration service, a client of the library. It builds a
  Redis cache over a cluster client with counting hooks, waits until the cluster answers, caches a
  fixed list of keys through \<open>GetOrSet\<close> twice, and serves health, counters and the same demonstration over HTTP.

  The cluster client is the parameter of theory Redis, with \<open>CLUSTER NODES\<close> and \<open>CLUSTER KEYSLOT\<close> as two more
  arguments; \<open>net/http\<close>, the encoder of the responses and the text of the log lines are outside: a handler
  returns a \<open>response\<close>, a log line is a value. The lemmas show that the wait ends exactly when some ping is
  answered, and that the demonstration loads every key once and then hits.
\<close>

section \<open>Data\<close>

record User =
  ID :: int
  Name :: string

definition demoKeys :: "key list" where
  "demoKeys = [''user:1'', ''user:2'', ''user:42'', ''session:abc'', ''session:xyz'', ''product:100'', ''cart:7'', ''flag:beta'']"

definition appPrefix :: string where
  "appPrefix = ''testapp:''"

text \<open>\<open>strings.Split\<close> with a one-byte separator.\<close>

fun splitOn :: "char \<Rightarrow> string \<Rightarrow> string list" where
  "splitOn c [] = [[]]"
| "splitOn c (x # xs) = (if x = c then [] # splitOn c xs
     else (case splitOn c xs of [] \<Rightarrow> [[x]] | y # ys \<Rightarrow> (x # y) # ys))"

text \<open>\<open>env\<close> is the value of \<open>CACHEKIT_SERVER_ADDR\<close>, empty when it is not set.\<close>

definition seeds :: "string \<Rightarrow> string list" where
  "seeds env = splitOn (CHR '','') (if env = [] then ''valkey-cluster-headless.cache-kit.svc.cluster.local:6379'' else env)"

text \<open>The log lines, one constructor per \<open>log.Printf\<close>, and the counters the hooks move.\<close>

datatype logLine = LogLoad key duration "gerror option" | LogError Op key gerror | LogConnected "string list"
  | LogWaiting nat gerror | LogNodesFailed gerror | LogTopology string string | LogGetOrSet key gerror
  | LogSecondPass key gerror | LogDemo nat "64 word" "64 word" "64 word"

record appState =
  appHits :: "64 word"
  appMisses :: "64 word"
  appLoads :: "64 word"
  appLog :: "logLine list"

definition logf :: "logLine \<Rightarrow> ('s, appState) world \<Rightarrow> ('s, appState) world" where
  "logf l w = w\<lparr>obs := (obs w)\<lparr>appLog := appLog (obs w) @ [l]\<rparr>\<rparr>"

text \<open>\<open>Duration.Round(time.Millisecond)\<close>: to the nearest, halves away from zero, saturating.\<close>

definition roundMilli :: "duration \<Rightarrow> duration" where
  "roundMilli d = (let x = sint d; r = \<bar>x\<bar> mod nsPerMilli;
       y = (if 2 * r < nsPerMilli then \<bar>x\<bar> - r else \<bar>x\<bar> + nsPerMilli - r)
     in word_of_int (if x < 0 then max (- (2 ^ 63)) (- y) else min (2 ^ 63 - 1) y))"

definition appHooks :: "appState Hooks" where
  "appHooks = \<lparr>
     OnHit = Some (\<lambda>_ x. x\<lparr>appHits := appHits x + 1\<rparr>),
     OnMiss = Some (\<lambda>_ x. x\<lparr>appMisses := appMisses x + 1\<rparr>),
     OnError = Some (\<lambda>op k e x. x\<lparr>appLog := appLog x @ [LogError op k e]\<rparr>),
     OnLoad = Some (\<lambda>k d r x. x\<lparr>appLoads := appLoads x + 1, appLog := appLog x @ [LogLoad k (roundMilli d) r]\<rparr>)\<rparr>"

definition appCache :: "'c Codec \<Rightarrow> ('s, appState) redisClient \<Rightarrow> ('c, 's, appState) RedisCache" where
  "appCache json rdb = NewWithClient json rdb
     [WithPrefix appPrefix, WithDefaultTTL (5 * minute), WithHooks appHooks]"

section \<open>Waiting for the cluster\<close>

text \<open>
  One attempt of \<open>waitReady\<close>, and what happens after a failed one: the log line and the sleep, which
  uses up a reading of the clock.
\<close>

definition pingOnce :: "ctx \<Rightarrow> ('c, 's, appState) RedisCache \<Rightarrow> ('s, appState) world \<Rightarrow>
    gerror option \<times> ('s, appState) world" where
  "pingOnce cx cache w = (case withTimeout cx (3000 * millisecond) w of (cctx, w1) \<Rightarrow> redisPing cache cctx w1)"

definition retryLater :: "nat \<Rightarrow> gerror \<Rightarrow> ('s, appState) world \<Rightarrow> ('s, appState) world" where
  "retryLater i e w = snd (timeNow (logf (LogWaiting i e) w))"

partial_function (option) waitReady :: "ctx \<Rightarrow> ('c, 's, appState) RedisCache \<Rightarrow> nat \<Rightarrow> ('s, appState) world \<Rightarrow>
    ('s, appState) world option" where
  "waitReady cx cache i w = (case pingOnce cx cache w of
       (None, w1) \<Rightarrow> Some w1
     | (Some e, w1) \<Rightarrow> waitReady cx cache (Suc i) (retryLater i e w1))"

section \<open>The topology log\<close>

text \<open>
  \<open>strings.Fields\<close> and \<open>strings.TrimSpace\<close> on the ASCII text of a \<open>CLUSTER NODES\<close> reply. A reply line has the
  node, its address and its role in the first three fields.
\<close>

definition space :: "char \<Rightarrow> bool" where
  "space c \<longleftrightarrow> c \<in> {CHR 0x09, CHR 0x0A, CHR 0x0B, CHR 0x0C, CHR 0x0D, CHR 0x20}"

definition trimSpace :: "string \<Rightarrow> string" where
  "trimSpace s = rev (dropWhile space (rev (dropWhile space s)))"

fun fieldsFrom :: "string \<Rightarrow> string \<Rightarrow> string list" where
  "fieldsFrom cur [] = (if cur = [] then [] else [rev cur])"
| "fieldsFrom cur (x # xs) = (if space x then (if cur = [] then fieldsFrom [] xs else rev cur # fieldsFrom [] xs)
     else fieldsFrom (x # cur) xs)"

definition topologyLine :: "string \<Rightarrow> ('s, appState) world \<Rightarrow> ('s, appState) world" where
  "topologyLine line w = (case fieldsFrom [] line of
       _ # addr # role # _ \<Rightarrow> logf (LogTopology addr role) w
     | _ \<Rightarrow> w)"

definition logTopology :: "(ctx \<Rightarrow> ('s, appState) world \<Rightarrow> (gerror + string) \<times> ('s, appState) world) \<Rightarrow> ctx \<Rightarrow>
    ('s, appState) world \<Rightarrow> ('s, appState) world" where
  "logTopology clusterNodes cx w = (case clusterNodes cx w of
       (Inl e, w1) \<Rightarrow> logf (LogNodesFailed e) w1
     | (Inr s, w1) \<Rightarrow> fold topologyLine (splitOn (CHR 0x0A) (trimSpace s)) w1)"

section \<open>The demonstration\<close>

record keyResult =
  Key :: key
  Slot :: int
  Value :: User

text \<open>The loaders of the two passes; \<open>i\<close> is the index of the key in the list.\<close>

definition demoUser :: "nat \<Rightarrow> key \<Rightarrow> User" where
  "demoUser i k = \<lparr>ID = int i + 1, Name = ''name-of-'' @ k\<rparr>"

definition mustNotRun :: "key \<Rightarrow> gerror" where
  "mustNotRun k = Errorf ''loader must not run on a hit for %s'' [Str k]"

text \<open>
  \<open>sel n k\<close> is what \<open>do\<close> picks, for the call of pass \<open>n\<close> for key \<open>k\<close>, when the flight and the caller's context
  are both done. The result of \<open>ClusterKeySlot\<close> is used whether it failed or not. The application's cache has no
  stale window and no early refresh, so its calls ask for no refresh (\<open>plain_load\<close>, \<open>plain_hit\<close>).
\<close>

fun firstPass :: "User Codec \<Rightarrow> ctx \<Rightarrow> ('s, appState) Cache \<Rightarrow> (ctx \<Rightarrow> key \<Rightarrow> ('s, appState) world \<Rightarrow> int \<times> ('s, appState) world) \<Rightarrow>
    (nat \<Rightarrow> key \<Rightarrow> select) \<Rightarrow> nat \<Rightarrow> key list \<Rightarrow> keyResult list \<Rightarrow> ('s, appState) world \<Rightarrow>
    keyResult list \<times> ('s, appState) world" where
  "firstPass json cx cache keySlot sel i [] results w = (results, w)"
| "firstPass json cx cache keySlot sel i (k # ks) results w =
     (case getOrSet json cx cache k minute (constLoader (Ret (demoUser i k))) (sel 1 k) w of
        ((Inl e, _), w1) \<Rightarrow> firstPass json cx cache keySlot sel (Suc i) ks results (logf (LogGetOrSet k e) w1)
      | ((Inr u, _), w1) \<Rightarrow> (case keySlot cx (appPrefix @ k) w1 of (slot, w2) \<Rightarrow>
          firstPass json cx cache keySlot sel (Suc i) ks (results @ [\<lparr>Key = k, Slot = slot, Value = u\<rparr>]) w2))"

fun secondPass :: "User Codec \<Rightarrow> ctx \<Rightarrow> ('s, appState) Cache \<Rightarrow> (nat \<Rightarrow> key \<Rightarrow> select) \<Rightarrow> key list \<Rightarrow>
    ('s, appState) world \<Rightarrow> ('s, appState) world" where
  "secondPass json cx cache sel [] w = w"
| "secondPass json cx cache sel (k # ks) w =
     (case getOrSet json cx cache k minute (constLoader (Err (mustNotRun k))) (sel 2 k) w of
        ((Inl e, _), w1) \<Rightarrow> secondPass json cx cache sel ks (logf (LogSecondPass k e) w1)
      | ((Inr _, _), w1) \<Rightarrow> secondPass json cx cache sel ks w1)"

definition runDemo :: "User Codec \<Rightarrow> ctx \<Rightarrow> ('s, appState) Cache \<Rightarrow> (ctx \<Rightarrow> key \<Rightarrow> ('s, appState) world \<Rightarrow> int \<times> ('s, appState) world) \<Rightarrow>
    (nat \<Rightarrow> key \<Rightarrow> select) \<Rightarrow> ('s, appState) world \<Rightarrow> (nat \<times> keyResult list) \<times> ('s, appState) world" where
  "runDemo json cx cache keySlot sel w = (case firstPass json cx cache keySlot sel 0 demoKeys [] w of (results, w1) \<Rightarrow>
     (let w2 = secondPass json cx cache sel demoKeys w1; x = obs w2
      in ((length results, results), logf (LogDemo (length results) (appHits x) (appMisses x) (appLoads x)) w2)))"

section \<open>The service\<close>

datatype response = HttpError nat gerror | HttpText string | HttpStats "64 word" "64 word" "64 word"
  | HttpDemo nat "keyResult list" | HttpNotFound

definition serve :: "User Codec \<Rightarrow> (User, 's, appState) RedisCache \<Rightarrow> nat \<Rightarrow>
    (ctx \<Rightarrow> key \<Rightarrow> ('s, appState) world \<Rightarrow> int \<times> ('s, appState) world) \<Rightarrow> (nat \<Rightarrow> key \<Rightarrow> select) \<Rightarrow> string \<Rightarrow> ctx \<Rightarrow>
    ('s, appState) world \<Rightarrow> response \<times> ('s, appState) world" where
  "serve json cache p keySlot sel path cx w =
     (if path = ''/healthz'' then
        (case redisPing cache cx w of (Some e, w1) \<Rightarrow> (HttpError 503 e, w1) | (None, w1) \<Rightarrow> (HttpText ''ok'', w1))
      else if path = ''/stats'' then (HttpStats (appHits (obs w)) (appMisses (obs w)) (appLoads (obs w)), w)
      else if path = ''/demo'' then
        (case runDemo json cx (redisCache cache p) keySlot sel w of ((n, rs), w1) \<Rightarrow> (HttpDemo n rs, w1))
      else (HttpNotFound, w))"

text \<open>The start of \<open>main\<close>, up to the moment it listens; \<open>None\<close> when the cluster never answers.\<close>

definition startup :: "User Codec \<Rightarrow> (string list \<Rightarrow> ('s, appState) redisClient) \<Rightarrow> nat \<Rightarrow>
    (ctx \<Rightarrow> ('s, appState) world \<Rightarrow> (gerror + string) \<times> ('s, appState) world) \<Rightarrow>
    (ctx \<Rightarrow> key \<Rightarrow> ('s, appState) world \<Rightarrow> int \<times> ('s, appState) world) \<Rightarrow> (nat \<Rightarrow> key \<Rightarrow> select) \<Rightarrow> string \<Rightarrow>
    ('s, appState) world \<Rightarrow> ('s, appState) world option" where
  "startup json newCluster p clusterNodes keySlot sel env w =
     (let addrs = seeds env; cache = appCache json (newCluster addrs) in
      case waitReady Background cache 1 w of
        None \<Rightarrow> None
      | Some w1 \<Rightarrow>
          (let w2 = logTopology clusterNodes Background (logf (LogConnected addrs) w1)
           in Some (snd (runDemo json Background (redisCache cache p) keySlot sel w2))))"

section \<open>The wait\<close>

text \<open>The world before attempt \<open>n\<close>; a successful attempt is the last.\<close>

fun attemptWorld :: "ctx \<Rightarrow> ('c, 's, appState) RedisCache \<Rightarrow> nat \<Rightarrow> nat \<Rightarrow> ('s, appState) world \<Rightarrow> ('s, appState) world" where
  "attemptWorld cx cache i 0 w = w"
| "attemptWorld cx cache i (Suc n) w = (case pingOnce cx cache w of
       (None, _) \<Rightarrow> w
     | (Some e, w1) \<Rightarrow> attemptWorld cx cache (Suc i) n (retryLater i e w1))"

lemma waitReady_some:
  "pingOnce cx cache (attemptWorld cx cache i n w) = (None, w') \<Longrightarrow> waitReady cx cache i w = Some w'"
proof (induction n arbitrary: i w)
  case 0
  then show ?case by (simp add: waitReady.simps)
next
  case (Suc n)
  obtain q w1 where "pingOnce cx cache w = (q, w1)" by force
  with Suc show ?case by (cases q) (simp_all add: waitReady.simps [of cx cache i w])
qed

lemma waitReady_answered:
  assumes "waitReady cx cache i w = Some w'"
  shows "\<exists>n. pingOnce cx cache (attemptWorld cx cache i n w) = (None, w')"
proof (rule waitReady.raw_induct [OF _ assms])
  fix f cx i w w' and cache :: "('c, 's, appState) RedisCache"
  assume IH: "\<And>cx cache i w w'. f cx cache i w = Some w' \<Longrightarrow> \<exists>n. pingOnce cx cache (attemptWorld cx cache i n w) = (None, w')"
    and body: "(case pingOnce cx cache w of (None, w1) \<Rightarrow> Some w1
       | (Some e, w1) \<Rightarrow> f cx cache (Suc i) (retryLater i e w1)) = Some w'"
  obtain q w1 where p: "pingOnce cx cache w = (q, w1)" by force
  show "\<exists>n. pingOnce cx cache (attemptWorld cx cache i n w) = (None, w')"
  proof (cases q)
    case None
    with body p show ?thesis by (intro exI [of _ 0]) simp
  next
    case (Some e)
    with body p have "f cx cache (Suc i) (retryLater i e w1) = Some w'" by simp
    from IH [OF this] obtain n where "pingOnce cx cache (attemptWorld cx cache (Suc i) n (retryLater i e w1)) = (None, w')" ..
    with p Some show ?thesis by (intro exI [of _ "Suc n"]) simp
  qed
qed

section \<open>The two passes\<close>

context observed_cache begin

text \<open>One call on a cache without envelopes: a load of an absent key, and a hit.\<close>

lemma plain_load:
  assumes "\<not> envelopeEnabled cfg" "cfg = configOf c w" "wfRuntime (rt w)" "view (store w) (now w) k = None"
    and "Marshal codec v = Inr pl" "Unmarshal codec pl = Inr v" "\<not> isNegativeEntry pl"
    and "getOrSet codec cx c k ttl (constLoader (Ret v)) FlightResult w = (res, w')"
  obtains w4 d where "res = (Inr v, None)" "advances w w'" "configOf c w' = cfg" "advances w w4" "configOf c w4 = cfg"
    "\<forall>t. view (store w') t k = (if livesUntil (expiry pl ttl w4) t then Some pl else None)"
    "\<forall>t k'. now w' \<le> t \<longrightarrow> k' \<noteq> k \<longrightarrow> view (store w') t k' = view (store w) t k'"
    "obs w' = obsLoad (hooks cfg) k d None (obsMiss (hooks cfg) k (obsMiss (hooks cfg) k (obs w)))"
proof -
  have codec: "codec = effectiveCodec codec (Some codec)" by (simp add: effectiveCodec_def)
  have un: "unreadable codec cfg (view (store w) (now w) k)" using assms(4) by simp
  note call = assms(8) [unfolded getOrSet_def]
  from load_observed [OF assms(2) codec assms(3) un loads_constLoader silentLoader_const assms(5) call] assms(4)
  obtain dur where o: "obs w' = obsLoad (hooks cfg) k dur None (obsMiss (hooks cfg) k (obsMiss (hooks cfg) k (obs w)))"
    by (auto simp: lookupObs_def)
  obtain d data st w3 w4 w'' where g: "getOrSetWithCodec codec cx c k ttl (Some codec) (constLoader (Ret v)) FlightResult w
      = ((Inr v, None), w'')" and a3: "advances w w3" "configOf c w3 = cfg"
    and pk: "packForStore pl ttl d cfg w3 = ((data, st), w4)" and a: "advances w w''" "configOf c w'' = cfg"
    and vw: "\<forall>t. view (store w'') t k = (if livesUntil (expiry data st w4) t then Some data else None)"
    and "\<not> isNegativeEntry data" "snd (parseStored cfg data) = pl"
    and oth: "\<forall>t k'. now w'' \<le> t \<longrightarrow> k' \<noteq> k \<longrightarrow> view (store w'') t k' = view (store w) t k'"
    by (rule miss_loads [where cx = cx and ttl = ttl, OF un assms(3) loads_constLoader codec assms(2,5,6) disjI2 [OF assms(7)]])
  have "data = pl" "st = ttl" "w4 = w3" using pk assms(1) by (simp_all add: packForStore_def)
  moreover have "w'' = w'" "res = (Inr v, None)" using g call by simp_all
  ultimately show ?thesis using a3 a vw oth o by (intro that [of w3 dur]) simp_all
qed

lemma plain_hit:
  assumes "\<not> envelopeEnabled cfg" "cfg = configOf c w" "view (store w) (now w) k = Some pl"
    and "Unmarshal codec pl = Inr v" "\<not> isNegativeEntry pl"
    and "getOrSet codec cx c k ttl loader sel w = (res, w')"
  shows "res = (Inr v, None)" "advances w w'" "configOf c w' = cfg"
    "now w \<le> t \<Longrightarrow> view (store w') t k' = view (store w) t k'" "obs w' = obsHit (hooks cfg) k (obs w)"
proof -
  have codec: "codec = effectiveCodec codec (Some codec)" by (simp add: effectiveCodec_def)
  have parse: "parseStored cfg pl = (emptyEnvelope, pl)" using assms(1) by (simp add: parseStored_def)
  have dec: "Unmarshal codec (snd (parseStored cfg pl)) = Inr v" using parse assms(4) by simp
  note call = assms(6) [unfolded getOrSet_def]
  show "obs w' = obsHit (hooks cfg) k (obs w)" by (rule hit_observed [OF assms(2) codec assms(3,5) dec call])
  have fresh: "isZero (freshUntil emptyEnvelope)" "\<And>t. \<not> stale emptyEnvelope t"
    by (simp_all add: emptyEnvelope_def stale_def isZero_def)
  obtain req w1 t where l: "lookupPhase cx c k ttl codec cfg w = (Serve (Inr v) req, w1)" "advances w w1"
    "\<forall>t k'. now w \<le> t \<longrightarrow> view (store w1) t k' = view (store w) t k'" "configOf c w1 = configOf c w"
    and "stale emptyEnvelope t \<longrightarrow> req = Some (refreshOpts ttl cfg emptyEnvelope)"
    and "req = None \<or> req = Some (refreshOpts ttl cfg emptyEnvelope)"
    and req: "earlyRefreshBeta cfg \<le> 0 \<or> isZero (freshUntil emptyEnvelope) \<longrightarrow> \<not> stale emptyEnvelope t \<longrightarrow> req = None"
    and "wfRuntime (rt w) \<longrightarrow> now w \<le> t"
    by (rule lookup_present [where cx = cx and ttl = ttl, OF assms(3,5) parse assms(4)])
  have "req = None" using req fresh by simp
  with l(1) call assms(2) codec have "res = (Inr v, None)" "w' = w1"
    by (simp_all add: getOrSetWithCodec_unfold Let_def)
  with l assms(2) show "res = (Inr v, None)" "advances w w'" "configOf c w' = cfg"
    "now w \<le> t \<Longrightarrow> view (store w') t k' = view (store w) t k'" for t by simp_all
qed

end

context reliable_cache begin

text \<open>A call never rewinds the clock.\<close>

lemma delete_snd: "advances u w \<Longrightarrow> advances u (snd (cDelete c cx k w))"
  using delete_advances [OF prod.collapse [symmetric]] by (blast intro: advances_trans)

lemma set_snd: "advances u w \<Longrightarrow> advances u (snd (cSet c cx k v ttl w))"
  using set_advances [OF prod.collapse [symmetric]] by (blast intro: advances_trans)

lemma lookup_advances:
  assumes "lookupPhase cx c k ttl codec cfg w = (l, w')"
  shows "advances w w'"
proof -
  obtain r w1 where g: "cGet c cx k w = (r, w1)" by force
  have "advances w1 w'"
    using assms g
    by (auto simp: lookupPhase_def timeNow_def split: sum.splits if_splits prod.splits
        intro!: delete_snd intro: advances_trans [OF advances_reads_Suc] dest!: shouldEarlyRefresh_frame)
  with get_advances [OF g] show ?thesis by (rule advances_trans)
qed

lemma flight_advances:
  assumes "loads loader r" "loadAndStore cx c k ttl codec loader cfg opts w = (out, w')"
  shows "advances w w'"
proof -
  obtain fctx w1 where fc: "flightContext cx opts w = (fctx, w1)" by force
  obtain q w2 where rc: "flightRecheck c k codec cfg opts fctx w1 = (q, w2)" by force
  obtain g w3 where g: "cGet c fctx k w1 = (g, w3)" by force
  have "advances w3 w2"
    using rc g
    by (auto simp: flightRecheck_def timeNow_def Let_def split: sum.splits if_splits prod.splits intro!: delete_snd)
  then have a2: "advances w w2"
    using flightContext_frame [OF fc] get_advances [OF g] by (blast intro: advances_trans)
  show ?thesis
  proof (cases q)
    case None
    obtain res w4 where tl: "timedLoad k cfg loader fctx w2 = (res, w4)" by force
    have "advances w4 w'"
      using assms(2) fc rc tl None
      by (auto simp: loadAndStore_def storeLoaded_def split: outcome.splits sum.splits if_splits prod.splits
          intro!: set_snd dest!: packForStore_frame)
    with a2 timedLoad_outcome [OF assms(1) tl] show ?thesis by (blast intro: advances_trans)
  next
    case (Some data)
    with a2 assms(2) fc rc show ?thesis by (simp add: loadAndStore_def)
  qed
qed

lemma call_advances:
  assumes "loads loader r" "getOrSet codec cx c k ttl loader sel w = (res, w')"
  shows "advances w w'"
proof -
  let ?cfg = "configOf c w"
  obtain l w1 where l: "lookupPhase cx c k ttl codec ?cfg w = (l, w1)" by force
  note a = lookup_advances [OF l]
  show ?thesis
  proof (cases l)
    case (Serve q req)
    with l a assms(2) show ?thesis
      by (auto simp: getOrSet_def getOrSetWithCodec_unfold effectiveCodec_def Let_def)
  next
    case GoLoad
    obtain out w2 where f: "loadAndStore cx c k ttl codec loader ?cfg missOpts w1 = (out, w2)" by force
    have "w' = w2"
      using assms(2) l GoLoad f
      by (auto simp: getOrSet_def getOrSetWithCodec_unfold effectiveCodec_def Let_def groupDo_def flightBody_def
          split: outcome.splits select.splits option.splits prod.splits)
    with a flight_advances [OF assms(1) f] show ?thesis by (auto intro: advances_trans)
  qed
qed

end

text \<open>An entry that serves \<open>v\<close> from now until \<open>D\<close>.\<close>

definition stays :: "('s \<Rightarrow> time \<Rightarrow> key \<Rightarrow> bytes option) \<Rightarrow> User Codec \<Rightarrow> time \<Rightarrow> ('s, 'h) world \<Rightarrow> User \<Rightarrow> key \<Rightarrow> bool" where
  "stays view json D w v k \<longleftrightarrow> (\<exists>pl. Unmarshal json pl = Inr v \<and> \<not> isNegativeEntry pl
     \<and> (\<forall>t. now w \<le> t \<longrightarrow> t < D \<longrightarrow> view (store w) t k = Some pl))"

lemma stays_step:
  assumes "stays view json D w v k" "advances w w'" "wfRuntime (rt w)"
    and "\<And>t. now w' \<le> t \<Longrightarrow> view (store w') t k = view (store w) t k"
  shows "stays view json D w' v k"
proof -
  have "now w \<le> now w'" using assms(2,3) by (simp add: now_mono)
  with assms(1,4) show ?thesis by (fastforce simp: stays_def)
qed

text \<open>What the callbacks of the application make of loads and hits.\<close>

lemma appHooks_obs:
  "obsHit appHooks k x = x\<lparr>appHits := appHits x + 1\<rparr>"
  "obsMiss appHooks k x = x\<lparr>appMisses := appMisses x + 1\<rparr>"
  "obsLoad appHooks k d r x = x\<lparr>appLoads := appLoads x + 1, appLog := appLog x @ [LogLoad k (roundMilli d) r]\<rparr>"
  by (simp_all add: appHooks_def obsHit_def obsMiss_def obsLoad_def)

definition loadLines :: "key list \<Rightarrow> duration list \<Rightarrow> logLine list" where
  "loadLines ks ds = map2 (\<lambda>k d. LogLoad k (roundMilli d) None) ks ds"

definition demoResults :: "(key \<Rightarrow> int) \<Rightarrow> nat \<Rightarrow> key list \<Rightarrow> keyResult list" where
  "demoResults slot i ks = map (\<lambda>(j, k). \<lparr>Key = k, Slot = slot (appPrefix @ k), Value = demoUser j k\<rparr>) (enumerate i ks)"

text \<open>The client answers \<open>CLUSTER KEYSLOT\<close> by the key alone, and touches nothing.\<close>

definition slotsBy :: "(ctx \<Rightarrow> key \<Rightarrow> ('s, appState) world \<Rightarrow> int \<times> ('s, appState) world) \<Rightarrow> (key \<Rightarrow> int) \<Rightarrow> bool" where
  "slotsBy keySlot slot \<longleftrightarrow> (\<forall>cx k w. fst (keySlot cx k w) = slot k \<and> advances w (snd (keySlot cx k w))
     \<and> store (snd (keySlot cx k w)) = store w \<and> obs (snd (keySlot cx k w)) = obs w)"

lemma slotsByD:
  assumes "slotsBy keySlot slot"
  obtains w' where "keySlot cx k w = (slot k, w')" "advances w w'" "store w' = store w" "obs w' = obs w"
  using assms [unfolded slotsBy_def, rule_format, of cx k w] by (cases "keySlot cx k w") simp

definition encodes :: "User Codec \<Rightarrow> User \<Rightarrow> bool" where
  "encodes json v \<longleftrightarrow> (\<exists>pl. Marshal json v = Inr pl \<and> Unmarshal json pl = Inr v \<and> \<not> isNegativeEntry pl)"

lemma firstPass_loads:
  assumes oc: "observed_cache c view expiry" and env: "\<not> envelopeEnabled cfg" "hooks cfg = appHooks"
    and slots: "slotsBy keySlot slot" and sel: "\<forall>k. sel 1 k = FlightResult"
    and expiry: "\<forall>pl w t. advances w0 w \<longrightarrow> configOf c w = cfg \<longrightarrow> t < D \<longrightarrow> livesUntil (expiry pl minute w) t"
    and ks: "distinct ks" "\<forall>(j, k)\<in>set (enumerate i ks). encodes json (demoUser j k)"
    and w: "advances w0 w" "wfRuntime (rt w)" "cfg = configOf c w" "\<forall>k\<in>set ks. \<forall>t. now w \<le> t \<longrightarrow> view (store w) t k = None"
    and run: "firstPass json cx c keySlot sel i ks results w = (out, w')"
  shows "out = results @ demoResults slot i ks \<and> advances w w' \<and> configOf c w' = cfg
    \<and> (\<forall>(j, k)\<in>set (enumerate i ks). stays view json D w' (demoUser j k) k)
    \<and> (\<forall>t k. now w' \<le> t \<longrightarrow> k \<notin> set ks \<longrightarrow> view (store w') t k = view (store w) t k)
    \<and> (\<exists>ds. length ds = length ks \<and> obs w' = (obs w)\<lparr>appMisses := appMisses (obs w) + 2 * of_nat (length ks),
         appLoads := appLoads (obs w) + of_nat (length ks), appLog := appLog (obs w) @ loadLines ks ds\<rparr>)"
  using ks w run
proof (induction ks arbitrary: i results w)
  case Nil
  then show ?case by (auto simp: demoResults_def loadLines_def)
next
  case (Cons k ks)
  obtain res w1 where g: "getOrSet json cx c k minute (constLoader (Ret (demoUser i k))) (sel 1 k) w = (res, w1)" by (rule prod.exhaust)
  then have g': "getOrSet json cx c k minute (constLoader (Ret (demoUser i k))) FlightResult w = (res, w1)" using sel by simp
  from Cons.prems(2) have "encodes json (demoUser i k)" and encs: "\<forall>(j, k)\<in>set (enumerate (Suc i) ks). encodes json (demoUser j k)"
    by simp_all
  then obtain pl where pl: "Marshal json (demoUser i k) = Inr pl" "Unmarshal json pl = Inr (demoUser i k)" "\<not> isNegativeEntry pl"
    by (auto simp: encodes_def)
  have abs: "view (store w) (now w) k = None" using Cons.prems(6) by simp
  obtain w4 d where res: "res = (Inr (demoUser i k), None)" and a1: "advances w w1" and c1: "configOf c w1 = cfg"
    and w4: "advances w w4" "configOf c w4 = cfg"
    and v1: "\<forall>t. view (store w1) t k = (if livesUntil (expiry pl minute w4) t then Some pl else None)"
    and o1: "\<forall>t k'. now w1 \<le> t \<longrightarrow> k' \<noteq> k \<longrightarrow> view (store w1) t k' = view (store w) t k'"
    and b1: "obs w1 = obsLoad (hooks cfg) k d None (obsMiss (hooks cfg) k (obsMiss (hooks cfg) k (obs w)))"
    by (rule observed_cache.plain_load [OF oc env(1) Cons.prems(5,4) abs pl g'])
  obtain w2 where sl: "keySlot cx (appPrefix @ k) w1 = (slot (appPrefix @ k), w2)" and a2: "advances w1 w2"
    and s2: "store w2 = store w1" and b2: "obs w2 = obs w1" by (rule slotsByD [OF slots])
  have wf1: "wfRuntime (rt w1)" and wf2: "wfRuntime (rt w2)" using Cons.prems(4) a1 a2 by (simp_all add: advances_def)
  have le: "now w \<le> now w1" "now w1 \<le> now w2" using Cons.prems(4) a1 a2 wf1 by (auto intro: now_mono)
  have run: "firstPass json cx c keySlot sel (Suc i) ks
      (results @ [\<lparr>Key = k, Slot = slot (appPrefix @ k), Value = demoUser i k\<rparr>]) w2 = (out, w')"
    using Cons.prems(7) g res sl by simp
  have k: "k \<notin> set ks" "distinct ks" using Cons.prems(1) by simp_all
  have abs2: "\<forall>k'\<in>set ks. \<forall>t. now w2 \<le> t \<longrightarrow> view (store w2) t k' = None"
  proof (intro ballI allI impI)
    fix k' t assume "k' \<in> set ks" "now w2 \<le> t"
    with le k(1) have "k' \<noteq> k" "now w1 \<le> t" "now w \<le> t" "k' \<in> set (k # ks)" by auto
    with o1 Cons.prems(6) s2 show "view (store w2) t k' = None" by simp
  qed
  have cfg2: "cfg = configOf c w2" using c1 configOf_cong [OF s2, of c] by simp
  note ih = Cons.IH [OF k(2) encs advances_trans [OF Cons.prems(3) advances_trans [OF a1 a2]] wf2 cfg2 abs2 run]
  have out: "out = results @ demoResults slot i (k # ks)" using ih [THEN conjunct1] by (simp add: demoResults_def)
  note IH = out ih [THEN conjunct2, THEN conjunct1] ih [THEN conjunct2, THEN conjunct2, THEN conjunct1]
    ih [THEN conjunct2, THEN conjunct2, THEN conjunct2, THEN conjunct1]
    ih [THEN conjunct2, THEN conjunct2, THEN conjunct2, THEN conjunct2, THEN conjunct1]
    ih [THEN conjunct2, THEN conjunct2, THEN conjunct2, THEN conjunct2, THEN conjunct2]
  have le': "now w2 \<le> now w'" by (rule now_mono [OF wf2 IH(2)])
  have "stays view json D w2 (demoUser i k) k"
    using v1 s2 pl(2,3) expiry advances_trans [OF Cons.prems(3) w4(1)] w4(2) unfolding stays_def by (intro exI [of _ pl]) auto
  then have "stays view json D w' (demoUser i k) k"
    by (rule stays_step [OF _ IH(2) wf2]) (use IH(5) k(1) in simp)
  moreover have "\<forall>t k'. now w' \<le> t \<longrightarrow> k' \<notin> set (k # ks) \<longrightarrow> view (store w') t k' = view (store w) t k'"
    using IH(5) o1 s2 le le' by auto
  moreover obtain ds where "length ds = length ks" "obs w' = (obs w2)\<lparr>appMisses := appMisses (obs w2) + 2 * of_nat (length ks),
      appLoads := appLoads (obs w2) + of_nat (length ks), appLog := appLog (obs w2) @ loadLines ks ds\<rparr>" using IH(6) by blast
  then have "\<exists>ds. length ds = length (k # ks) \<and> obs w' = (obs w)\<lparr>appMisses := appMisses (obs w) + 2 * of_nat (length (k # ks)),
      appLoads := appLoads (obs w) + of_nat (length (k # ks)), appLog := appLog (obs w) @ loadLines (k # ks) ds\<rparr>"
    using b1 b2 env(2) by (intro exI [of _ "d # ds"]) (simp add: appHooks_obs loadLines_def algebra_simps)
  ultimately show ?case
    using IH(1-4) advances_trans [OF a1 advances_trans [OF a2 IH(2)]] by simp
qed

lemma logf_advances [simp]: "advances u (logf l w) = advances u w"
  by (simp add: logf_def)

lemma secondPass_advances:
  assumes "reliable_cache c view expiry" "secondPass json cx c sel ks w = w'"
  shows "advances w w'"
  using assms(2)
proof (induction ks arbitrary: w)
  case (Cons k ks)
  obtain r q w1 where g: "getOrSet json cx c k minute (constLoader (Err (mustNotRun k))) (sel 2 k) w = ((r, q), w1)"
    by (metis prod.exhaust)
  have a: "advances w w1" by (rule reliable_cache.call_advances [OF assms(1) loads_constLoader g])
  show ?case
  proof (cases r)
    case (Inl e)
    with Cons.prems g have "secondPass json cx c sel ks (logf (LogSecondPass k e) w1) = w'" by simp
    from Cons.IH [OF this] have "advances (logf (LogSecondPass k e) w1) w'" .
    with a show ?thesis by (auto simp: advances_def logf_def)
  next
    case (Inr v)
    with Cons.prems g have "secondPass json cx c sel ks w1 = w'" by simp
    from a Cons.IH [OF this] show ?thesis by (rule advances_trans)
  qed
qed simp

lemma firstPass_advances:
  assumes "reliable_cache c view expiry" "slotsBy keySlot slot" "firstPass json cx c keySlot sel i ks results w = (out, w')"
  shows "advances w w'"
  using assms(3)
proof (induction ks arbitrary: i results w)
  case (Cons k ks)
  obtain r q w1 where g: "getOrSet json cx c k minute (constLoader (Ret (demoUser i k))) (sel 1 k) w = ((r, q), w1)"
    by (metis prod.exhaust)
  have a: "advances w w1" by (rule reliable_cache.call_advances [OF assms(1) loads_constLoader g])
  show ?case
  proof (cases r)
    case (Inl e)
    with Cons.prems g have "firstPass json cx c keySlot sel (Suc i) ks results (logf (LogGetOrSet k e) w1) = (out, w')" by simp
    from Cons.IH [OF this] a show ?thesis by (auto simp: advances_def logf_def)
  next
    case (Inr v)
    obtain w2 where sl: "keySlot cx (appPrefix @ k) w1 = (slot (appPrefix @ k), w2)" "advances w1 w2"
      by (rule slotsByD [OF assms(2)])
    with Cons.prems g Inr have "firstPass json cx c keySlot sel (Suc i) ks
      (results @ [\<lparr>Key = k, Slot = slot (appPrefix @ k), Value = v\<rparr>]) w2 = (out, w')" by simp
    from advances_trans [OF advances_trans [OF a sl(2)] Cons.IH [OF this]] show ?thesis .
  qed
qed simp

text \<open>Passes over entries that stay.\<close>

lemma stays_rest:
  assumes "\<forall>(j, k)\<in>set (enumerate i (x # ks)). stays view json D w (demoUser j k) k" "advances w w'" "wfRuntime (rt w)"
    and "\<forall>t k. now w' \<le> t \<longrightarrow> view (store w') t k = view (store w) t k"
  shows "\<forall>(j, k)\<in>set (enumerate (Suc i) ks). stays view json D w' (demoUser j k) k"
proof clarify
  fix j k
  assume "(j, k) \<in> set (enumerate (Suc i) ks)"
  with assms(1) have "stays view json D w (demoUser j k) k" by auto
  then show "stays view json D w' (demoUser j k) k" by (rule stays_step [OF _ assms(2,3)]) (use assms(4) in simp)
qed

lemma secondPass_hits:
  assumes oc: "observed_cache c view expiry" and env: "\<not> envelopeEnabled cfg" "hooks cfg = appHooks"
    and "wfRuntime (rt w)" "cfg = configOf c w" "\<forall>(j, k)\<in>set (enumerate i ks). stays view json D w (demoUser j k) k"
    and "secondPass json cx c sel ks w = w'" "now w' < D"
  shows "configOf c w' = cfg \<and> obs w' = (obs w)\<lparr>appHits := appHits (obs w) + of_nat (length ks)\<rparr>
    \<and> (\<forall>t k. now w' \<le> t \<longrightarrow> view (store w') t k = view (store w) t k)"
  using assms(4-7)
proof (induction ks arbitrary: i w)
  case (Cons k ks)
  note rc = observed_cache.axioms(1) [OF oc]
  obtain res w1 where g: "getOrSet json cx c k minute (constLoader (Err (mustNotRun k))) (sel 2 k) w = (res, w1)"
    by (rule prod.exhaust)
  have "now w \<le> now w'" using Cons.prems(1) secondPass_advances [OF rc Cons.prems(4)] by (rule now_mono)
  with Cons.prems(3) assms(8) obtain pl where pl: "view (store w) (now w) k = Some pl" "Unmarshal json pl = Inr (demoUser i k)"
    "\<not> isNegativeEntry pl" by (fastforce simp: stays_def)
  note h = observed_cache.plain_hit [OF oc env(1) Cons.prems(2) pl g]
  have wf1: "wfRuntime (rt w1)" using Cons.prems(1) h(2) by (simp add: advances_def)
  have le: "now w \<le> now w1" using Cons.prems(1) h(2) by (rule now_mono)
  have run: "secondPass json cx c sel ks w1 = w'" using Cons.prems(4) g h(1) by simp
  have le': "now w1 \<le> now w'" using wf1 secondPass_advances [OF rc run] by (rule now_mono)
  have st: "\<forall>(j, k)\<in>set (enumerate (Suc i) ks). stays view json D w1 (demoUser j k) k"
    by (rule stays_rest [OF Cons.prems(3) h(2) Cons.prems(1)]) (use h(4) le in simp)
  note ih = Cons.IH [OF wf1 h(3) [symmetric] st run]
  have "obs w' = (obs w)\<lparr>appHits := appHits (obs w) + of_nat (length (k # ks))\<rparr>"
    using ih h(5) env(2) by (simp add: appHooks_obs algebra_simps)
  with ih h(4) le le' show ?case by simp
qed simp

lemma firstPass_hits:
  assumes oc: "observed_cache c view expiry" and env: "\<not> envelopeEnabled cfg" "hooks cfg = appHooks" and slots: "slotsBy keySlot slot"
    and "wfRuntime (rt w)" "cfg = configOf c w" "\<forall>(j, k)\<in>set (enumerate i ks). stays view json D w (demoUser j k) k"
    and "firstPass json cx c keySlot sel i ks results w = (out, w')" "now w' < D"
  shows "out = results @ demoResults slot i ks \<and> configOf c w' = cfg
    \<and> obs w' = (obs w)\<lparr>appHits := appHits (obs w) + of_nat (length ks)\<rparr>
    \<and> (\<forall>t k. now w' \<le> t \<longrightarrow> view (store w') t k = view (store w) t k)"
  using assms(5-8)
proof (induction ks arbitrary: i results w)
  case (Cons k ks)
  note rc = observed_cache.axioms(1) [OF oc]
  obtain res w1 where g: "getOrSet json cx c k minute (constLoader (Ret (demoUser i k))) (sel 1 k) w = (res, w1)"
    by (rule prod.exhaust)
  have "now w \<le> now w'" using Cons.prems(1) firstPass_advances [OF rc slots Cons.prems(4)] by (rule now_mono)
  with Cons.prems(3) assms(9) obtain pl where pl: "view (store w) (now w) k = Some pl" "Unmarshal json pl = Inr (demoUser i k)"
    "\<not> isNegativeEntry pl" by (fastforce simp: stays_def)
  note h = observed_cache.plain_hit [OF oc env(1) Cons.prems(2) pl g]
  obtain w2 where sl: "keySlot cx (appPrefix @ k) w1 = (slot (appPrefix @ k), w2)" and a2: "advances w1 w2"
    and s2: "store w2 = store w1" and b2: "obs w2 = obs w1" by (rule slotsByD [OF slots])
  have a: "advances w w2" using h(2) a2 by (rule advances_trans)
  have wf1: "wfRuntime (rt w1)" and wf2: "wfRuntime (rt w2)" using Cons.prems(1) h(2) a by (simp_all add: advances_def)
  have le: "now w \<le> now w1" "now w1 \<le> now w2" using Cons.prems(1) h(2) wf1 a2 by (auto intro: now_mono)
  have run: "firstPass json cx c keySlot sel (Suc i) ks
      (results @ [\<lparr>Key = k, Slot = slot (appPrefix @ k), Value = demoUser i k\<rparr>]) w2 = (out, w')"
    using Cons.prems(4) g h(1) sl by simp
  have le': "now w2 \<le> now w'" using wf2 firstPass_advances [OF rc slots run] by (rule now_mono)
  have vw: "view (store w2) t k' = view (store w) t k'" if "now w2 \<le> t" for t k' using that s2 h(4) le by simp
  have st: "\<forall>(j, k)\<in>set (enumerate (Suc i) ks). stays view json D w2 (demoUser j k) k"
    by (rule stays_rest [OF Cons.prems(3) a Cons.prems(1)]) (use vw in simp)
  have cfg2: "cfg = configOf c w2" using h(3) configOf_cong [OF s2, of c] by simp
  note ih = Cons.IH [OF wf2 cfg2 st run]
  have "obs w' = (obs w)\<lparr>appHits := appHits (obs w) + of_nat (length (k # ks))\<rparr>"
    using ih h(5) b2 env(2) by (simp add: appHooks_obs algebra_simps)
  moreover have "out = results @ demoResults slot i (k # ks)" using ih by (simp add: demoResults_def)
  moreover have "\<forall>t k. now w' \<le> t \<longrightarrow> view (store w') t k = view (store w) t k" using ih vw le' by simp
  ultimately show ?case using ih by blast
qed (simp add: demoResults_def)

section \<open>The application's cache\<close>

lemma appCache_fields [simp]:
  "rdClient (appCache json rdb) = rdb" "rdOpTimeout (appCache json rdb) = 0" "rdTTLJitter (appCache json rdb) = 0"
  "redisKey (appCache json rdb) k = appPrefix @ k" "rdCodec (appCache json rdb) = Some json"
  "redisConfig (appCache json rdb) = \<lparr>hooks = appHooks, negativeTTL = 0, defaultTTL = 5 * minute,
     staleTTL = 0, earlyRefreshBeta = 0, ttlJitter = 0\<rparr>"
  by (simp_all add: appCache_def NewWithClient_def newFromClient_def buildOptions_def Let_def initialOptions_def
      WithPrefix_def WithDefaultTTL_def WithHooks_def maxJitter_value redisConfig_def redisKey_def)

lemma appCache_expiry: "redisExpiry (appCache json rdb) re b minute w = re minute w"
  by (simp add: redisExpiry_def opContext_def redisTTLFor_def applyJitter_def)

text \<open>A server that keeps an entry for as long as it was asked to.\<close>

definition keepsTTL :: "(duration \<Rightarrow> ('s, 'h) world \<Rightarrow> time option) \<Rightarrow> bool" where
  "keepsTTL re \<longleftrightarrow> (\<forall>d w t. 0 < sint d \<longrightarrow> t < now w + sint d \<longrightarrow> livesUntil (re d w) t)"

lemma runDemo_advances:
  assumes "reliable_cache c view expiry" "slotsBy keySlot slot" "runDemo json cx c keySlot sel w = (r, w')"
  shows "advances w w'"
proof -
  obtain out w1 where f: "firstPass json cx c keySlot sel 0 demoKeys [] w = (out, w1)" by force
  have "w' = logf (LogDemo (length out) (appHits (obs (secondPass json cx c sel demoKeys w1)))
      (appMisses (obs (secondPass json cx c sel demoKeys w1))) (appLoads (obs (secondPass json cx c sel demoKeys w1))))
      (secondPass json cx c sel demoKeys w1)"
    using assms(3) f by (auto simp: runDemo_def Let_def)
  moreover have "advances w1 (secondPass json cx c sel demoKeys w1)" by (rule secondPass_advances [OF assms(1) refl])
  ultimately show ?thesis using firstPass_advances [OF assms(1,2) f] by (auto intro: advances_trans)
qed

lemma logf_fields [simp]: "store (logf l w) = store w" "now (logf l w) = now w" "rt (logf l w) = rt w"
  "obs (logf l w) = (obs w)\<lparr>appLog := appLog (obs w) @ [l]\<rparr>"
  by (simp_all add: logf_def)

lemma length_demoKeys: "length demoKeys = 8"
  by (simp add: demoKeys_def)

lemma distinct_demoKeys: "distinct demoKeys"
  by (simp add: demoKeys_def)

text \<open>The demonstration over absent keys, and over keys that stay.\<close>

lemma demo_loads:
  assumes oc: "observed_cache c view expiry" and env: "\<not> envelopeEnabled cfg" "hooks cfg = appHooks"
    and "slotsBy keySlot slot" "\<forall>k. sel 1 k = FlightResult"
    and "\<forall>pl w' t. advances w w' \<longrightarrow> configOf c w' = cfg \<longrightarrow> t < D \<longrightarrow> livesUntil (expiry pl minute w') t"
    and "\<forall>(j, k)\<in>set (enumerate 0 demoKeys). encodes json (demoUser j k)"
    and "wfRuntime (rt w)" "cfg = configOf c w" "\<forall>k\<in>set demoKeys. \<forall>t. now w \<le> t \<longrightarrow> view (store w) t k = None"
    and "runDemo json cx c keySlot sel w = (r, w')" "now w' < D"
  shows "r = (8, demoResults slot 0 demoKeys) \<and> configOf c w' = cfg
    \<and> (\<forall>(j, k)\<in>set (enumerate 0 demoKeys). stays view json D w' (demoUser j k) k)
    \<and> (\<exists>ds. length ds = 8 \<and> (let x = obs w in obs w' = \<lparr>appHits = appHits x + 8, appMisses = appMisses x + 16, appLoads = appLoads x + 8,
         appLog = appLog x @ loadLines demoKeys ds @ [LogDemo 8 (appHits x + 8) (appMisses x + 16) (appLoads x + 8)]\<rparr>))"
proof -
  obtain out w1 where f: "firstPass json cx c keySlot sel 0 demoKeys [] w = (out, w1)" by force
  obtain w2 where s: "secondPass json cx c sel demoKeys w1 = w2" by simp
  let ?x = "obs w2"
  have w': "w' = logf (LogDemo (length out) (appHits ?x) (appMisses ?x) (appLoads ?x)) w2" and r: "r = (length out, out)"
    using assms(11) f s by (auto simp: runDemo_def Let_def)
  note fp = firstPass_loads [OF oc env assms(4-6) distinct_demoKeys assms(7) advances_refl assms(8-10) f]
  have wf1: "wfRuntime (rt w1)" using assms(8) fp by (simp add: advances_def)
  have D: "now w2 < D" using assms(12) w' by simp
  have cfg1: "cfg = configOf c w1" using fp [THEN conjunct2, THEN conjunct2, THEN conjunct1] by (rule sym)
  have st1: "\<forall>(j, k)\<in>set (enumerate 0 demoKeys). stays view json D w1 (demoUser j k) k"
    using fp [THEN conjunct2, THEN conjunct2, THEN conjunct2, THEN conjunct1] .
  note sp = secondPass_hits [OF oc env wf1 cfg1 st1 s D]
  have adv: "advances w1 w2" by (rule secondPass_advances [OF observed_cache.axioms(1) [OF oc] s])
  have out: "out = demoResults slot 0 demoKeys" using fp [THEN conjunct1] by simp
  then have len: "length out = 8" by (simp add: demoResults_def length_demoKeys)
  obtain ds where ds: "length ds = 8" "obs w1 = (obs w)\<lparr>appMisses := appMisses (obs w) + 2 * of_nat 8,
      appLoads := appLoads (obs w) + of_nat 8, appLog := appLog (obs w) @ loadLines demoKeys ds\<rparr>"
    using fp [THEN conjunct2, THEN conjunct2, THEN conjunct2, THEN conjunct2, THEN conjunct2] unfolding length_demoKeys by blast
  have o2: "obs w2 = (obs w1)\<lparr>appHits := appHits (obs w1) + 8\<rparr>" using sp [THEN conjunct2, THEN conjunct1] by (simp add: length_demoKeys)
  have "configOf c w' = cfg" using sp [THEN conjunct1] configOf_cong [of w' w2 c] w' by simp
  moreover have "\<forall>(j, k)\<in>set (enumerate 0 demoKeys). stays view json D w' (demoUser j k) k"
  proof clarify
    fix j k
    assume "(j, k) \<in> set (enumerate 0 demoKeys)"
    with st1 have "stays view json D w1 (demoUser j k) k" by auto
    then show "stays view json D w' (demoUser j k) k"
      by (rule stays_step [OF _ _ wf1]) (use sp adv w' in simp_all)
  qed
  moreover have "obs w' = \<lparr>appHits = appHits (obs w) + 8, appMisses = appMisses (obs w) + 16, appLoads = appLoads (obs w) + 8,
      appLog = appLog (obs w) @ loadLines demoKeys ds @ [LogDemo 8 (appHits (obs w) + 8) (appMisses (obs w) + 16) (appLoads (obs w) + 8)]\<rparr>"
    unfolding w' len by (simp add: o2 ds(2))
  ultimately show ?thesis using r len out ds(1) by (auto simp: Let_def)
qed

lemma demo_hits:
  assumes oc: "observed_cache c view expiry" and env: "\<not> envelopeEnabled cfg" "hooks cfg = appHooks"
    and "slotsBy keySlot slot" "wfRuntime (rt w)" "cfg = configOf c w"
    and "\<forall>(j, k)\<in>set (enumerate 0 demoKeys). stays view json D w (demoUser j k) k"
    and "runDemo json cx c keySlot sel w = (r, w')" "now w' < D"
  shows "r = (8, demoResults slot 0 demoKeys) \<and> (let x = obs w in obs w' = \<lparr>appHits = appHits x + 16, appMisses = appMisses x,
    appLoads = appLoads x, appLog = appLog x @ [LogDemo 8 (appHits x + 16) (appMisses x) (appLoads x)]\<rparr>)"
proof -
  note rc = observed_cache.axioms(1) [OF oc]
  obtain out w1 where f: "firstPass json cx c keySlot sel 0 demoKeys [] w = (out, w1)" by force
  obtain w2 where s: "secondPass json cx c sel demoKeys w1 = w2" by simp
  let ?x = "obs w2"
  have w': "w' = logf (LogDemo (length out) (appHits ?x) (appMisses ?x) (appLoads ?x)) w2" and r: "r = (length out, out)"
    using assms(8) f s by (auto simp: runDemo_def Let_def)
  have a: "advances w w1" "advances w1 w2"
    using firstPass_advances [OF rc assms(4) f] secondPass_advances [OF rc s] by simp_all
  have wf1: "wfRuntime (rt w1)" using assms(5) a(1) by (simp add: advances_def)
  have D: "now w2 < D" "now w1 < D" using assms(9) w' now_mono [OF wf1 a(2)] by simp_all
  note fp = firstPass_hits [OF oc env assms(4-7) f D(2)]
  have cfg1: "cfg = configOf c w1" using fp [THEN conjunct2, THEN conjunct1] by (rule sym)
  have st1: "\<forall>(j, k)\<in>set (enumerate 0 demoKeys). stays view json D w1 (demoUser j k) k"
  proof clarify
    fix j k
    assume "(j, k) \<in> set (enumerate 0 demoKeys)"
    with assms(7) have "stays view json D w (demoUser j k) k" by auto
    then show "stays view json D w1 (demoUser j k) k" by (rule stays_step [OF _ a(1) assms(5)]) (use fp in simp)
  qed
  note sp = secondPass_hits [OF oc env wf1 cfg1 st1 s D(1)]
  have out: "out = demoResults slot 0 demoKeys" using fp [THEN conjunct1] by simp
  then have len: "length out = 8" by (simp add: demoResults_def length_demoKeys)
  have "obs w1 = (obs w)\<lparr>appHits := appHits (obs w) + 8\<rparr>" "obs w2 = (obs w1)\<lparr>appHits := appHits (obs w1) + 8\<rparr>"
    using fp [THEN conjunct2, THEN conjunct2, THEN conjunct1] sp [THEN conjunct2, THEN conjunct1] by (simp_all add: length_demoKeys)
  then have "obs w' = \<lparr>appHits = appHits (obs w) + 16, appMisses = appMisses (obs w),
      appLoads = appLoads (obs w), appLog = appLog (obs w) @ [LogDemo 8 (appHits (obs w) + 16) (appMisses (obs w)) (appLoads (obs w))]\<rparr>"
    unfolding w' len by simp
  with r len out show ?thesis by (simp add: Let_def)
qed

lemma appCache_observed:
  assumes "redisReads rdb rv" "redisWrites rdb rv re" "redisHealthy rdb rv" "redisSilent rdb"
  shows "observed_cache (redisCache (appCache json rdb) p) (\<lambda>s t k. rv s t (appPrefix @ k)) (redisExpiry (appCache json rdb) re)"
  using redis_observed [of "appCache json rdb" rv re p] assms by simp

lemma appCache_plain:
  "\<not> envelopeEnabled (redisConfig (appCache json rdb))" "hooks (redisConfig (appCache json rdb)) = appHooks"
  by (simp_all add: envelopeEnabled_def)

lemma appCache_lives:
  assumes "keepsTTL re" "wfRuntime (rt w)"
  shows "\<forall>b w' t. advances w w' \<longrightarrow> configOf c w' = cfg \<longrightarrow> t < now w + sint minute \<longrightarrow>
    livesUntil (redisExpiry (appCache json rdb) re b minute w') t"
proof (intro allI impI)
  fix b t and w' :: "('a, appState) world"
  assume "advances w w'" "t < now w + sint minute"
  then have "t < now w' + sint minute" using now_mono [OF assms(2)] by fastforce
  moreover have "0 < sint minute" by simp
  ultimately have "livesUntil (re minute w') t" using assms(1) unfolding keepsTTL_def by blast
  then show "livesUntil (redisExpiry (appCache json rdb) re b minute w') t" unfolding appCache_expiry .
qed

lemma absent_lasts:
  assumes "redisReads rdb rv" "\<forall>k\<in>set ks. rv s t0 (appPrefix @ k) = None"
  shows "\<forall>k\<in>set ks. \<forall>t. t0 \<le> t \<longrightarrow> rv s t (appPrefix @ k) = None"
proof (intro ballI allI impI)
  fix k t
  assume "k \<in> set ks" "t0 \<le> t"
  with assms(2) redisReadsD(6) [OF assms(1) \<open>t0 \<le> t\<close>, of s "appPrefix @ k"] show "rv s t (appPrefix @ k) = None"
    by (metis not_None_eq)
qed

section \<open>Worked instances\<close>

text \<open>A codec of small users, and a cluster whose clock stands still.\<close>

definition userCodec :: "User Codec" where
  "userCodec = \<lparr>
     Marshal = (\<lambda>u. if 0 \<le> ID u \<and> ID u < 256 then Inr (word_of_int (ID u) # map of_char (Name u)) else Inl (New 9 ''too large'')),
     Unmarshal = (\<lambda>b. case b of [] \<Rightarrow> Inl (New 8 ''bad value'')
       | x # xs \<Rightarrow> Inr \<lparr>ID = uint x, Name = map (\<lambda>y. char_of (unat y)) xs\<rparr>)\<rparr>"

lemma char_of_byte: "char_of (unat (of_char c :: byte)) = c"
proof -
  have "(of_char c :: byte) = of_nat (of_char c)" by (rule of_nat_of_char [symmetric])
  then have "unat (of_char c :: byte) = of_char c mod 256" by (simp only: unat_of_nat) simp
  then show ?thesis by simp
qed

lemma userCodec_encodes:
  assumes "0 < ID u" "ID u < 256"
  shows "encodes userCodec u"
proof -
  let ?b = "word_of_int (ID u) # map of_char (Name u) :: bytes"
  have "uint (word_of_int (ID u) :: byte) = ID u" using assms by (simp add: uint_word_of_int)
  then have "Marshal userCodec u = Inr ?b" "Unmarshal userCodec ?b = Inr u"
    using assms by (simp_all add: userCodec_def comp_def char_of_byte)
  moreover have "(word_of_int (ID u) :: byte) \<noteq> 0"
    using \<open>uint (word_of_int (ID u) :: byte) = ID u\<close> assms(1) by fastforce
  then have "\<not> isNegativeEntry ?b" by (simp add: isNegativeEntry_def negativeMarker_def)
  ultimately show ?thesis by (auto simp: encodes_def)
qed

definition emptyCluster :: "(server, appState) world" where
  "emptyCluster = (demoWorld 0 Map.empty \<lparr>appHits = 0, appMisses = 0, appLoads = 0, appLog = []\<rparr>)
     \<lparr>rt := (demoRuntime 0)\<lparr>clock := (\<lambda>_. 1700000000000000000)\<rparr>\<rparr>"

lemma emptyCluster_simps [simp]:
  "clock (rt emptyCluster) n = 1700000000000000000" "now emptyCluster = 1700000000000000000" "store emptyCluster = Map.empty"
  "obs emptyCluster = \<lparr>appHits = 0, appMisses = 0, appLoads = 0, appLog = []\<rparr>"
  by (simp_all add: emptyCluster_def now_def)

lemma emptyCluster_wf [simp]: "wfRuntime (rt emptyCluster)"
  using wfRuntime_demo_zero by (simp add: emptyCluster_def wfRuntime_def mono_def)

definition oneSlot :: "ctx \<Rightarrow> key \<Rightarrow> ('s, appState) world \<Rightarrow> int \<times> ('s, appState) world" where
  "oneSlot cx k w = (0, w)"

lemma slotsBy_oneSlot: "slotsBy oneSlot (\<lambda>_. 0)"
  by (simp add: slotsBy_def oneSlot_def)

lemma keepsTTL_srv: "keepsTTL srvExpiry"
  by (simp add: keepsTTL_def srvExpiry_def livesUntil_def tAdd_def)

lemma encodes_users: "\<forall>(j, k)\<in>set (enumerate 0 demoKeys). encodes userCodec (demoUser j k)"
proof clarify
  fix j k
  assume "(j, k) \<in> set (enumerate 0 demoKeys)"
  then have "j < 8" using length_demoKeys by (auto simp: in_set_enumerate_eq)
  then show "encodes userCodec (demoUser j k)" by (intro userCodec_encodes) (simp_all add: demoUser_def)
qed

section \<open>Properties\<close>

text \<open>
  (C39) The wait for the cluster ends exactly when some attempt's ping is answered, and then with the world of that attempt;
  while no attempt is answered it never returns.
\<close>

theorem waitReady_returns:
  "(waitReady cx cache i w = None \<longleftrightarrow> (\<forall>n. fst (pingOnce cx cache (attemptWorld cx cache i n w)) \<noteq> None))
   \<and> (\<forall>n w'. pingOnce cx cache (attemptWorld cx cache i n w) = (None, w') \<longrightarrow> waitReady cx cache i w = Some w')"
proof -
  have "waitReady cx cache i w \<noteq> None" if "fst (pingOnce cx cache (attemptWorld cx cache i n w)) = None" for n
    using waitReady_some [of cx cache i n w] that by (cases "pingOnce cx cache (attemptWorld cx cache i n w)") auto
  moreover have "\<exists>n. fst (pingOnce cx cache (attemptWorld cx cache i n w)) = None" if "waitReady cx cache i w \<noteq> None"
    using waitReady_answered [of cx cache i w] that by (metis fst_conv not_None_eq)
  ultimately show ?thesis using waitReady_some [of cx cache i] by blast
qed

theorem waitReady_returns_witness:
  "map_option (\<lambda>w. appLog (obs w)) (waitReady Background (appCache userCodec (refRedis\<lparr>rcPing :=
       (\<lambda>cx w. (if reads w < 3 then Some nilReply else None, w))\<rparr>)) 1 emptyCluster)
     = Some [LogWaiting 1 (Wrapf ''cachekit: ping: %w'' [] nilReply)]"
proof -
  let ?c = "appCache userCodec (refRedis\<lparr>rcPing := (\<lambda>cx w. (if reads w < 3 then Some nilReply else None, w))\<rparr>)"
  let ?e = "Wrapf ''cachekit: ping: %w'' [] nilReply"
  have r: "reads emptyCluster = 0" by (simp add: emptyCluster_def)
  let ?w1 = "emptyCluster\<lparr>reads := 1\<rparr>"
  have 0: "pingOnce Background ?c emptyCluster = (Some ?e, ?w1)"
    by (simp add: pingOnce_def withTimeout_def timeNow_def redisPing_def opContext_def r)
  let ?w2 = "retryLater 1 ?e ?w1"
  have r2: "reads ?w2 = 2" "appLog (obs ?w2) = [LogWaiting 1 ?e]" by (simp_all add: retryLater_def timeNow_def logf_def)
  have "attemptWorld Background ?c 1 1 emptyCluster = ?w2" using 0 by simp
  moreover have "pingOnce Background ?c u = (None, u\<lparr>reads := 3\<rparr>)" if "reads u = 2" for u
    by (simp add: pingOnce_def withTimeout_def timeNow_def redisPing_def opContext_def that)
  note this [OF r2(1)]
  ultimately have "waitReady Background ?c 1 emptyCluster = Some (?w2\<lparr>reads := 3\<rparr>)"
    using waitReady_returns [THEN conjunct2, rule_format, of Background ?c 1 1 emptyCluster] by simp
  then show ?thesis using r2(2) by simp
qed



text \<open>
  The demonstration asked for again (the handler of \<open>/demo\<close>) within the same minute: the same response, sixteen more
  hits, and no load.
\<close>

theorem demo_again_hits:
  assumes "redisReads rdb rv" "redisWrites rdb rv re" "redisHealthy rdb rv" "redisSilent rdb" "keepsTTL re"
    and "slotsBy keySlot slot" "\<forall>k. sel 1 k = FlightResult"
    and "\<forall>(j, k)\<in>set (enumerate 0 demoKeys). encodes json (demoUser j k)" "wfRuntime (rt w)"
    and "\<forall>k\<in>set demoKeys. rv (store w) (now w) (appPrefix @ k) = None"
    and "runDemo json cx (redisCache (appCache json rdb) p) keySlot sel w = ((n, rs), w1)"
    and "serve json (appCache json rdb) p keySlot sel' ''/demo'' cx' w1 = (resp, w2)" "now w2 < now w + sint minute"
  shows "resp = HttpDemo n rs \<and> (let x = obs w1 in obs w2 = \<lparr>appHits = appHits x + 16, appMisses = appMisses x,
    appLoads = appLoads x, appLog = appLog x @ [LogDemo 8 (appHits x + 16) (appMisses x) (appLoads x)]\<rparr>)"
proof -
  let ?c = "redisCache (appCache json rdb) p"
  note oc = appCache_observed [OF assms(1-4), of json p]
  obtain m rs' where d2: "runDemo json cx' ?c keySlot sel' w1 = ((m, rs'), w2)" and resp: "resp = HttpDemo m rs'"
    using assms(12) by (auto simp: serve_def split: prod.splits)
  have a: "advances w w1" "advances w1 w2"
    using runDemo_advances [OF observed_cache.axioms(1) [OF oc] assms(6)] assms(11) d2 by blast+
  have wf1: "wfRuntime (rt w1)" using assms(9) a(1) by (simp add: advances_def)
  have D: "now w1 < now w + sint minute" using now_mono [OF wf1 a(2)] assms(13) by simp
  have cfg: "redisConfig (appCache json rdb) = configOf ?c u" for u unfolding redisCache_sel ..
  note first = demo_loads [OF oc appCache_plain assms(6,7) appCache_lives [OF assms(5,9)] assms(8,9) cfg
      absent_lasts [OF assms(1,10)] assms(11) D]
  note again = demo_hits [OF oc appCache_plain assms(6) wf1 cfg first [THEN conjunct2, THEN conjunct2, THEN conjunct1] d2 assms(13)]
  from first have "(n, rs) = (8, demoResults slot 0 demoKeys)" by blast
  with again resp show ?thesis by simp
qed

theorem demo_again_hits_witness:
  "let d = runDemo userCodec Background (redisCache (appCache userCodec refRedis) 0) oneSlot (\<lambda>_ _. FlightResult) emptyCluster;
       s = serve userCodec (appCache userCodec refRedis) 0 oneSlot (\<lambda>_ _. CtxDone) ''/demo'' Background (snd d)
   in fst s = HttpDemo (fst (fst d)) (snd (fst d)) \<and> appLoads (obs (snd s)) = appLoads (obs (snd d))"
proof -
  obtain n rs w1 where d: "runDemo userCodec Background (redisCache (appCache userCodec refRedis) 0) oneSlot (\<lambda>_ _. FlightResult) emptyCluster
     = ((n, rs), w1)" by (metis prod.exhaust)
  obtain resp w2 where s: "serve userCodec (appCache userCodec refRedis) 0 oneSlot (\<lambda>_ _. CtxDone) ''/demo'' Background w1 = (resp, w2)"
    by (rule prod.exhaust)
  then obtain r where d2: "runDemo userCodec Background (redisCache (appCache userCodec refRedis) 0) oneSlot (\<lambda>_ _. CtxDone) w1 = (r, w2)"
    by (auto simp: serve_def split: prod.splits)
  note oc = appCache_observed [OF refRedis_reads refRedis_writes refRedis_healthy refRedis_silent, of userCodec 0]
  note adv = runDemo_advances [OF observed_cache.axioms(1) [OF oc] slotsBy_oneSlot]
  have "advances emptyCluster w2" using adv [OF d] adv [OF d2] by (rule advances_trans)
  then have "now w2 < now emptyCluster + sint minute" by (simp add: advances_rt now_def)
  from demo_again_hits [OF refRedis_reads refRedis_writes refRedis_healthy refRedis_silent keepsTTL_srv slotsBy_oneSlot _ encodes_users
      emptyCluster_wf _ d s this] d s show ?thesis by (simp add: srvView_def Let_def)
qed

end
