(* ===== verification/Slices.thy ===== *)
theory Slices
  imports Memory
begin

text \<open>
  memory.go with byte slices as what they are, references to arrays that whoever holds one can overwrite.
  The cache keeps a slice per item; \<open>Set\<close> is given a slice of the caller, \<open>Get\<close> hands one out. The operations here are
  those of theory Memory with an explicit heap of arrays and the calls of \<open>bytes.Clone\<close> where the code has them.

  The lemmas show that, because of the clones, no caller ever holds a slice of the cache, that the cache never
  writes to a slice of a caller, and that whatever callers do with their slices the operations are those of theory Memory,
  in which values are immutable.
\<close>

section \<open>State\<close>

type_synonym slice = nat

record sliceItem =
  sVal :: slice
  sDeadline :: time

text \<open>The struct, its items being slices, and the heap: the content of every array and the next free one.\<close>

record ('c, 'h) sliceCache =
  scFields :: "('c, 'h) MemoryCache"
  scItems :: "key \<rightharpoonup> sliceItem"
  scHeap :: "slice \<Rightarrow> bytes"
  scNext :: slice

definition deref :: "('c, 'h) sliceCache \<Rightarrow> sliceItem \<Rightarrow> memoryItem" where
  "deref c it = \<lparr>val = scHeap c (sVal it), deadline = sDeadline it\<rparr>"

definition absCache :: "('c, 'h) sliceCache \<Rightarrow> ('c, 'h) MemoryCache" where
  "absCache c = (scFields c)\<lparr>items := map_option (deref c) \<circ> scItems c\<rparr>"

definition absWorld :: "(('c, 'h) sliceCache, 'h) world \<Rightarrow> (('c, 'h) MemoryCache, 'h) world" where
  "absWorld w = \<lparr>rt = rt w, reads = reads w, draws = draws w, ranges = ranges w, obs = obs w, store = absCache (store w)\<rparr>"

section \<open>Operations\<close>

text \<open>\<open>make\<close> and \<open>bytes.Clone\<close>: a new array.\<close>

definition alloc :: "bytes \<Rightarrow> (('c, 'h) sliceCache, 'h) world \<Rightarrow> slice \<times> (('c, 'h) sliceCache, 'h) world" where
  "alloc b w = (let c = store w in
     (scNext c, w\<lparr>store := c\<lparr>scHeap := (scHeap c)(scNext c := b), scNext := Suc (scNext c)\<rparr>\<rparr>))"

definition clone :: "slice \<Rightarrow> (('c, 'h) sliceCache, 'h) world \<Rightarrow> slice \<times> (('c, 'h) sliceCache, 'h) world" where
  "clone a w = alloc (scHeap (store w) a) w"

definition slLookup :: "key \<Rightarrow> (('c, 'h) sliceCache, 'h) world \<Rightarrow> sliceItem option \<times> (('c, 'h) sliceCache, 'h) world" where
  "slLookup k w = (let c = store w in
     case scItems c (memKey (scFields c) k) of
       None \<Rightarrow> (None, w)
     | Some it \<Rightarrow>
         if isZero (sDeadline it) then (Some it, w)
         else case timeNow w of (t, w1) \<Rightarrow>
           if \<not> t < sDeadline it
           then (None, w1\<lparr>store := c\<lparr>scItems := (scItems c)(memKey (scFields c) k := None)\<rparr>\<rparr>)
           else (Some it, w1))"

definition slGet :: "ctx \<Rightarrow> key \<Rightarrow> (('c, 'h) sliceCache, 'h) world \<Rightarrow> (gerror + slice) \<times> (('c, 'h) sliceCache, 'h) world" where
  "slGet cx k w = (case slLookup k w of
       (None, w1) \<Rightarrow> (Inl (missError k), hookMiss (mcHooks (scFields (store w))) k w1)
     | (Some it, w1) \<Rightarrow> (case clone (sVal it) w1 of (a, w2) \<Rightarrow>
         (Inr a, hookHit (mcHooks (scFields (store w))) k w2)))"

definition slNewItem :: "slice \<Rightarrow> duration \<Rightarrow> (('c, 'h) sliceCache, 'h) world \<Rightarrow> sliceItem \<times> (('c, 'h) sliceCache, 'h) world" where
  "slNewItem v ttl w =
     (let c = scFields (store w); ttl1 = (if sint ttl \<le> 0 then mcDefaultTTL c else ttl) in
      case (if \<not> hasEnvelope (scHeap (store w) v) then applyJitter ttl1 (mcTTLJitter c) w else (ttl1, w)) of (ttl2, w1) \<Rightarrow>
        (case clone v w1 of (a, w2) \<Rightarrow>
          if 0 < sint ttl2
          then case timeNow w2 of (t, w3) \<Rightarrow> (\<lparr>sVal = a, sDeadline = tAdd t ttl2\<rparr>, w3)
          else (\<lparr>sVal = a, sDeadline = zeroTime\<rparr>, w2)))"

definition slPut :: "key \<Rightarrow> slice \<Rightarrow> duration \<Rightarrow> (('c, 'h) sliceCache, 'h) world \<Rightarrow> (('c, 'h) sliceCache, 'h) world" where
  "slPut k v ttl w = (case slNewItem v ttl w of (it, w1) \<Rightarrow>
     (let c = store w1 in w1\<lparr>store := c\<lparr>scItems := (scItems c)(memKey (scFields c) k \<mapsto> it)\<rparr>\<rparr>))"

definition slSet :: "ctx \<Rightarrow> key \<Rightarrow> slice \<Rightarrow> duration \<Rightarrow> (('c, 'h) sliceCache, 'h) world \<Rightarrow>
    gerror option \<times> (('c, 'h) sliceCache, 'h) world" where
  "slSet cx k v ttl w = (None, slPut k v ttl w)"

definition slDelete :: "ctx \<Rightarrow> key \<Rightarrow> (('c, 'h) sliceCache, 'h) world \<Rightarrow> gerror option \<times> (('c, 'h) sliceCache, 'h) world" where
  "slDelete cx k w = (let c = store w in
     (None, w\<lparr>store := c\<lparr>scItems := (scItems c)(memKey (scFields c) k := None)\<rparr>\<rparr>))"

fun slGetLoop :: "key list \<Rightarrow> (key \<rightharpoonup> slice) \<Rightarrow> (('c, 'h) sliceCache, 'h) world \<Rightarrow>
    ((key \<rightharpoonup> slice) \<times> key list \<times> key list) \<times> (('c, 'h) sliceCache, 'h) world" where
  "slGetLoop [] out w = ((out, [], []), w)"
| "slGetLoop (k # ks) out w = (case slLookup k w of
       (None, w1) \<Rightarrow> (case slGetLoop ks out w1 of ((out', hs, ms), w2) \<Rightarrow> ((out', hs, k # ms), w2))
     | (Some it, w1) \<Rightarrow> (case clone (sVal it) w1 of (a, w2) \<Rightarrow>
         (case slGetLoop ks (out(k \<mapsto> a)) w2 of ((out', hs, ms), w3) \<Rightarrow> ((out', k # hs, ms), w3))))"

definition slGetMany :: "ctx \<Rightarrow> key list \<Rightarrow> (('c, 'h) sliceCache, 'h) world \<Rightarrow>
    (gerror + (key \<rightharpoonup> slice)) \<times> (('c, 'h) sliceCache, 'h) world" where
  "slGetMany cx ks w = (case slGetLoop ks Map.empty w of ((out, hs, ms), w1) \<Rightarrow>
     (Inr out, fold (hookMiss (mcHooks (scFields (store w)))) ms (fold (hookHit (mcHooks (scFields (store w)))) hs w1)))"

definition slSetMany :: "ctx \<Rightarrow> (key \<times> slice) list \<Rightarrow> duration \<Rightarrow> (('c, 'h) sliceCache, 'h) world \<Rightarrow>
    gerror option \<times> (('c, 'h) sliceCache, 'h) world" where
  "slSetMany cx kvs ttl w = (case rangeItems kvs w of (xs, w1) \<Rightarrow>
     (None, fold (\<lambda>(k, v). slPut k v ttl) xs w1))"

section \<open>The cache and its callers\<close>

text \<open>
  The slices the callers hold: those they made and those the cache gave them. They may overwrite
  them at any time.
\<close>

record ('c, 'h) sliceState =
  ssWorld :: "(('c, 'h) sliceCache, 'h) world"
  ssHeld :: "slice set"

datatype sliceEvent = Made slice | Wrote slice bytes | Got ctx key "gerror + slice" | GotMany ctx "key list" "key \<rightharpoonup> slice"
  | SetOne ctx key slice duration | SetMany ctx "(key \<times> slice) list" duration | Deleted ctx key | Ticked

inductive sstep :: "('c, 'h) sliceState \<Rightarrow> sliceEvent \<Rightarrow> ('c, 'h) sliceState \<Rightarrow> bool" where
  made: "alloc b (ssWorld s) = (a, w') \<Longrightarrow> sstep s (Made a) \<lparr>ssWorld = w', ssHeld = insert a (ssHeld s)\<rparr>"
| wrote: "a \<in> ssHeld s \<Longrightarrow> c = store (ssWorld s) \<Longrightarrow>
    sstep s (Wrote a b) (s\<lparr>ssWorld := (ssWorld s)\<lparr>store := c\<lparr>scHeap := (scHeap c)(a := b)\<rparr>\<rparr>\<rparr>)"
| got: "slGet cx k (ssWorld s) = (r, w') \<Longrightarrow>
    sstep s (Got cx k r) \<lparr>ssWorld = w', ssHeld = ssHeld s \<union> (case r of Inl _ \<Rightarrow> {} | Inr a \<Rightarrow> {a})\<rparr>"
| got_many: "slGetMany cx ks (ssWorld s) = (Inr out, w') \<Longrightarrow>
    sstep s (GotMany cx ks out) \<lparr>ssWorld = w', ssHeld = ssHeld s \<union> ran out\<rparr>"
| set_one: "a \<in> ssHeld s \<Longrightarrow> slSet cx k a ttl (ssWorld s) = (q, w') \<Longrightarrow> sstep s (SetOne cx k a ttl) (s\<lparr>ssWorld := w'\<rparr>)"
| set_many: "snd ` set kvs \<subseteq> ssHeld s \<Longrightarrow> distinct (map fst kvs) \<Longrightarrow> slSetMany cx kvs ttl (ssWorld s) = (q, w') \<Longrightarrow>
    sstep s (SetMany cx kvs ttl) (s\<lparr>ssWorld := w'\<rparr>)"
| deleted: "slDelete cx k (ssWorld s) = (q, w') \<Longrightarrow> sstep s (Deleted cx k) (s\<lparr>ssWorld := w'\<rparr>)"
| ticked: "sstep s Ticked (s\<lparr>ssWorld := snd (timeNow (ssWorld s))\<rparr>)"

inductive sreach :: "('c, 'h) sliceState \<Rightarrow> ('c, 'h) sliceState \<Rightarrow> bool" for s0 where
  sreach_init: "sreach s0 s0"
| sreach_step: "sreach s0 s \<Longrightarrow> sstep s ev s' \<Longrightarrow> sreach s0 s'"

section \<open>The abstraction\<close>

lemma absWorld_sel [simp]:
  "rt (absWorld w) = rt w" "reads (absWorld w) = reads w" "draws (absWorld w) = draws w" "ranges (absWorld w) = ranges w"
  "obs (absWorld w) = obs w" "store (absWorld w) = absCache (store w)" "now (absWorld w) = now w"
  by (simp_all add: absWorld_def now_def)

lemma absWorld_upd:
  "absWorld (w\<lparr>reads := n\<rparr>) = (absWorld w)\<lparr>reads := n\<rparr>" "absWorld (w\<lparr>draws := n\<rparr>) = (absWorld w)\<lparr>draws := n\<rparr>"
  "absWorld (w\<lparr>ranges := n\<rparr>) = (absWorld w)\<lparr>ranges := n\<rparr>"
  "absWorld (w\<lparr>obs := x\<rparr>) = (absWorld w)\<lparr>obs := x\<rparr>" "absWorld (w\<lparr>store := c\<rparr>) = (absWorld w)\<lparr>store := absCache c\<rparr>"
  by (simp_all add: absWorld_def)

lemma absWorld_ops:
  "timeNow (absWorld w) = (case timeNow w of (t, w') \<Rightarrow> (t, absWorld w'))"
  "applyJitter ttl fr (absWorld w) = (case applyJitter ttl fr w of (d, w') \<Rightarrow> (d, absWorld w'))"
  "hookHit h k (absWorld w) = absWorld (hookHit h k w)" "hookMiss h k (absWorld w) = absWorld (hookMiss h k w)"
  by (simp_all add: timeNow_def applyJitter_def randFloat64_def hook_defs absWorld_upd split: option.splits)

lemma absCache_sel [simp]:
  "items (absCache c) k = map_option (deref c) (scItems c k)" "memKey (absCache c) = memKey (scFields c)"
  "mcHooks (absCache c) = mcHooks (scFields c)" "mcDefaultTTL (absCache c) = mcDefaultTTL (scFields c)"
  "mcTTLJitter (absCache c) = mcTTLJitter (scFields c)"
  by (simp_all add: absCache_def)

lemma absCache_put:
  "absCache (c\<lparr>scItems := (scItems c)(k := v)\<rparr>) = (absCache c)\<lparr>items := (items (absCache c))(k := map_option (deref c) v)\<rparr>"
proof -
  have "deref (c\<lparr>scItems := m\<rparr>) = deref c" for m by (simp add: deref_def fun_eq_iff)
  moreover have "(f \<circ> m)(k := f v) = f \<circ> m(k := v)" for f :: "sliceItem option \<Rightarrow> memoryItem option" and m
    by (rule ext) simp
  ultimately show ?thesis by (simp add: absCache_def)
qed

text \<open>Every item's array has been allocated; the cache's own slices.\<close>

definition itemSlices :: "('c, 'h) sliceCache \<Rightarrow> slice set" where
  "itemSlices c = sVal ` ran (scItems c)"

definition slWf :: "('c, 'h) sliceCache \<Rightarrow> bool" where
  "slWf c \<longleftrightarrow> itemSlices c \<subseteq> {..<scNext c}"

text \<open>Existing arrays are left alone.\<close>

definition keepsHeap :: "('c, 'h) sliceCache \<Rightarrow> ('c, 'h) sliceCache \<Rightarrow> bool" where
  "keepsHeap c c' \<longleftrightarrow> scFields c' = scFields c \<and> scNext c \<le> scNext c' \<and> (\<forall>a. a < scNext c \<longrightarrow> scHeap c' a = scHeap c a)"

lemma keepsHeap_refl [simp]: "keepsHeap c c"
  by (simp add: keepsHeap_def)

lemma keepsHeap_trans: "keepsHeap c c1 \<Longrightarrow> keepsHeap c1 c2 \<Longrightarrow> keepsHeap c c2"
  by (auto simp: keepsHeap_def)

lemma itemSlicesI: "scItems c k = Some it \<Longrightarrow> sVal it \<in> itemSlices c"
  by (auto simp: itemSlices_def ran_def)

text \<open>The value of a cache depends on the heap below the next free array only.\<close>

lemma absCache_heap:
  assumes "slWf c" "scFields c' = scFields c" "scItems c' = scItems c" "\<forall>a\<in>itemSlices c. scHeap c' a = scHeap c a"
  shows "absCache c' = absCache c"
proof -
  have "map_option (deref c') (scItems c k) = map_option (deref c) (scItems c k)" for k
    using assms(4) itemSlicesI [of c k] by (cases "scItems c k") (auto simp: deref_def)
  then show ?thesis by (simp add: absCache_def assms(2,3) comp_def)
qed

lemma alloc_spec:
  assumes "slWf (store w)" "alloc b w = (a, w')"
  shows "absWorld w' = absWorld w" "a = scNext (store w)" "scNext (store w') = Suc a" "scHeap (store w') a = b"
    "keepsHeap (store w) (store w')" "scItems (store w') = scItems (store w)" "slWf (store w')"
    "itemSlices (store w') = itemSlices (store w)"
proof -
  let ?c = "store w"
  have w': "w' = w\<lparr>store := ?c\<lparr>scHeap := (scHeap ?c)(a := b), scNext := Suc a\<rparr>\<rparr>" and a: "a = scNext ?c"
    using assms(2) by (auto simp: alloc_def Let_def)
  have "absCache (store w') = absCache ?c"
    by (rule absCache_heap) (use assms(1) in \<open>auto simp: w' a slWf_def\<close>)
  then show "absWorld w' = absWorld w" by (simp add: w' absWorld_def)
  show "a = scNext ?c" by (rule a)
  show "scNext (store w') = Suc a" "scHeap (store w') a = b" "scItems (store w') = scItems ?c" by (simp_all add: w')
  show "keepsHeap ?c (store w')" by (simp add: w' a keepsHeap_def)
  show "itemSlices (store w') = itemSlices ?c" by (simp add: w' itemSlices_def)
  then show "slWf (store w')" using assms(1) by (auto simp: slWf_def w' a)
qed

lemma clone_spec:
  assumes "slWf (store w)" "clone v w = (a, w')"
  shows "absWorld w' = absWorld w" "a = scNext (store w)" "scNext (store w') = Suc a" "scHeap (store w') a = scHeap (store w) v"
    "keepsHeap (store w) (store w')" "scItems (store w') = scItems (store w)" "slWf (store w')"
    "itemSlices (store w') = itemSlices (store w)"
  using alloc_spec [OF assms(1) assms(2) [unfolded clone_def]] by simp_all

text \<open>The lookup drops at most an item, and allocates nothing.\<close>

lemma slLookup_spec:
  assumes "slLookup k w = (r, w')"
  shows "memLookup k (absWorld w) = (map_option (deref (store w)) r, absWorld w')"
    "scHeap (store w') = scHeap (store w)" "scNext (store w') = scNext (store w)" "scFields (store w') = scFields (store w)"
    "itemSlices (store w') \<subseteq> itemSlices (store w)" "r = Some it \<Longrightarrow> sVal it \<in> itemSlices (store w)"
proof -
  let ?c = "store w" and ?k = "memKey (scFields (store w)) k"
  have sub: "itemSlices (?c\<lparr>scItems := (scItems ?c)(?k := None)\<rparr>) \<subseteq> itemSlices ?c"
    by (auto simp: itemSlices_def ran_def)
  show "memLookup k (absWorld w) = (map_option (deref ?c) r, absWorld w')"
  proof (cases "scItems ?c ?k")
    case None
    with assms show ?thesis by (auto simp: slLookup_def memLookup_def Let_def)
  next
    case (Some it)
    have "memLookup k (absWorld w) = (map_option (deref ?c) (fst (slLookup k w)), absWorld (snd (slLookup k w)))"
      by (simp add: slLookup_def memLookup_def Let_def Some absWorld_upd absCache_put timeNow_def deref_def)
    with assms show ?thesis by simp
  qed
  show "scHeap (store w') = scHeap ?c" "scNext (store w') = scNext ?c" "scFields (store w') = scFields ?c"
    "itemSlices (store w') \<subseteq> itemSlices ?c"
    using assms sub by (auto simp: slLookup_def Let_def timeNow_def split: option.splits if_splits)
  show "r = Some it \<Longrightarrow> sVal it \<in> itemSlices ?c"
    using assms itemSlicesI [of ?c ?k] by (auto simp: slLookup_def Let_def timeNow_def split: option.splits if_splits)
qed

text \<open>
  The specification the operations share: the value-level result, the heap of before kept, no item slice but old
  ones and new ones.
\<close>

definition frame :: "(('c, 'h) sliceCache, 'h) world \<Rightarrow> (('c, 'h) sliceCache, 'h) world \<Rightarrow> bool" where
  "frame w w' \<longleftrightarrow> keepsHeap (store w) (store w') \<and> slWf (store w')
     \<and> itemSlices (store w') \<subseteq> itemSlices (store w) \<union> {scNext (store w)..}"

lemma frameD:
  assumes "frame w w'"
  shows "keepsHeap (store w) (store w')" "slWf (store w')" "scNext (store w) \<le> scNext (store w')"
    "a < scNext (store w) \<Longrightarrow> scHeap (store w') a = scHeap (store w) a"
    "itemSlices (store w') \<subseteq> itemSlices (store w) \<union> {scNext (store w)..}"
  using assms by (auto simp: frame_def keepsHeap_def)

lemma frame_trans: "frame w w1 \<Longrightarrow> frame w1 w2 \<Longrightarrow> frame w w2"
  using keepsHeap_trans by (fastforce simp: frame_def keepsHeap_def)

lemma frame_refl: "slWf (store w) \<Longrightarrow> frame w w"
  by (auto simp: frame_def)

lemma frame_store: "frame w w' \<Longrightarrow> store u = store w' \<Longrightarrow> frame w u"
  by (simp add: frame_def)

lemma slLookup_frame:
  assumes "slLookup k w = (r, w')" "slWf (store w)"
  shows "frame w w'"
  using slLookup_spec(2-5) [OF assms(1)] assms(2) by (auto simp: frame_def keepsHeap_def slWf_def)

lemma clone_frame:
  assumes "clone v w = (a, w')" "slWf (store w)"
  shows "frame w w'"
  using clone_spec [OF assms(2,1)] by (auto simp: frame_def)

lemma fold_hooks:
  "absWorld (fold (hookHit h) ks w) = fold (hookHit h) ks (absWorld w)" "store (fold (hookHit h) ks w) = store w"
  "absWorld (fold (hookMiss h) ks w) = fold (hookMiss h) ks (absWorld w)" "store (fold (hookMiss h) ks w) = store w"
  by (induction ks arbitrary: w) (simp_all add: absWorld_ops)

text \<open>Reads hand out a new slice with the item's content.\<close>

lemma slGet_spec:
  assumes "slGet cx k w = (r, w')" "slWf (store w)"
  shows "memGet cx k (absWorld w) = (map_sum id (scHeap (store w')) r, absWorld w')" "frame w w'"
    "itemSlices (store w') \<subseteq> itemSlices (store w)"
    "r = Inr a \<Longrightarrow> scNext (store w) \<le> a \<and> a < scNext (store w') \<and> a \<notin> itemSlices (store w')"
proof -
  obtain q w1 where l: "slLookup k w = (q, w1)" by force
  note sp = slLookup_spec [OF l] and fr = slLookup_frame [OF l assms(2)]
  have "memGet cx k (absWorld w) = (map_sum id (scHeap (store w')) r, absWorld w') \<and> frame w w'
    \<and> itemSlices (store w') \<subseteq> itemSlices (store w)
    \<and> (r = Inr a \<longrightarrow> scNext (store w) \<le> a \<and> a < scNext (store w') \<and> a \<notin> itemSlices (store w'))"
  proof (cases q)
    case None
    with assms(1) l have "r = Inl (missError k)" "w' = hookMiss (mcHooks (scFields (store w))) k w1"
      by (simp_all add: slGet_def)
    with None sp(1,5) show ?thesis by (auto simp: memGet_def absWorld_ops intro: frame_store [OF fr])
  next
    case (Some it)
    obtain a' w2 where c: "clone (sVal it) w1 = (a', w2)" by force
    note cs = clone_spec [OF frameD(2) [OF fr] c]
    have r: "r = Inr a'" "w' = hookHit (mcHooks (scFields (store w))) k w2"
      using assms(1) l c Some by (simp_all add: slGet_def)
    have "frame w w'" by (rule frame_store [OF frame_trans [OF fr clone_frame [OF c frameD(2) [OF fr]]]]) (simp add: r)
    moreover have "memGet cx k (absWorld w) = (map_sum id (scHeap (store w')) r, absWorld w')"
      using Some sp(1,2) cs(1,4) r by (simp add: memGet_def deref_def flip: absWorld_ops(3))
    moreover have "itemSlices (store w') \<subseteq> itemSlices (store w)" using cs(8) sp(5) r by simp
    moreover have "a' = scNext (store w)" "a' < scNext (store w')" using cs(2,3) sp(3) r by simp_all
    moreover from this have "a' \<notin> itemSlices (store w')"
      using \<open>itemSlices (store w') \<subseteq> itemSlices (store w)\<close> assms(2) by (auto simp: slWf_def)
    ultimately show ?thesis using r by auto
  qed
  then show "memGet cx k (absWorld w) = (map_sum id (scHeap (store w')) r, absWorld w')" "frame w w'"
    "itemSlices (store w') \<subseteq> itemSlices (store w)"
    "r = Inr a \<Longrightarrow> scNext (store w) \<le> a \<and> a < scNext (store w') \<and> a \<notin> itemSlices (store w')" by simp_all
qed

text \<open>Writes keep a copy.\<close>

lemma slNewItem_spec:
  assumes "slNewItem v ttl w = (it, w')" "slWf (store w)"
  shows "newItem (absCache (store w)) (scHeap (store w) v) ttl (absWorld w) = (deref (store w') it, absWorld w')" "frame w w'"
    "scNext (store w) \<le> sVal it" "sVal it < scNext (store w')" "absCache (store w') = absCache (store w)"
proof -
  let ?c = "scFields (store w)" and ?ttl = "if sint ttl \<le> 0 then mcDefaultTTL (scFields (store w)) else ttl"
  obtain d w1 where j: "(if \<not> hasEnvelope (scHeap (store w) v) then applyJitter ?ttl (mcTTLJitter ?c) w else (?ttl, w)) = (d, w1)"
    by force
  then have s1: "store w1 = store w" by (auto dest: applyJitter_frame split: if_splits)
  have j': "(if \<not> hasEnvelope (scHeap (store w) v) then applyJitter ?ttl (mcTTLJitter ?c) (absWorld w) else (?ttl, absWorld w))
      = (d, absWorld w1)" using j by (auto simp: absWorld_ops split: if_splits)
  obtain a w2 where c: "clone v w1 = (a, w2)" by force
  note cs = clone_spec [OF _ c, unfolded s1, OF assms(2)]
  have it: "it = \<lparr>sVal = a, sDeadline = (if 0 < sint d then tAdd (now w2) d else zeroTime)\<rparr>"
    "w' = (if 0 < sint d then snd (timeNow w2) else w2)"
    using assms(1) j c by (auto simp: slNewItem_def Let_def timeNow_def)
  have st: "store w' = store w2" by (simp add: it timeNow_def)
  have d: "deref (store w') it = \<lparr>val = scHeap (store w) v, deadline = sDeadline it\<rparr>" using cs(4) by (simp add: deref_def st it(1))
  show "newItem (absCache (store w)) (scHeap (store w) v) ttl (absWorld w) = (deref (store w') it, absWorld w')"
    unfolding newItem_def Let_def absCache_sel j' d prod.case
    using cs(1) by (auto simp: it timeNow_def absWorld_upd simp flip: cs(1))
  show "frame w w'" using clone_frame [OF c] assms(2) s1 by (simp add: frame_def st)
  show "scNext (store w) \<le> sVal it" "sVal it < scNext (store w')" using cs(2,3) by (simp_all add: it(1) st)
  have "absWorld w1 = absWorld w2" using cs(1) by simp
  then have "store (absWorld w1) = store (absWorld w2)" by (rule arg_cong)
  then show "absCache (store w') = absCache (store w)" by (simp add: st s1)
qed

lemma slPut_spec:
  assumes "slWf (store w)" "a < scNext (store w)"
  shows "absWorld (slPut k a ttl w) = memPut k (scHeap (store w) a) ttl (absWorld w)" "frame w (slPut k a ttl w)"
proof -
  obtain it w1 where n: "slNewItem a ttl w = (it, w1)" by force
  note ns = slNewItem_spec [OF n assms(1)]
  let ?c = "store w1" and ?k = "memKey (scFields (store w1)) k"
  have p: "slPut k a ttl w = w1\<lparr>store := ?c\<lparr>scItems := (scItems ?c)(?k \<mapsto> it)\<rparr>\<rparr>"
    by (simp add: slPut_def n Let_def)
  show "absWorld (slPut k a ttl w) = memPut k (scHeap (store w) a) ttl (absWorld w)"
    unfolding p memPut_def using ns(1) by (simp add: absWorld_upd absCache_put Let_def)
  have "itemSlices (?c\<lparr>scItems := (scItems ?c)(?k \<mapsto> it)\<rparr>) \<subseteq> insert (sVal it) (itemSlices ?c)"
    by (auto simp: itemSlices_def ran_def)
  with ns(2-4) show "frame w (slPut k a ttl w)" unfolding p by (auto simp: frame_def keepsHeap_def slWf_def)
qed

text \<open>The batch methods.\<close>

lemma heap_map_cong:
  assumes "ran out \<subseteq> {..<n}" "\<And>a. a < n \<Longrightarrow> h' a = h a"
  shows "map_option h' \<circ> out = map_option h \<circ> out"
proof
  fix k
  show "(map_option h' \<circ> out) k = (map_option h \<circ> out) k"
    using assms ranI [of out k] by (cases "out k") auto
qed

lemma slGetLoop_spec:
  assumes "slGetLoop ks out w = ((out', hs, ms), w')" "slWf (store w)" "ran out \<subseteq> {..<scNext (store w)}"
  shows "memGetLoop ks (map_option (scHeap (store w)) \<circ> out) (absWorld w) = ((map_option (scHeap (store w')) \<circ> out', hs, ms), absWorld w')
    \<and> frame w w' \<and> itemSlices (store w') \<subseteq> itemSlices (store w)
    \<and> ran out' \<subseteq> ran out \<union> {scNext (store w)..<scNext (store w')}"
  using assms
proof (induction ks arbitrary: out w hs ms)
  case Nil
  then show ?case by (simp add: frame_refl)
next
  case (Cons k ks)
  obtain q w1 where l: "slLookup k w = (q, w1)" by force
  note sp = slLookup_spec [OF l] and fr = slLookup_frame [OF l Cons.prems(2)]
  show ?case
  proof (cases q)
    case None
    obtain ms' where r: "slGetLoop ks out w1 = ((out', hs, ms'), w')" "ms = k # ms'"
      using Cons.prems(1) l None by (auto split: prod.splits)
    note ih = Cons.IH [OF r(1) frameD(2) [OF fr]]
    from ih sp fr Cons.prems(3) None r(2) show ?thesis by (auto intro: frame_trans)
  next
    case (Some it)
    obtain a w2 where c: "clone (sVal it) w1 = (a, w2)" by force
    note cs = clone_spec [OF frameD(2) [OF fr] c]
    obtain hs' where r: "slGetLoop ks (out(k \<mapsto> a)) w2 = ((out', hs', ms), w')" "hs = k # hs'"
      using Cons.prems(1) l c Some by (auto split: prod.splits)
    have fr2: "frame w w2" by (rule frame_trans [OF fr clone_frame [OF c frameD(2) [OF fr]]])
    have a: "a = scNext (store w)" "scNext (store w2) = Suc a" using cs(2,3) sp(3) by simp_all
    have ran2: "ran (out(k \<mapsto> a)) \<subseteq> {..<scNext (store w2)}" "ran (out(k \<mapsto> a)) \<subseteq> insert a (ran out)"
      using Cons.prems(3) a by (auto simp: ran_def split: if_splits)
    have "map_option (scHeap (store w2)) \<circ> out = map_option (scHeap (store w)) \<circ> out"
      by (rule heap_map_cong [OF Cons.prems(3) frameD(4) [OF fr2]])
    then have m: "map_option (scHeap (store w2)) \<circ> out(k \<mapsto> a) = (map_option (scHeap (store w)) \<circ> out)(k \<mapsto> scHeap (store w) (sVal it))"
      using cs(4) sp(2) by (simp add: fun_eq_iff)
    note ih = Cons.IH [OF r(1) cs(7) ran2(1), unfolded m cs(1)]
    have "frame w w'" using ih fr2 by (blast intro: frame_trans)
    moreover have "itemSlices (store w') \<subseteq> itemSlices (store w)" using ih cs(8) sp(5) by auto
    moreover have "a < scNext (store w')" using ih a(2) frameD(3) [of w2 w'] by auto
    moreover have "ran out' \<subseteq> ran (out(k \<mapsto> a)) \<union> {scNext (store w2)..<scNext (store w')}" using ih by blast
    then have "ran out' \<subseteq> ran out \<union> {scNext (store w)..<scNext (store w')}"
      by (rule order_trans) (use ran2(2) a \<open>a < scNext (store w')\<close> in \<open>auto simp del: fun_upd_apply\<close>)
    moreover have "memGetLoop (k # ks) (map_option (scHeap (store w)) \<circ> out) (absWorld w)
        = ((map_option (scHeap (store w')) \<circ> out', hs, ms), absWorld w')"
    proof -
      have "val (deref (store w) it) = scHeap (store w) (sVal it)" by (simp add: deref_def)
      with ih [THEN conjunct1] show ?thesis unfolding memGetLoop.simps sp(1) Some r(2) by (simp add: comp_def del: fun_upd_apply)
    qed
    ultimately show ?thesis by blast
  qed
qed

lemma slGetMany_spec:
  assumes "slGetMany cx ks w = (Inr out, w')" "slWf (store w)"
  shows "memGetMany cx ks (absWorld w) = (Inr (map_option (scHeap (store w')) \<circ> out), absWorld w')" "frame w w'"
    "itemSlices (store w') \<subseteq> itemSlices (store w)" "ran out \<subseteq> {scNext (store w)..<scNext (store w')}"
proof -
  obtain hs ms w1 where l: "slGetLoop ks Map.empty w = ((out, hs, ms), w1)"
    and w': "w' = fold (hookMiss (mcHooks (scFields (store w)))) ms (fold (hookHit (mcHooks (scFields (store w)))) hs w1)"
    using assms(1) by (auto simp: slGetMany_def split: prod.splits)
  note sp = slGetLoop_spec [OF l assms(2)]
  have st: "store w' = store w1" by (simp add: w' fold_hooks)
  have "map_option (scHeap (store w)) \<circ> Map.empty = Map.empty" by (simp add: fun_eq_iff)
  with sp show "memGetMany cx ks (absWorld w) = (Inr (map_option (scHeap (store w')) \<circ> out), absWorld w')"
    by (simp add: memGetMany_def w' fold_hooks)
  show "frame w w'" by (rule frame_store [OF _ st]) (use sp in simp)
  show "itemSlices (store w') \<subseteq> itemSlices (store w)" "ran out \<subseteq> {scNext (store w)..<scNext (store w')}"
    using sp by (simp_all add: st)
qed

lemma fold_slPut:
  assumes "slWf (store w)" "\<forall>(k, a)\<in>set xs. a < scNext (store w)"
  shows "absWorld (fold (\<lambda>(k, v). slPut k v ttl) xs w)
      = fold (\<lambda>(k, v). memPut k v ttl) (map (\<lambda>(k, a). (k, scHeap (store w) a)) xs) (absWorld w)
    \<and> frame w (fold (\<lambda>(k, v). slPut k v ttl) xs w)"
  using assms
proof (induction xs arbitrary: w)
  case (Cons x xs)
  obtain k a where x: "x = (k, a)" by force
  let ?w1 = "slPut k a ttl w"
  have a: "a < scNext (store w)" using Cons.prems(2) x by simp
  note sp = slPut_spec [OF Cons.prems(1) a, of k ttl]
  have old: "\<forall>(k, b)\<in>set xs. b < scNext (store w)" using Cons.prems(2) by simp
  then have "\<forall>(k, b)\<in>set xs. b < scNext (store ?w1)" using frameD(3) [OF sp(2)] by fastforce
  note ih = Cons.IH [OF frameD(2) [OF sp(2)] this]
  have "map (\<lambda>(k, a). (k, scHeap (store ?w1) a)) xs = map (\<lambda>(k, a). (k, scHeap (store w) a)) xs"
    using old frameD(4) [OF sp(2)] by auto
  with ih sp x show ?case by (auto intro: frame_trans)
qed (simp add: frame_refl)

lemma rangeItems_abs:
  "rangeItems (map (\<lambda>(k, a). (k, f a)) kvs) (absWorld w) = (case rangeItems kvs w of (xs, w') \<Rightarrow> (map (\<lambda>(k, a). (k, f a)) xs, absWorld w'))"
proof -
  have "List.map_filter (\<lambda>k. map_option (Pair k) (map_of (map (\<lambda>(k, a). (k, f a)) kvs) k)) ks
      = map (\<lambda>(k, a). (k, f a)) (List.map_filter (\<lambda>k. map_option (Pair k) (map_of kvs k)) ks)" for ks
    by (induction ks) (auto simp: List.map_filter_simps map_of_map split: option.splits)
  moreover have keys: "map fst (map (\<lambda>(k, a). (k, f a)) kvs) = map fst kvs" by auto
  ultimately show ?thesis unfolding rangeItems_def rangeMap_def keys by (simp add: absWorld_upd del: map_map)
qed

lemma rangeItems_subset: "rangeItems kvs w = (xs, w') \<Longrightarrow> set xs \<subseteq> set kvs \<and> store w' = store w"
  by (auto simp: rangeItems_def rangeMap_def List.map_filter_def) (auto dest: map_of_SomeD)

lemma slSetMany_spec:
  assumes "slSetMany cx kvs ttl w = (q, w')" "slWf (store w)" "snd ` set kvs \<subseteq> {..<scNext (store w)}"
  shows "memSetMany cx (map (\<lambda>(k, a). (k, scHeap (store w) a)) kvs) ttl (absWorld w) = (None, absWorld w')" "frame w w'"
proof -
  obtain xs w1 where r: "rangeItems kvs w = (xs, w1)" by force
  have st: "store w1 = store w" "set xs \<subseteq> set kvs" using rangeItems_subset [OF r] by simp_all
  have "\<forall>(k, a)\<in>set xs. a < scNext (store w1)" using st assms(3) by fastforce
  note sp = fold_slPut [OF assms(2) [folded st(1)] this, of ttl]
  have w': "w' = fold (\<lambda>(k, v). slPut k v ttl) xs w1" using assms(1) r by (simp add: slSetMany_def)
  show "memSetMany cx (map (\<lambda>(k, a). (k, scHeap (store w) a)) kvs) ttl (absWorld w) = (None, absWorld w')"
    using sp r by (simp add: memSetMany_def rangeItems_abs w' st(1))
  show "frame w w'" using sp w' st(1) by (simp add: frame_def)
qed

lemma slDelete_spec:
  assumes "slDelete cx k w = (q, w')" "slWf (store w)"
  shows "memDelete cx k (absWorld w) = (None, absWorld w')" "frame w w'" "itemSlices (store w') \<subseteq> itemSlices (store w)"
proof -
  let ?c = "store w"
  have w': "w' = w\<lparr>store := ?c\<lparr>scItems := (scItems ?c)(memKey (scFields ?c) k := None)\<rparr>\<rparr>"
    using assms(1) by (simp add: slDelete_def Let_def)
  show "memDelete cx k (absWorld w) = (None, absWorld w')"
    by (simp add: memDelete_def Let_def w' absWorld_upd absCache_put)
  show sub: "itemSlices (store w') \<subseteq> itemSlices (store w)" by (auto simp: w' itemSlices_def ran_def)
  then show "frame w w'" using assms(2) by (auto simp: frame_def keepsHeap_def slWf_def w')
qed

section \<open>The simulation\<close>

definition sinv :: "('c, 'h) sliceState \<Rightarrow> bool" where
  "sinv s \<longleftrightarrow> (let c = store (ssWorld s) in slWf c \<and> ssHeld s \<subseteq> {..<scNext c} \<and> ssHeld s \<inter> itemSlices c = {})"

text \<open>The step of the cache of theory Memory that an event stands for; \<open>h\<close> and \<open>h'\<close> are the heaps before and after.\<close>

fun valueStep :: "sliceEvent \<Rightarrow> (slice \<Rightarrow> bytes) \<Rightarrow> (slice \<Rightarrow> bytes) \<Rightarrow> (('c, 'h) MemoryCache, 'h) world \<Rightarrow>
    (('c, 'h) MemoryCache, 'h) world \<Rightarrow> bool" where
  "valueStep (Made a) h h' w w' \<longleftrightarrow> w' = w"
| "valueStep (Wrote a b) h h' w w' \<longleftrightarrow> w' = w"
| "valueStep (Got cx k r) h h' w w' \<longleftrightarrow> memGet cx k w = (map_sum id h' r, w')"
| "valueStep (GotMany cx ks out) h h' w w' \<longleftrightarrow> memGetMany cx ks w = (Inr (map_option h' \<circ> out), w')"
| "valueStep (SetOne cx k a ttl) h h' w w' \<longleftrightarrow> memSet cx k (h a) ttl w = (None, w')"
| "valueStep (SetMany cx kvs ttl) h h' w w' \<longleftrightarrow> memSetMany cx (map (\<lambda>(k, a). (k, h a)) kvs) ttl w = (None, w')"
| "valueStep (Deleted cx k) h h' w w' \<longleftrightarrow> memDelete cx k w = (None, w')"
| "valueStep Ticked h h' w w' \<longleftrightarrow> w' = snd (timeNow w)"

lemma sinv_frame:
  assumes "sinv s" "frame (ssWorld s) w'" "new \<subseteq> {scNext (store (ssWorld s))..<scNext (store w')}" "new \<inter> itemSlices (store w') = {}"
  shows "sinv \<lparr>ssWorld = w', ssHeld = ssHeld s \<union> new\<rparr>" "a \<in> ssHeld s \<Longrightarrow> scHeap (store w') a = scHeap (store (ssWorld s)) a"
proof -
  note f = frameD [OF assms(2)]
  have held: "ssHeld s \<subseteq> {..<scNext (store (ssWorld s))}" "ssHeld s \<inter> itemSlices (store (ssWorld s)) = {}"
    using assms(1) by (simp_all add: sinv_def Let_def)
  have "ssHeld s \<inter> itemSlices (store w') = {}" using held f(5) by fastforce
  moreover have "ssHeld s \<subseteq> {..<scNext (store w')}" using held(1) f(3) by auto
  ultimately show "sinv \<lparr>ssWorld = w', ssHeld = ssHeld s \<union> new\<rparr>"
    using assms(3,4) f(2) by (auto simp: sinv_def Let_def)
  show "a \<in> ssHeld s \<Longrightarrow> scHeap (store w') a = scHeap (store (ssWorld s)) a" using held(1) f(4) by auto
qed

lemma state_upd: "s\<lparr>ssWorld := w\<rparr> = \<lparr>ssWorld = w, ssHeld = ssHeld s\<rparr>"
  by (cases s) simp

lemma sstep_sim:
  assumes "sstep s ev s'" "sinv s"
  shows "sinv s' \<and> valueStep ev (scHeap (store (ssWorld s))) (scHeap (store (ssWorld s'))) (absWorld (ssWorld s)) (absWorld (ssWorld s'))
    \<and> (\<forall>a\<in>ssHeld s. (\<forall>b. ev \<noteq> Wrote a b) \<longrightarrow> scHeap (store (ssWorld s')) a = scHeap (store (ssWorld s)) a)"
  using assms
proof (induction rule: sstep.induct)
  case (made b s a w')
  then have wf: "slWf (store (ssWorld s))" by (simp add: sinv_def Let_def)
  note sp = alloc_spec [OF wf made(1)]
  have fr: "frame (ssWorld s) w'" using sp(5,7,8) by (simp add: frame_def)
  have new: "{a} \<subseteq> {scNext (store (ssWorld s))..<scNext (store w')}" "{a} \<inter> itemSlices (store w') = {}"
    using sp(2,3,8) wf by (auto simp: slWf_def)
  from sinv_frame [OF made(2) fr new] sp(1) show ?case by auto
next
  case (wrote a s c b)
  have c: "slWf c" "a \<notin> itemSlices c" using wrote by (auto simp: sinv_def Let_def)
  have abs: "absCache (c\<lparr>scHeap := (scHeap c)(a := b)\<rparr>) = absCache c"
    by (rule absCache_heap [OF c(1)]) (use c(2) in auto)
  have "absWorld (ssWorld s) = (absWorld (ssWorld s))\<lparr>store := absCache c\<rparr>" using wrote(2) by (simp add: absWorld_def)
  with abs have "absWorld ((ssWorld s)\<lparr>store := c\<lparr>scHeap := (scHeap c)(a := b)\<rparr>\<rparr>) = absWorld (ssWorld s)"
    by (simp add: absWorld_upd)
  with wrote show ?case by (auto simp: sinv_def Let_def slWf_def itemSlices_def)
next
  case (got cx k s r w')
  then have wf: "slWf (store (ssWorld s))" by (simp add: sinv_def Let_def)
  note sp = slGet_spec [OF got(1) wf]
  have new: "(case r of Inl _ \<Rightarrow> {} | Inr a \<Rightarrow> {a}) \<subseteq> {scNext (store (ssWorld s))..<scNext (store w')}"
    "(case r of Inl _ \<Rightarrow> {} | Inr a \<Rightarrow> {a}) \<inter> itemSlices (store w') = {}"
    using sp(4) by (auto split: sum.splits)
  from sinv_frame [OF got(2) sp(2) new] sp(1) show ?case by simp
next
  case (got_many cx ks s out w')
  then have wf: "slWf (store (ssWorld s))" by (simp add: sinv_def Let_def)
  note sp = slGetMany_spec [OF got_many(1) wf]
  have "ran out \<inter> itemSlices (store w') = {}" using sp(3,4) wf by (fastforce simp: slWf_def)
  from sinv_frame [OF got_many(2) sp(2) sp(4) this] sp(1) show ?case by simp
next
  case (set_one a s cx k ttl q w')
  then have wf: "slWf (store (ssWorld s))" and a: "a < scNext (store (ssWorld s))" by (auto simp: sinv_def Let_def)
  have w': "w' = slPut k a ttl (ssWorld s)" using set_one(2) by (simp add: slSet_def)
  note sp = slPut_spec [OF wf a, of k ttl]
  from sinv_frame [OF set_one(3) sp(2), of "{}"] sp(1) show ?case by (simp add: w' memSet_def state_upd)
next
  case (set_many kvs s cx ttl q w')
  then have wf: "slWf (store (ssWorld s))" and old: "snd ` set kvs \<subseteq> {..<scNext (store (ssWorld s))}"
    by (auto simp: sinv_def Let_def)
  note sp = slSetMany_spec [OF set_many(3) wf old]
  from sinv_frame [OF set_many(4) sp(2), of "{}"] sp(1) show ?case by (simp add: state_upd)
next
  case (deleted cx k s q w')
  then have wf: "slWf (store (ssWorld s))" by (simp add: sinv_def Let_def)
  note sp = slDelete_spec [OF deleted(1) wf]
  from sinv_frame [OF deleted(2) sp(2), of "{}"] sp(1) show ?case by (simp add: state_upd)
next
  case (ticked s)
  then show ?case by (simp add: sinv_def Let_def timeNow_def absWorld_upd)
qed

lemma sreach_sinv:
  assumes "sreach s0 s" "scItems (store (ssWorld s0)) = Map.empty" "ssHeld s0 = {}"
  shows "sinv s"
  using assms
proof (induction rule: sreach.induct)
  case sreach_init
  then show ?case by (simp add: sinv_def Let_def slWf_def itemSlices_def)
next
  case (sreach_step s ev s')
  then show ?case using sstep_sim by blast
qed

text \<open>For the worked instances: a caller makes a slice and stores it.\<close>

definition noSlices :: "(nat, event list) sliceState" where
  "noSlices = \<lparr>ssWorld = demoWorld 0 \<lparr>scFields = NewMemory demoCodec [], scItems = Map.empty, scHeap = (\<lambda>_. []), scNext = 0\<rparr> [],
     ssHeld = {}\<rparr>"

lemma noSlices_simps: "scItems (store (ssWorld noSlices)) = Map.empty" "ssHeld noSlices = {}"
  by (simp_all add: noSlices_def)

lemma plainMemory: "mcDefaultTTL (NewMemory demoCodec []) = 0" "mcTTLJitter (NewMemory demoCodec []) = 0"
  "memKey (NewMemory demoCodec []) k = k"
  by (simp_all add: NewMemory_def buildOptions_def initialOptions_def Let_def maxJitter_value memKey_def)

lemma stored_slice:
  obtains w where "sreach noSlices \<lparr>ssWorld = w, ssHeld = {0}\<rparr>" "scHeap (store w) 0 = [1]"
    "fst (memGet Background ''k'' (absWorld w)) = Inr [1]" "scFields (store w) = NewMemory demoCodec []"
proof -
  let ?w0 = "ssWorld noSlices"
  have wf0: "slWf (store ?w0)" by (simp add: noSlices_def slWf_def itemSlices_def)
  obtain a w1 where al: "alloc [1] ?w0 = (a, w1)" by force
  note sp = alloc_spec [OF wf0 al]
  have a: "a = 0" using sp(2) by (simp add: noSlices_def)
  let ?s1 = "\<lparr>ssWorld = w1, ssHeld = {0}\<rparr> :: (nat, event list) sliceState"
  have 1: "sstep noSlices (Made 0) ?s1" using made [OF al] by (simp add: a noSlices_def)
  let ?w = "slPut ''k'' 0 0 w1"
  have "sstep ?s1 (SetOne Background ''k'' 0 0) (?s1\<lparr>ssWorld := ?w\<rparr>)"
    by (rule set_one) (simp_all add: slSet_def)
  from sreach_step [OF sreach_step [OF sreach_init 1] this] have run: "sreach noSlices \<lparr>ssWorld = ?w, ssHeld = {0}\<rparr>" by simp
  have n: "0 < scNext (store w1)" using sp(3) by simp
  note pu = slPut_spec [OF sp(7) n, of "''k''" 0]
  have f1: "scFields (store w1) = NewMemory demoCodec []" using sp(5) by (simp add: keepsHeap_def noSlices_def)
  have set: "cSet (memoryCache 0) Background ''k'' [1] 0 (absWorld w1) = (None, absWorld ?w)"
    using pu(1) sp(4) a by (simp add: memSet_def)
  have "memExpiry [1] 0 (absWorld w1) = None"
    using f1 by (simp add: memExpiry_def newItem_def plainMemory applyJitter_def isZero_def zeroTime_def Let_def)
  then have "fst (cGet (memoryCache 0) Background ''k'' (absWorld ?w)) = Inr [1]"
    by (intro mem.set_then_get(1) [OF set]) (simp add: livesUntil_def)
  moreover have "scHeap (store ?w) 0 = [1]" using frameD(4) [OF pu(2) n] sp(4) a by simp
  moreover have "scFields (store ?w) = NewMemory demoCodec []" using frameD(1) [OF pu(2)] f1 by (simp add: keepsHeap_def)
  ultimately show ?thesis using that [OF run] by simp
qed

section \<open>Properties\<close>

text \<open>
  (C28) Values are immutable in effect: in every state that any calls and any overwriting of slices by the callers
  reach, each method of the memory cache does to the content, and returns, exactly what theory Memory says, and the callers' own
  steps change nothing of the content.
\<close>

theorem slices_refine_values:
  assumes "sreach s0 s" "scItems (store (ssWorld s0)) = Map.empty" "ssHeld s0 = {}" "sstep s ev s'"
  shows "valueStep ev (scHeap (store (ssWorld s))) (scHeap (store (ssWorld s'))) (absWorld (ssWorld s)) (absWorld (ssWorld s'))"
  using sstep_sim [OF assms(4) sreach_sinv [OF assms(1-3)]] by blast

theorem slices_refine_values_witness:
  "\<exists>s s' a. sreach noSlices s \<and> sstep s (Got Background ''k'' (Inr a)) s' \<and> scHeap (store (ssWorld s)) 0 = [9]
     \<and> scHeap (store (ssWorld s')) a = [1]"
proof -
  obtain w where s: "sreach noSlices \<lparr>ssWorld = w, ssHeld = {0}\<rparr>" and g: "fst (memGet Background ''k'' (absWorld w)) = Inr [1]"
    by (rule stored_slice)
  let ?s = "\<lparr>ssWorld = w, ssHeld = {0}\<rparr> :: (nat, event list) sliceState"
  let ?c = "store w"
  let ?s1 = "?s\<lparr>ssWorld := (ssWorld ?s)\<lparr>store := ?c\<lparr>scHeap := (scHeap ?c)(0 := [9])\<rparr>\<rparr>\<rparr>"
  have 1: "sstep ?s (Wrote 0 [9]) ?s1" by (rule wrote) simp_all
  note s1 = sreach_step [OF s 1]
  have abs: "absWorld (ssWorld ?s1) = absWorld w" using slices_refine_values [OF s noSlices_simps 1] by simp
  obtain r w' where g': "slGet Background ''k'' (ssWorld ?s1) = (r, w')" by force
  note 2 = got [OF g']
  have "memGet Background ''k'' (absWorld w) = (map_sum id (scHeap (store w')) r, absWorld w')"
    using slices_refine_values [OF s1 noSlices_simps 2] abs by simp
  with g have "map_sum id (scHeap (store w')) r = Inr [1]" by simp
  then obtain a where a: "r = Inr a" "scHeap (store w') a = [1]" by (cases r) auto
  have "sstep ?s1 (Got Background ''k'' (Inr a)) \<lparr>ssWorld = w', ssHeld = ssHeld ?s1 \<union> {a}\<rparr>" using 2 a(1) by simp
  moreover have "scHeap (store (ssWorld ?s1)) 0 = [9]" by simp
  ultimately show ?thesis using s1 a(2)
    by (intro exI [of _ ?s1] exI [of _ "\<lparr>ssWorld = w', ssHeld = ssHeld ?s1 \<union> {a}\<rparr>"] exI [of _ a]) simp
qed

text \<open>
  (C29) No aliasing in either direction: a slice that a caller holds is never one the cache keeps, and no
  method of the cache changes its content.
\<close>

theorem callers_never_alias:
  assumes "sreach s0 s" "scItems (store (ssWorld s0)) = Map.empty" "ssHeld s0 = {}" "a \<in> ssHeld s"
    and "sstep s ev s'" "\<forall>b. ev \<noteq> Wrote a b"
  shows "(\<forall>k it. scItems (store (ssWorld s)) k = Some it \<longrightarrow> sVal it \<noteq> a)
    \<and> scHeap (store (ssWorld s')) a = scHeap (store (ssWorld s)) a"
proof -
  have "sinv s" by (rule sreach_sinv [OF assms(1-3)])
  moreover from this have "a \<notin> itemSlices (store (ssWorld s))" using assms(4) by (auto simp: sinv_def Let_def)
  ultimately show ?thesis using sstep_sim [OF assms(5)] assms(4,6) itemSlicesI by fastforce
qed

theorem callers_never_alias_witness:
  "\<exists>s s' it. sreach noSlices s \<and> sstep s (Deleted Background ''k'') s' \<and> scItems (store (ssWorld s)) ''k'' = Some it \<and> sVal it \<noteq> 0
     \<and> scHeap (store (ssWorld s')) 0 = [1]"
proof -
  obtain w where s: "sreach noSlices \<lparr>ssWorld = w, ssHeld = {0}\<rparr>" and h: "scHeap (store w) 0 = [1]"
    and g: "fst (memGet Background ''k'' (absWorld w)) = Inr [1]" and f: "scFields (store w) = NewMemory demoCodec []"
    by (rule stored_slice)
  let ?s = "\<lparr>ssWorld = w, ssHeld = {0}\<rparr> :: (nat, event list) sliceState"
  obtain r u where m: "memGet Background ''k'' (absWorld w) = (r, u)" by force
  have "memView (absCache (store w)) (now w) ''k'' \<noteq> None" using memGet_result [OF m] g m by (auto split: option.splits)
  then obtain it where it: "scItems (store w) ''k'' = Some it"
    using f by (auto simp: memView_def plainMemory split: option.splits)
  obtain q w' where d: "slDelete Background ''k'' (ssWorld ?s) = (q, w')" by force
  note 1 = deleted [OF d]
  have "0 \<in> ssHeld ?s" by simp
  from callers_never_alias [OF s noSlices_simps this 1] it h
  have "sVal it \<noteq> 0" "scHeap (store (ssWorld (?s\<lparr>ssWorld := w'\<rparr>))) 0 = [1]" by auto
  with s 1 it show ?thesis by (intro exI [of _ ?s] exI [of _ "?s\<lparr>ssWorld := w'\<rparr>"] exI [of _ it]) simp
qed

end
