(* ===== verification/Spec2Isabelle.thy ===== *)
theory Spec2Isabelle
  imports Refresh Progress ValkeyBatch RedisRuns Testapp Slices
begin

text \<open>
  A verification development for cache-kit, a Go cache-aside library: a \<open>Cache\<close> interface over byte
  strings with three backends (an in-process map, Redis through go-redis, Valkey through
  valkey-go), and the helpers \<open>GetOrSet\<close> and \<open>GetOrSetMany\<close> that read through a cache, call a loader
  on a miss, store what it returned, and add negative caching, TTL jitter,
  stale-while-revalidate, probabilistic early refresh, event hooks and the deduplication of
  concurrent loads.

  \<^bold>\<open>The model.\<close> Go code is translated function by function to HOL functions that pass a state, the
  \<open>world\<close> (theory GoRuntime): the state of the backend (\<open>store\<close>), and the cursors into a \<open>runtime\<close>, the
  oracles for the clock, the random numbers and the iteration order of maps, with the state of the
  observers that hooks feed. Time passes where the code reads the clock or calls out: the clock is any
  monotone sequence of readings, and a backend or a loader may use up readings of its own. Fallible functions return \<open>gerror + 'a\<close>; \<open>gerror\<close> is Go's error with its
  wrapping chain, so \<open>errors.Is\<close> is a recursive function. A loader returns an \<open>outcome\<close>: a value, an
  error or a panic. Durations are 64-bit words read as signed numbers, with the
  wrap-around Go has; instants are integers (nanoseconds since the Unix epoch); \<open>float64\<close> is the
  rational a finite number denotes, every operation rounded to 53 significant bits (Float64).

  \<^bold>\<open>Theories.\<close>
  \<^item> \<^verbatim>\<open>Prelude\<close>: machine types, collections of rules, lemmas on lists, maps and signed words, and the
    string and list helpers the Go standard library provides.
  \<^item> \<^verbatim>\<open>Float64\<close>: rounding; its locale \<open>rounding\<close> states the two facts the clients use.
  \<^item> \<^verbatim>\<open>GoRuntime\<close>: errors, contexts, clock, random numbers, the \<open>world\<close>.
  \<^item> \<^verbatim>\<open>Envelope\<close>: \<open>envelope.go\<close> and \<open>negative.go\<close>. The byte formats: the wrap/parse round trip up
    to the millisecond resolution, marker and envelope are never confused, staleness and early refresh.
  \<^item> \<^verbatim>\<open>Config\<close>: \<open>codec.go\<close>, \<open>hooks.go\<close>, \<open>options.go\<close>. Hooks, functional options, jitter and its bounds.
  \<^item> \<^verbatim>\<open>CacheAPI\<close>: the \<open>Cache\<close> and \<open>BatchCache\<close> interfaces, \<open>ErrCacheMiss\<close>, \<open>configOf\<close>, and the contract of
    a backend, the locales \<open>cache_contract\<close>, \<open>reliable_cache\<close>, with its callbacks \<open>observed_cache\<close>, and with its batch
    methods \<open>batch_cache\<close>.
  \<^item> \<^verbatim>\<open>Memory\<close>: \<open>memory.go\<close>. The reachability invariant of the map, the expiry rule, the hooks of a
    read, and the interpretations \<open>mem\<close> and \<open>memo\<close> of the contract.
  \<^item> \<^verbatim>\<open>Loading\<close>: the flights of \<open>cache.go\<close> (key, detached context, re-check, load, store) and the result
    conversion of \<open>group.go\<close>.
  \<^item> \<^verbatim>\<open>GetOrSet\<close>: the helper of \<open>cache.go\<close> itself, over any cache with the contract: hits, negative hits,
    load once then hit, failures that leave nothing behind, negative caching, a cache that is down.
  \<^item> \<^verbatim>\<open>Refresh\<close>: background refreshes, requested for a stale entry or early: the old value now and the new one
    later; a failed refresh and a refresh that finds a fresher entry change nothing.
  \<^item> \<^verbatim>\<open>Batch\<close>: \<open>batch.go\<close>. A refinement of \<open>GetOrSetMany\<close> by a specification of what it returns, then its
    effects on any cache with the batch contract: what a batch loaded is hit by the next one. The memory cache is an instance
    (interpretation \<open>memb\<close>); its batched reads and writes.
  \<^item> \<^verbatim>\<open>Redis\<close>, \<^verbatim>\<open>RefServer\<close>: \<open>redis.go\<close>, and a reference server and client on which the
    cache over Redis is shown to be an instance of the contract (interpretation \<open>rds\<close>).
  \<^item> \<^verbatim>\<open>RedisBatch\<close>: the batch methods of the Redis cache, a pipelined write that succeeds or fails as a whole, and
    \<open>GetOrSetMany\<close> over Redis (interpretation \<open>rdb\<close>).
  \<^item> \<^verbatim>\<open>Valkey\<close>: \<open>valkey.go\<close>, related to the Redis cache by a functional refinement (interpretation \<open>vks\<close>).
  \<^item> \<^verbatim>\<open>ValkeyBatch\<close>: its batch methods against those of the Redis cache, on any replies; on a healthy server the two caches are
    equal (interpretation \<open>vkb\<close>).
  \<^item> \<^verbatim>\<open>Flights\<close>: \<open>group.go\<close> as a state machine of concurrent callers, with reachability, its
    invariant, and single flight per key.
  \<^item> \<^verbatim>\<open>Interleaving\<close>: the helper and the group together, any number of concurrent calls interleaved at
    every backend operation and loader call. It refines Flights, and a call that runs undisturbed is
    \<open>getOrSetWithCodec\<close>.
  \<^item> \<^verbatim>\<open>Fleet\<close>: several processes over one server, each with a machine of its own; the locales \<open>stable_process\<close> and
    \<open>timed_process\<close>, in which an invariant of one process is proved once for a process alone and for every process of a fleet.
  \<^item> \<^verbatim>\<open>Herd\<close>: no thundering herd, an invariant of all runs of that machine (interpretation \<open>memh\<close>).
  \<^item> \<^verbatim>\<open>Serving\<close>: requests never wait for refreshes, a second invariant of all runs.
  \<^item> \<^verbatim>\<open>Progress\<close>: every call returns. A cost that every step of a call or flight lowers, and the proof
    that some step is possible until all calls have returned and all flights have finished.
  \<^item> \<^verbatim>\<open>RedisRuns\<close>: both invariants over a Redis server that keeps entries for their TTL, in one process and in a fleet: at
    most one load per process, and no process ever waits for a refresh.
  \<^item> \<^verbatim>\<open>Slices\<close>: \<open>memory.go\<close> once more, its byte slices being references into a heap that callers can write
    to; a simulation by theory Memory, where values are immutable.
  \<^item> \<^verbatim>\<open>Testapp\<close>: \<open>deploy/k3d/testapp/main.go\<close>, a client of the library. The wait for the cluster, and the
    demonstration from its options to its counters, end to end over \<open>redisCache\<close>.

  \<^bold>\<open>How the parts meet.\<close> A \<open>Cache\<close> value is a record of operations, so one definition of
  \<open>getOrSetWithCodec\<close> runs over \<open>memoryCache\<close>, \<open>redisCache\<close> and \<open>valkeyCache\<close>. The properties of the helpers
  are proved once inside the locales; those stated over a model's definitions follow by its
  interpretation. A call that serves a stale entry returns, beside its result, the refresh flight it
  asked for; \<open>runRefresh\<close> runs that flight in a later world. GetOrSet, Refresh and Batch describe one
  caller's sequential run, whose flight is the one it starts. Concurrent callers are the subject of
  Flights (the group alone), Interleaving (group, helper and cache) and Fleet (several of these over one server), where the same functions,
  cut at their backend operations, are steps of a relation \<open>mstep\<close>; lemmas such as \<open>lookupPhase_steps\<close>
  say that the cuts compose to the sequential functions.

  \<^bold>\<open>Parameters.\<close> Code outside the repository is a parameter: \<open>encoding/json\<close> (a codec), the go-redis and
  valkey-go clients (records of operations, with the hypotheses \<open>redisReads\<close>, \<open>redisWrites\<close>,
  \<open>redisHealthy\<close>, \<open>redisBatches\<close>, \<open>redisBatchesHealthy\<close>, \<open>keepsTTL\<close>, \<open>repliesAll\<close> and \<open>nilSeparate\<close> for their documented behaviour), singleflight (\<open>sfOps\<close>, hypothesis \<open>singleflight\<close>), user hooks and loaders. Each
  such hypothesis is instantiated in a worked example next to the property.

  \<^bold>\<open>Bounds.\<close> No fuel is used: the loops of the library are structural recursion on a list of keys
  or of replies, and \<open>waitReady\<close>, which need not end, is a partial function with the value \<open>None\<close> when it does not. The jitter and early-refresh properties hold for all random draws the model
  can make; overflow hypotheses (an expiry that fits in 63 bits) are stated where they matter.

  \<^bold>\<open>Not modelled.\<close> The mutex of the memory cache (a method is one atomic step; the copy \<open>Set\<close> makes before
  it takes the lock reads a slice of the caller, which theory Slices does not let change within the step), the
  content of byte slices that are shared outside memory.go (values are immutable lists everywhere but in
  Slices), infinities, NaNs and subnormal floats, the text of formatted errors beyond
  its format string and arguments, and, of the demonstration service, \<open>net/http\<close>, the JSON encoder of
  the responses and the text of its log lines.
\<close>

section \<open>One configuration for three backends\<close>

text \<open>
  The constructors of the three backends read every behavioural option: the same option list gives the same key
  prefix and the same configuration for the helpers, whichever backend it is given to, and with an
  existing client too.
\<close>

theorem backends_share_configuration:
  "redisConfig (NewWithClient codec rc opts) = memConfig (NewMemory codec opts)
   \<and> valkeyConfig (NewValkeyWithClient codec vc opts) = memConfig (NewMemory codec opts)
   \<and> redisKey (NewWithClient codec rc opts) k = memKey (NewMemory codec opts) k
   \<and> valkeyKey (NewValkeyWithClient codec vc opts) k = memKey (NewMemory codec opts) k"
  by (simp add: redisConfig_def NewWithClient_def newFromClient_def memConfig_def NewMemory_def Let_def
      valkeyConfig_def NewValkeyWithClient_def newValkeyFromClient_def redisKey_def valkeyKey_def memKey_def)

end
